(* ===== verification/Prelude.thy ===== *)
theory Prelude
  imports Main "HOL-Library.Word"
begin

text \<open>
  Shared vocabulary of the development: the machine integers of the Rust sources as words,
  the result type of fallible code (\<open>'e + 'a\<close>, with \<open>Inl\<close> the error) and its early-return
  operator, panics as error values, big-endian encodings, and the generic locale from which
  every invariant of a stateful component is lifted to its reachable states.
\<close>

unbundle bit_operations_syntax

named_theorems wire_defs \<open>definitions of byte-level encoders\<close>
named_theorems inv_rules \<open>an operation keeps the invariant of its component\<close>

section \<open>Machine integers and addresses\<close>

type_synonym u8 = "8 word"
type_synonym u16 = "16 word"
type_synonym u32 = "32 word"
type_synonym bytes = "u8 list"

text \<open>
  \<open>std::net::Ipv4Addr\<close> is four octets and converts to and from \<open>u32\<close> in network order
  without loss; the model keeps the \<open>u32\<close>.
\<close>

type_synonym ipv4 = "32 word"

definition be16 :: "u16 \<Rightarrow> bytes" where
  [wire_defs]: "be16 w = [ucast (drop_bit 8 w), ucast w]"

definition from_be16 :: "u8 \<Rightarrow> u8 \<Rightarrow> u16" where
  "from_be16 a b = push_bit 8 (ucast a) OR ucast b"

definition be32 :: "u32 \<Rightarrow> bytes" where
  [wire_defs]: "be32 w =
     [ucast (drop_bit 24 w), ucast (drop_bit 16 w), ucast (drop_bit 8 w), ucast w]"

definition from_be32 :: "u8 \<Rightarrow> u8 \<Rightarrow> u8 \<Rightarrow> u8 \<Rightarrow> u32" where
  "from_be32 a b c d =
     push_bit 24 (ucast a) OR push_bit 16 (ucast b) OR push_bit 8 (ucast c) OR ucast d"

lemma length_be16 [simp]: "length (be16 w) = 2"
  by (simp add: be16_def)

lemma length_be32 [simp]: "length (be32 w) = 4"
  by (simp add: be32_def)

lemma from_be16_be16 [simp]: "from_be16 (ucast (drop_bit 8 w)) (ucast w) = w"
  unfolding from_be16_def
  by (rule bit_word_eqI) (auto simp: bit_simps)

lemma from_be32_be32 [simp]:
  "from_be32 (ucast (drop_bit 24 w)) (ucast (drop_bit 16 w)) (ucast (drop_bit 8 w)) (ucast w) = w"
proof (rule bit_word_eqI)
  fix n assume "n < LENGTH(32)"
  then consider "n < 8" | "8 \<le> n" "n < 16" | "16 \<le> n" "n < 24" | "24 \<le> n" "n < 32"
    by fastforce
  then show "bit (from_be32 (ucast (drop_bit 24 w)) (ucast (drop_bit 16 w))
      (ucast (drop_bit 8 w)) (ucast w)) n = bit w n"
    by cases (auto simp: from_be32_def bit_simps)
qed

lemma from_be16_hi [simp]: "ucast (drop_bit 8 (from_be16 a b)) = a"
  unfolding from_be16_def
  by (rule bit_word_eqI) (auto simp: bit_simps dest: bit_imp_le_length)

lemma from_be16_lo [simp]: "ucast (from_be16 a b) = b"
  unfolding from_be16_def
  by (rule bit_word_eqI) (auto simp: bit_simps dest: bit_imp_le_length)

lemma be16_from_be16 [simp]: "be16 (from_be16 a b) = [a, b]"
  by (simp add: be16_def)

lemma be32_from_be32 [simp]: "be32 (from_be32 a b c d) = [a, b, c, d]"
  by (auto simp: be32_def from_be32_def bit_simps intro!: bit_word_eqI)
    (auto dest!: bit_imp_le_length)


text \<open>\<open>Ipv4Addr::octets\<close> and \<open>Ipv4Addr::new\<close>.\<close>

abbreviation octets :: "ipv4 \<Rightarrow> bytes" where
  "octets \<equiv> be32"

abbreviation ipv4_new :: "u8 \<Rightarrow> u8 \<Rightarrow> u8 \<Rightarrow> u8 \<Rightarrow> ipv4" where
  "ipv4_new \<equiv> from_be32"

text \<open>Durations, in nanoseconds.\<close>

definition from_secs :: "nat \<Rightarrow> nat" where "from_secs n = n * 1000000000"

definition from_millis :: "nat \<Rightarrow> nat" where "from_millis n = n * 1000000"

section \<open>Results, early returns and panics\<close>

text \<open>\<open>result_bind r f\<close> is Rust's \<open>?\<close>: leave with the error, or go on with the value.\<close>

definition result_bind :: "'e + 'a \<Rightarrow> ('a \<Rightarrow> 'e + 'b) \<Rightarrow> 'e + 'b" where
  "result_bind r f = (case r of Inl e \<Rightarrow> Inl e | Inr x \<Rightarrow> f x)"

lemma result_bind_simps [simp]:
  "result_bind (Inl e) f = Inl e"
  "result_bind (Inr x) f = f x"
  by (simp_all add: result_bind_def)

lemma result_bind_Inr_iff:
  "result_bind r f = Inr y \<longleftrightarrow> (\<exists>x. r = Inr x \<and> f x = Inr y)"
  by (cases r) auto

lemma result_bind_Inl_iff:
  "result_bind r f = Inl e \<longleftrightarrow> r = Inl e \<or> (\<exists>x. r = Inr x \<and> f x = Inl e)"
  by (cases r) auto

lemma result_bind_cong [fundef_cong]:
  "r = r' \<Longrightarrow> (\<And>x. r' = Inr x \<Longrightarrow> f x = g x) \<Longrightarrow> result_bind r f = result_bind r' g"
  by (cases r') auto

lemma result_bind_split:
  "P (result_bind r f) \<longleftrightarrow> (\<forall>e. r = Inl e \<longrightarrow> P (Inl e)) \<and> (\<forall>x. r = Inr x \<longrightarrow> P (f x))"
  by (cases r) auto

lemma result_bind_split_asm:
  "P (result_bind r f) \<longleftrightarrow>
    \<not> ((\<exists>e. r = Inl e \<and> \<not> P (Inl e)) \<or> (\<exists>x. r = Inr x \<and> \<not> P (f x)))"
  by (cases r) auto

lemmas result_bind_splits = result_bind_split result_bind_split_asm

text \<open>\<open>Option::context(e)\<close> and \<open>Option::ok_or(e)\<close>: a missing value becomes the error \<open>e\<close>.\<close>

definition or_err :: "'e \<Rightarrow> 'a option \<Rightarrow> 'e + 'a" where
  "or_err e v = (case v of None \<Rightarrow> Inl e | Some x \<Rightarrow> Inr x)"

lemma or_err_simps [simp]: "or_err e None = Inl e" "or_err e (Some x) = Inr x"
  by (simp_all add: or_err_def)

lemma or_err_Inr_iff [simp]: "or_err e v = Inr x \<longleftrightarrow> v = Some x"
  by (cases v) auto

lemma or_err_Inl_iff [simp]: "or_err e v = Inl e' \<longleftrightarrow> v = None \<and> e' = e"
  by (cases v) auto

text \<open>\<open>bail_if c e\<close> is \<open>if c \{ bail!(e) \}\<close>.\<close>

definition bail_if :: "bool \<Rightarrow> 'e \<Rightarrow> 'e + unit" where
  "bail_if c e = (if c then Inl e else Inr ())"

lemma bail_if_simps [simp]: "bail_if True e = Inl e" "bail_if False e = Inr ()"
  by (simp_all add: bail_if_def)

lemma bail_if_Inr_iff [simp]: "bail_if c e = Inr u \<longleftrightarrow> \<not> c"
  by (simp add: bail_if_def)

lemma bail_if_Inl_iff [simp]: "bail_if c e = Inl e' \<longleftrightarrow> c \<and> e' = e"
  by (auto simp: bail_if_def)

text \<open>
  Collecting an iterator of results (\<open>map\<close> followed by \<open>collect::<Result<Vec<_>>>()\<close>):
  the first error is returned and later items are not evaluated.
\<close>

primrec result_map :: "('a \<Rightarrow> 'e + 'b) \<Rightarrow> 'a list \<Rightarrow> 'e + 'b list" where
  "result_map f [] = Inr []"
| "result_map f (x # xs) =
     result_bind (f x) (\<lambda>y. result_bind (result_map f xs) (\<lambda>ys. Inr (y # ys)))"

lemma result_map_Inr_iff: "result_map f xs = Inr ys \<longleftrightarrow> map f xs = map Inr ys"
  by (induction xs arbitrary: ys) (auto simp: result_bind_Inr_iff Cons_eq_map_conv)

text \<open>A panic of the code: an index out of range, an absent key, a failed \<open>unwrap\<close>.\<close>

datatype panic = Panic

definition index_chk :: "'a list \<Rightarrow> nat \<Rightarrow> panic + 'a" where
  "index_chk xs i = (if i < length xs then Inr (xs ! i) else Inl Panic)"

definition slice_chk :: "'a list \<Rightarrow> nat \<Rightarrow> nat \<Rightarrow> panic + 'a list" where
  "slice_chk xs i j =
     (if i \<le> j \<and> j \<le> length xs then Inr (take (j - i) (drop i xs)) else Inl Panic)"

lemma index_chk_Inr [simp]: "i < length xs \<Longrightarrow> index_chk xs i = Inr (xs ! i)"
  by (simp add: index_chk_def)

lemma slice_chk_Inr [simp]:
  "i \<le> j \<Longrightarrow> j \<le> length xs \<Longrightarrow> slice_chk xs i j = Inr (take (j - i) (drop i xs))"
  by (simp add: slice_chk_def)

definition is_err :: "'e + 'a \<Rightarrow> bool" where
  "is_err r \<longleftrightarrow> (case r of Inl e \<Rightarrow> True | Inr x \<Rightarrow> False)"

section \<open>Code that threads a state and may fail\<close>

type_synonym ('s, 'e, 'a) io = "'s \<Rightarrow> 's \<times> ('e + 'a)"

definition io_return :: "'a \<Rightarrow> ('s, 'e, 'a) io" where
  "io_return x s = (s, Inr x)"

definition io_fail :: "'e \<Rightarrow> ('s, 'e, 'a) io" where
  "io_fail e s = (s, Inl e)"

definition io_bind :: "('s, 'e, 'a) io \<Rightarrow> ('a \<Rightarrow> ('s, 'e, 'b) io) \<Rightarrow> ('s, 'e, 'b) io" where
  "io_bind m f s = (case m s of (s', Inl e) \<Rightarrow> (s', Inl e) | (s', Inr x) \<Rightarrow> f x s')"

lemma io_bind_Inr:
  "io_bind m f s = (s2, Inr y) \<longleftrightarrow> (\<exists>s1 x. m s = (s1, Inr x) \<and> f x s1 = (s2, Inr y))"
  by (auto simp: io_bind_def split: prod.splits sum.splits)

lemma io_bind_Inl:
  "io_bind m f s = (s2, Inl e) \<longleftrightarrow>
     m s = (s2, Inl e) \<or> (\<exists>s1 x. m s = (s1, Inr x) \<and> f x s1 = (s2, Inl e))"
  by (auto simp: io_bind_def split: prod.splits sum.splits)

lemma io_bind_eq [simp]: "m s = (s1, Inr x) \<Longrightarrow> io_bind m f s = f x s1"
  by (simp add: io_bind_def)

lemma io_bind_err [simp]: "m s = (s1, Inl e) \<Longrightarrow> io_bind m f s = (s1, Inl e)"
  by (simp add: io_bind_def)

lemma io_return_eq [simp]: "io_return x s = (s', r) \<longleftrightarrow> s' = s \<and> r = Inr x"
  by (auto simp: io_return_def)

lemma io_fail_eq [simp]: "io_fail e s = (s', r) \<longleftrightarrow> s' = s \<and> r = Inl e"
  by (auto simp: io_fail_def)

text \<open>
  \<open>io_finally m c\<close> runs the destructor \<open>c\<close> when \<open>m\<close> is left, by its value or by an error;
  \<open>io_of r\<close> is a result of pure code. \<open>io_post m s Q\<close> states that running \<open>m\<close> from \<open>s\<close> ends in
  a state and a result with \<open>Q\<close>; its rules follow the structure of the code.
\<close>

definition io_finally :: "('s, 'e, 'a) io \<Rightarrow> ('s \<Rightarrow> 's) \<Rightarrow> ('s, 'e, 'a) io" where
  "io_finally m c s = (case m s of (s', r) \<Rightarrow> (c s', r))"

definition io_of :: "'e + 'a \<Rightarrow> ('s, 'e, 'a) io" where
  "io_of r s = (s, r)"

lemma io_bind_of [simp]: "io_bind (io_of (Inr x)) f = f x"
  by (rule ext) (simp add: io_bind_def io_of_def)

definition io_post :: "('s, 'e, 'a) io \<Rightarrow> 's \<Rightarrow> ('s \<Rightarrow> 'e + 'a \<Rightarrow> bool) \<Rightarrow> bool" where
  "io_post m s Q \<longleftrightarrow> (case m s of (s', r) \<Rightarrow> Q s' r)"

lemma io_postD: "io_post m s Q \<Longrightarrow> m s = (s', r) \<Longrightarrow> Q s' r"
  by (simp add: io_post_def)

lemma io_postI: "(\<And>s' r. m s = (s', r) \<Longrightarrow> Q s' r) \<Longrightarrow> io_post m s Q"
  by (auto simp: io_post_def split: prod.splits)

lemma io_post_conseq:
  "io_post m s P \<Longrightarrow> (\<And>s' r. P s' r \<Longrightarrow> Q s' r) \<Longrightarrow> io_post m s Q"
  by (auto simp: io_post_def split: prod.splits)

lemma io_post_bind:
  "io_post m s P \<Longrightarrow> (\<And>s' e. P s' (Inl e) \<Longrightarrow> Q s' (Inl e)) \<Longrightarrow>
   (\<And>s' x. P s' (Inr x) \<Longrightarrow> io_post (f x) s' Q) \<Longrightarrow> io_post (io_bind m f) s Q"
  by (fastforce simp: io_post_def io_bind_def split: prod.splits sum.splits)

lemma io_post_finally:
  "io_post m s (\<lambda>s' r. Q (c s') r) \<Longrightarrow> io_post (io_finally m c) s Q"
  by (auto simp: io_post_def io_finally_def split: prod.splits)

lemma io_post_simps [simp]:
  "io_post (io_return x) s Q \<longleftrightarrow> Q s (Inr x)"
  "io_post (io_fail e) s Q \<longleftrightarrow> Q s (Inl e)"
  "io_post (io_of r) s Q \<longleftrightarrow> Q s r"
  by (simp_all add: io_post_def io_return_def io_fail_def io_of_def)

section \<open>Invariants of stateful components\<close>

text \<open>
  A component is an initial state and a step relation between states; an invariant that
  the initial state has and every step keeps holds in every reachable state. Each component
  interprets this locale on its own operations.
\<close>

inductive reach :: "('s \<Rightarrow> bool) \<Rightarrow> ('s \<Rightarrow> 's \<Rightarrow> bool) \<Rightarrow> 's \<Rightarrow> bool"
  for init :: "'s \<Rightarrow> bool" and step :: "'s \<Rightarrow> 's \<Rightarrow> bool" where
  reach_init: "init s \<Longrightarrow> reach init step s"
| reach_step: "reach init step s \<Longrightarrow> step s t \<Longrightarrow> reach init step t"

locale component =
  fixes init :: "'s \<Rightarrow> bool"
    and step :: "'s \<Rightarrow> 's \<Rightarrow> bool"
    and inv :: "'s \<Rightarrow> bool"
  assumes inv_init: "init s \<Longrightarrow> inv s"
    and inv_step: "inv s \<Longrightarrow> step s t \<Longrightarrow> inv t"
begin

lemma reach_inv: "reach init step s \<Longrightarrow> inv s"
  by (induction rule: reach.induct) (auto intro: inv_init inv_step)

lemma steps_inv: "step\<^sup>*\<^sup>* s t \<Longrightarrow> inv s \<Longrightarrow> inv t"
  by (induction rule: rtranclp_induct) (auto intro: inv_step)

end

lemma reach_rtranclp: "step\<^sup>*\<^sup>* s t \<Longrightarrow> reach init step s \<Longrightarrow> reach init step t"
  by (induction rule: rtranclp_induct) (auto intro: reach_step)

section \<open>Lists\<close>

lemma set_drop_nth: "set (drop k xs) = {xs ! i | i. k \<le> i \<and> i < length xs}"
proof -
  have "xs ! i \<in> set (drop k xs)" if "k \<le> i" "i < length xs" for i
    using that nth_mem [of "i - k" "drop k xs"] by simp
  then show ?thesis
    by (fastforce simp: in_set_conv_nth)
qed

lemma distinct_drop_nth:
  assumes "distinct (drop k xs)" and "k \<le> i" "i < length xs" "k \<le> j" "j < length xs"
    and "xs ! i = xs ! j"
  shows "i = j"
proof -
  from assms have "drop k xs ! (i - k) = drop k xs ! (j - k)" by simp
  with assms have "i - k = j - k"
    by (subst (asm) nth_eq_iff_index_eq) auto
  with assms show ?thesis by simp
qed

section \<open>Maps\<close>

lemma ran_upd_new: "h \<notin> dom m \<Longrightarrow> ran (m(h \<mapsto> q)) = insert q (ran m)"
  by (auto simp: ran_def)

lemma ran_del_inj:
  assumes "inj_on m (dom m)" and "m h = Some q"
  shows "ran (m(h := None)) = ran m - {q}"
proof (intro equalityI subsetI)
  fix x assume "x \<in> ran (m(h := None))"
  then obtain k where k: "k \<noteq> h" "m k = Some x" by (auto simp: ran_def split: if_splits)
  with inj_onD [OF assms(1), of k h] assms(2) show "x \<in> ran m - {q}" by (auto intro: ranI)
next
  fix x assume "x \<in> ran m - {q}"
  then obtain k where "m k = Some x" "x \<noteq> q" by (auto simp: ran_def)
  with assms(2) have "(m(h := None)) k = Some x" by auto
  then show "x \<in> ran (m(h := None))" by (rule ranI)
qed

lemma inj_on_del:
  assumes "inj_on m (dom m)"
  shows "inj_on (m(h := None)) (dom (m(h := None)))"
proof (rule inj_onI)
  fix x y assume eq: "x \<in> dom (m(h := None))" "y \<in> dom (m(h := None))" "(m(h := None)) x = (m(h := None)) y"
  then have "x \<noteq> h" "y \<noteq> h" "x \<in> dom m" "y \<in> dom m" by (auto split: if_splits)
  with eq(3) show "x = y" using inj_onD [OF assms, of x y] by simp
qed

lemma inj_on_upd:
  assumes "inj_on m (dom m)" and "q \<notin> ran m"
  shows "inj_on (m(h \<mapsto> q)) (dom (m(h \<mapsto> q)))"
proof -
  have "m k \<noteq> Some q" for k using assms(2) by (auto simp: ran_def)
  with assms(1) show ?thesis
    by (auto simp: inj_on_def dom_def split: if_splits)
qed

end
