(* ===== verification/Rust_Net.thy ===== *)
theory Rust_Net
  imports Rust_Str "HOL-Library.Monad_Syntax"
begin

text \<open>
  The textual forms of \<open>std::net\<close> that the sources rely on: parsing of \<open>Ipv4Addr\<close>
  and \<open>SocketAddr\<close> (including the bracketed IPv6 form) and \<open>Display\<close> of addresses.
  The readers follow the standard library's recursive-descent parser: each returns the value
  and the unread rest, or \<open>None\<close> without consuming anything.
\<close>

type_synonym ipv6 = "128 word"

datatype ip_addr = V4 ipv4 | V6 ipv6

section \<open>Readers\<close>

primrec span_digits :: "nat \<Rightarrow> string \<Rightarrow> nat list \<times> string" where
  "span_digits radix [] = ([], [])"
| "span_digits radix (c # cs) =
     (case digit_val radix c of
        None \<Rightarrow> ([], c # cs)
      | Some d \<Rightarrow> (let (ds, r) = span_digits radix cs in (d # ds, r)))"

definition digits_value :: "nat \<Rightarrow> nat list \<Rightarrow> nat" where
  "digits_value radix ds = foldl (\<lambda>acc d. acc * radix + d) 0 ds"

definition read_number :: "nat \<Rightarrow> nat option \<Rightarrow> bool \<Rightarrow> nat \<Rightarrow> string \<Rightarrow> (nat \<times> string) option" where
  "read_number radix max_digits allow_zero_prefix mx s =
     (let (ds, r) = span_digits radix s;
          n = digits_value radix ds
      in if ds = [] then None
         else if (case max_digits of None \<Rightarrow> False | Some k \<Rightarrow> k < length ds) then None
         else if \<not> allow_zero_prefix \<and> hd s = CHR ''0'' \<and> 1 < length ds then None
         else if mx < n then None
         else Some (n, r))"

definition read_char :: "char \<Rightarrow> string \<Rightarrow> string option" where
  "read_char c s = (case s of [] \<Rightarrow> None | x # xs \<Rightarrow> if x = c then Some xs else None)"

definition read_separator ::
  "char \<Rightarrow> nat \<Rightarrow> (string \<Rightarrow> ('a \<times> string) option) \<Rightarrow> string \<Rightarrow> ('a \<times> string) option" where
  "read_separator sep i inner s =
     (if 0 < i then Option.bind (read_char sep s) inner else inner s)"

definition read_octet :: "string \<Rightarrow> (nat \<times> string) option" where
  "read_octet = read_number 10 (Some 3) False 255"

definition read_ipv4_addr :: "string \<Rightarrow> (ipv4 \<times> string) option" where
  "read_ipv4_addr s0 = do {
     (a, s1) \<leftarrow> read_separator CHR ''.'' 0 read_octet s0;
     (b, s2) \<leftarrow> read_separator CHR ''.'' 1 read_octet s1;
     (c, s3) \<leftarrow> read_separator CHR ''.'' 2 read_octet s2;
     (d, s4) \<leftarrow> read_separator CHR ''.'' 3 read_octet s3;
     Some (ipv4_new (of_nat a) (of_nat b) (of_nat c) (of_nat d), s4)
   }"

fun read_groups :: "nat \<Rightarrow> nat \<Rightarrow> string \<Rightarrow> nat list \<times> bool \<times> string" where
  \<comment> \<open>the first argument counts the slots left, the second is the index of the next one\<close>
  "read_groups 0 i s = ([], False, s)"
| "read_groups (Suc left) i s =
     (case (if 0 < left then read_separator CHR '':'' i read_ipv4_addr s else None) of
        Some (ip, r) \<Rightarrow> ([unat (drop_bit 16 ip), unat (take_bit 16 ip)], True, r)
      | None \<Rightarrow>
          (case read_separator CHR '':'' i (read_number 16 (Some 4) True 65535) s of
             None \<Rightarrow> ([], False, s)
           | Some (g, r) \<Rightarrow>
               (let (gs, v4, r') = read_groups left (Suc i) r in (g # gs, v4, r'))))"

definition read_ipv6_addr :: "string \<Rightarrow> (nat list \<times> string) option" where
  "read_ipv6_addr s =
     (let (hd_groups, hd_v4, r) = read_groups 8 0 s in
      if length hd_groups = 8 then Some (hd_groups, r)
      else if hd_v4 then None
      else do {
        r1 \<leftarrow> read_char CHR '':'' r;
        r2 \<leftarrow> read_char CHR '':'' r1;
        let (tl_groups, _, r3) = read_groups (8 - (length hd_groups + 1)) 0 r2;
        Some (hd_groups @ replicate (8 - length hd_groups - length tl_groups) 0 @ tl_groups, r3)
      })"

definition read_port :: "string \<Rightarrow> (nat \<times> string) option" where
  "read_port s = Option.bind (read_char CHR '':'' s) (read_number 10 None True 65535)"

definition read_scope_id :: "string \<Rightarrow> (nat \<times> string) option" where
  "read_scope_id s = Option.bind (read_char CHR ''%'' s) (read_number 10 None True (2 ^ 32 - 1))"

definition read_socket_addr_v4 :: "string \<Rightarrow> string option" where
  "read_socket_addr_v4 s = do {
     (ip, r) \<leftarrow> read_ipv4_addr s;
     (port, r') \<leftarrow> read_port r;
     Some r'
   }"

definition read_socket_addr_v6 :: "string \<Rightarrow> string option" where
  "read_socket_addr_v6 s = do {
     r1 \<leftarrow> read_char CHR ''['' s;
     (ip, r2) \<leftarrow> read_ipv6_addr r1;
     let r3 = (case read_scope_id r2 of None \<Rightarrow> r2 | Some (_, r) \<Rightarrow> r);
     r4 \<leftarrow> read_char CHR '']'' r3;
     (port, r5) \<leftarrow> read_port r4;
     Some r5
   }"

text \<open>\<open>str::parse::<Ipv4Addr>()\<close>: the whole input, at most fifteen bytes.\<close>

definition parse_ipv4 :: "string \<Rightarrow> ipv4 option" where
  "parse_ipv4 s =
     (if 15 < length s then None
      else case read_ipv4_addr s of Some (ip, []) \<Rightarrow> Some ip | _ \<Rightarrow> None)"

text \<open>Whether \<open>str::parse::<SocketAddr>()\<close> succeeds; the sources use no more of it.\<close>

definition parses_socket_addr :: "string \<Rightarrow> bool" where
  "parses_socket_addr s \<longleftrightarrow>
     (case read_socket_addr_v4 s of
        Some r \<Rightarrow> r = []
      | None \<Rightarrow> read_socket_addr_v6 s = Some [])"

section \<open>Display\<close>

definition show_ipv4 :: "ipv4 \<Rightarrow> string" where
  "show_ipv4 ip = str_join CHR ''.'' (map (show_nat \<circ> unat) (octets ip))"

definition v6_octets :: "ipv6 \<Rightarrow> bytes" where
  "v6_octets w = map (\<lambda>i. ucast (drop_bit (8 * (15 - i)) w)) [0..<16]"

definition v6_segments :: "ipv6 \<Rightarrow> nat list" where
  "v6_segments w = map (\<lambda>i. unat (ucast (drop_bit (16 * (7 - i)) w) :: u16)) [0..<8]"

definition hex_char :: "nat \<Rightarrow> char" where
  "hex_char d = char_of (if d < 10 then 48 + d else 87 + d)"

fun show_hex :: "nat \<Rightarrow> string" where
  "show_hex n = (if n < 16 then [hex_char n] else show_hex (n div 16) @ [hex_char (n mod 16)])"

declare show_hex.simps [simp del]

text \<open>The longest run of zero segments (the first one on a tie), as start and length.\<close>

fun zero_span :: "nat \<Rightarrow> nat \<times> nat \<Rightarrow> nat \<times> nat \<Rightarrow> nat list \<Rightarrow> nat \<times> nat" where
  "zero_span i current longest [] = longest"
| "zero_span i (cs, cl) (ls, ll) (x # xs) =
     (if x = 0 then
        (let c = (if cl = 0 then i else cs, cl + 1)
         in zero_span (Suc i) c (if ll < snd c then c else (ls, ll)) xs)
      else zero_span (Suc i) (0, 0) (ls, ll) xs)"

definition show_ipv6 :: "ipv6 \<Rightarrow> string" where
  "show_ipv6 w =
     (let segs = v6_segments w; (zs, zl) = zero_span 0 (0, 0) (0, 0) segs in
      if take 6 segs = [0, 0, 0, 0, 0, 65535] then ''::ffff:'' @ show_ipv4 (ucast w)
      else if 1 < zl then
        str_join CHR '':'' (map show_hex (take zs segs)) @ ''::'' @
        str_join CHR '':'' (map show_hex (drop (zs + zl) segs))
      else str_join CHR '':'' (map show_hex segs))"

fun show_ip_addr :: "ip_addr \<Rightarrow> string" where
  "show_ip_addr (V4 a) = show_ipv4 a"
| "show_ip_addr (V6 a) = show_ipv6 a"

section \<open>Printing and parsing agree\<close>

lemma span_digits_dec:
  assumes "\<forall>c \<in> set s. \<exists>d < 10. c = digit_char d"
    and "r = [] \<or> digit_val 10 (hd r) = None"
  shows "span_digits 10 (s @ r) = (map (\<lambda>c. the (digit_val 10 c)) s, r)"
  using assms
proof (induction s)
  case Nil
  then show ?case by (cases r) auto
qed auto

lemma digits_value_snoc: "digits_value r (ds @ [d]) = digits_value r ds * r + d"
  by (simp add: digits_value_def)

lemma digits_value_show_nat:
  "digits_value 10 (map (\<lambda>c. the (digit_val 10 c)) (show_nat n)) = n"
proof (induction n rule: show_nat.induct)
  case (1 n)
  show ?case
  proof (cases "n < 10")
    case True
    then show ?thesis by (subst show_nat.simps) (simp add: digits_value_def)
  next
    case False
    with "1" show ?thesis
      by (subst show_nat.simps) (simp add: digits_value_snoc)
  qed
qed

lemma show_nat_hd_zero: "0 < n \<Longrightarrow> hd (show_nat n) \<noteq> CHR ''0''"
proof (induction n rule: show_nat.induct)
  case (1 n)
  show ?case
  proof (cases "n < 10")
    case True
    have "of_char (digit_char n) = 48 + n"
      using True by (simp add: digit_char_def)
    moreover have "of_char (CHR ''0'') = (48 :: nat)" by simp
    ultimately have "digit_char n \<noteq> CHR ''0''"
      using "1.prems" by (metis add_cancel_left_right less_numeral_extra(3))
    with True show ?thesis by (subst show_nat.simps) simp
  next
    case False
    with "1" have "hd (show_nat (n div 10)) \<noteq> CHR ''0''" by simp
    with False show ?thesis by (subst show_nat.simps) (simp add: hd_append)
  qed
qed

lemma length_show_nat_u8: "n < 256 \<Longrightarrow> length (show_nat n) \<le> 3"
  by (subst show_nat.simps, simp, subst show_nat.simps, simp, subst show_nat.simps, simp)

lemma read_octet_show:
  assumes "n < 256" and "r = [] \<or> digit_val 10 (hd r) = None"
  shows "read_octet (show_nat n @ r) = Some (n, r)"
proof -
  have dec: "\<forall>c \<in> set (show_nat n). \<exists>d < 10. c = digit_char d"
    using show_nat_dec [of n] by (simp add: dec_string_def)
  have zero: "1 < length (show_nat n) \<Longrightarrow> 0 < n"
    by (cases "n = 0") (simp_all add: show_nat.simps [of 0])
  have "hd (show_nat n @ r) = hd (show_nat n)" by simp
  then show ?thesis
    using assms length_show_nat_u8 [OF assms(1)] zero show_nat_hd_zero [of n]
    by (auto simp: read_octet_def read_number_def span_digits_dec [OF dec assms(2)]
        digits_value_show_nat)
qed

lemma digit_val_dot [simp]: "digit_val 10 CHR ''.'' = None"
  by (simp add: digit_val_def)

lemma digit_val_colon [simp]: "digit_val 10 CHR '':'' = None"
  by (simp add: digit_val_def)

lemma read_ipv4_addr_show:
  assumes "r = [] \<or> digit_val 10 (hd r) = None"
  shows "read_ipv4_addr (show_ipv4 ip @ r) = Some (ip, r)"
  using assms
  by (simp add: read_ipv4_addr_def show_ipv4_def be32_def read_separator_def read_char_def
      read_octet_show)

lemma length_show_ipv4: "length (show_ipv4 ip) \<le> 15"
proof -
  have l: "length (show_nat (unat (b :: u8))) \<le> 3" for b
    by (rule length_show_nat_u8) simp
  show ?thesis
    using l [of "ucast (drop_bit 24 ip)"] l [of "ucast (drop_bit 16 ip)"]
      l [of "ucast (drop_bit 8 ip)"] l [of "ucast ip"]
    by (simp add: show_ipv4_def be32_def)
qed

lemma parse_ipv4_show [simp]: "parse_ipv4 (show_ipv4 ip) = Some ip"
  using length_show_ipv4 [of ip] read_ipv4_addr_show [of "[]" ip]
  by (simp add: parse_ipv4_def)

lemma show_ipv4_chars:
  "of_char c < (46 :: nat) \<or> of_char c = (47 :: nat) \<or> 57 < (of_char c :: nat)
   \<Longrightarrow> c \<notin> set (show_ipv4 ip)"
  using show_nat_no_sep [of c] by (auto simp: show_ipv4_def be32_def)

lemma show_ipv4_neq_Nil [simp]: "show_ipv4 ip \<noteq> []"
  by (simp add: show_ipv4_def be32_def)

end
