(* ===== verification/Proxy_Stream.thy ===== *)
theory Proxy_Stream
  imports Proxy_Config
begin

text \<open>
  Streams to the upstream: the network library as a parameter and \<open>ProxyStream\<close> of \<open>src/src/proxy/mod.rs\<close>, which reads first
  the bytes left over by the handshake and then the socket. The socket type \<open>'s\<close> belongs to the
  network library (\<open>tokio\<close>); the code owns each socket, so every call returns the socket in its
  new state. What the code relies on is \<open>stream_spec\<close>, over two logs of a socket: the bytes
  written to it and the bytes taken from it.
\<close>

section \<open>The network library as a parameter\<close>

datatype io_error = WouldBlock | IoError

datatype 'a poll = Pending | Ready 'a

datatype dial =
    DialServer string
  | DialIp ip_addr u16
  | DialHost string u16

text \<open>
  The network of the host. What an attempt to connect yields may depend on the attempts before it:
  the list of all dials so far is passed through the connectors, and \<open>dial_out\<close> is the only way to
  dial, so that no dial goes unrecorded.
\<close>

record 's net_lib =
  tcp_connect :: "dial list \<Rightarrow> dial \<Rightarrow> 's option"
  write_all :: "'s \<Rightarrow> bytes \<Rightarrow> 's \<times> bool"
  read_exact :: "'s \<Rightarrow> nat \<Rightarrow> 's \<times> bytes option"
  sock_try_read :: "'s \<Rightarrow> nat \<Rightarrow> 's \<times> (io_error + bytes)"
  sock_try_write :: "'s \<Rightarrow> bytes \<Rightarrow> 's \<times> (io_error + nat)"
  sock_poll_read :: "'s \<Rightarrow> nat \<Rightarrow> 's \<times> (io_error + bytes) poll"
  sock_read_ready :: "'s \<Rightarrow> (io_error + unit) poll"
  sock_write_ready :: "'s \<Rightarrow> (io_error + unit) poll"

definition dial_out :: "'s net_lib \<Rightarrow> dial \<Rightarrow> dial list \<Rightarrow> dial list \<times> 's option" where
  "dial_out N d dialled = (dialled @ [d], tcp_connect N dialled d)"

definition write_spec :: "'s net_lib \<Rightarrow> ('s \<Rightarrow> bytes) \<Rightarrow> ('s \<Rightarrow> bytes) \<Rightarrow> bool" where
  "write_spec N sent taken \<longleftrightarrow>
     (\<forall>s b s'. write_all N s b = (s', True) \<longrightarrow> sent s' = sent s @ b \<and> taken s' = taken s) \<and>
     (\<forall>s b s'. write_all N s b = (s', False) \<longrightarrow>
        (\<exists>k. sent s' = sent s @ take k b) \<and> taken s' = taken s) \<and>
     (\<forall>s b s' n. sock_try_write N s b = (s', Inr n) \<longrightarrow>
        n \<le> length b \<and> sent s' = sent s @ take n b \<and> taken s' = taken s) \<and>
     (\<forall>s b s' e. sock_try_write N s b = (s', Inl e) \<longrightarrow> sent s' = sent s \<and> taken s' = taken s)"

definition read_spec :: "'s net_lib \<Rightarrow> ('s \<Rightarrow> bytes) \<Rightarrow> ('s \<Rightarrow> bytes) \<Rightarrow> bool" where
  "read_spec N sent taken \<longleftrightarrow>
     (\<forall>s n s' bs. read_exact N s n = (s', Some bs) \<longrightarrow>
        length bs = n \<and> taken s' = taken s @ bs \<and> sent s' = sent s) \<and>
     (\<forall>s n s'. read_exact N s n = (s', None) \<longrightarrow>
        (\<exists>bs. length bs < n \<and> taken s' = taken s @ bs) \<and> sent s' = sent s) \<and>
     (\<forall>s n s' bs. sock_try_read N s n = (s', Inr bs) \<longrightarrow>
        length bs \<le> n \<and> taken s' = taken s @ bs \<and> sent s' = sent s) \<and>
     (\<forall>s n s' e. sock_try_read N s n = (s', Inl e) \<longrightarrow> taken s' = taken s \<and> sent s' = sent s) \<and>
     (\<forall>s n s' bs. sock_poll_read N s n = (s', Ready (Inr bs)) \<longrightarrow>
        length bs \<le> n \<and> taken s' = taken s @ bs \<and> sent s' = sent s) \<and>
     (\<forall>s n s' r. sock_poll_read N s n = (s', r) \<longrightarrow> (\<forall>bs. r \<noteq> Ready (Inr bs)) \<longrightarrow>
        taken s' = taken s \<and> sent s' = sent s)"

definition stream_spec :: "'s net_lib \<Rightarrow> ('s \<Rightarrow> bytes) \<Rightarrow> ('s \<Rightarrow> bytes) \<Rightarrow> bool" where
  "stream_spec N sent taken \<longleftrightarrow> write_spec N sent taken \<and> read_spec N sent taken"

lemma stream_write:
  assumes "stream_spec N sent taken"
  shows "write_all N s b = (s', True) \<Longrightarrow> sent s' = sent s @ b \<and> taken s' = taken s"
    and "write_all N s b = (s', False) \<Longrightarrow> (\<exists>k. sent s' = sent s @ take k b) \<and> taken s' = taken s"
    and "sock_try_write N s b = (s', Inr n) \<Longrightarrow>
      n \<le> length b \<and> sent s' = sent s @ take n b \<and> taken s' = taken s"
    and "sock_try_write N s b = (s', Inl e) \<Longrightarrow> sent s' = sent s \<and> taken s' = taken s"
proof -
  note c = assms [unfolded stream_spec_def, THEN conjunct1, unfolded write_spec_def]
  show "write_all N s b = (s', True) \<Longrightarrow> sent s' = sent s @ b \<and> taken s' = taken s"
    using c [THEN conjunct1] by blast
  show "write_all N s b = (s', False) \<Longrightarrow> (\<exists>k. sent s' = sent s @ take k b) \<and> taken s' = taken s"
    using c [THEN conjunct2, THEN conjunct1] by blast
  show "sock_try_write N s b = (s', Inr n) \<Longrightarrow>
      n \<le> length b \<and> sent s' = sent s @ take n b \<and> taken s' = taken s"
    using c [THEN conjunct2, THEN conjunct2, THEN conjunct1] by blast
  show "sock_try_write N s b = (s', Inl e) \<Longrightarrow> sent s' = sent s \<and> taken s' = taken s"
    using c [THEN conjunct2, THEN conjunct2, THEN conjunct2] by blast
qed

lemma stream_read:
  assumes "stream_spec N sent taken"
  shows "read_exact N s n = (s', Some bs) \<Longrightarrow> length bs = n \<and> taken s' = taken s @ bs \<and> sent s' = sent s"
    and "read_exact N s n = (s', None) \<Longrightarrow>
      (\<exists>bs. length bs < n \<and> taken s' = taken s @ bs) \<and> sent s' = sent s"
    and "sock_try_read N s n = (s', Inr bs) \<Longrightarrow> length bs \<le> n \<and> taken s' = taken s @ bs \<and> sent s' = sent s"
    and "sock_try_read N s n = (s', Inl e) \<Longrightarrow> taken s' = taken s \<and> sent s' = sent s"
    and "sock_poll_read N s n = (s', Ready (Inr bs)) \<Longrightarrow>
      length bs \<le> n \<and> taken s' = taken s @ bs \<and> sent s' = sent s"
    and "sock_poll_read N s n = (s', r) \<Longrightarrow> \<forall>bs. r \<noteq> Ready (Inr bs) \<Longrightarrow>
      taken s' = taken s \<and> sent s' = sent s"
proof -
  note c = assms [unfolded stream_spec_def, THEN conjunct2, unfolded read_spec_def]
  note c2 = c [THEN conjunct2]
  note c3 = c2 [THEN conjunct2]
  note c4 = c3 [THEN conjunct2]
  note c5 = c4 [THEN conjunct2]
  show "read_exact N s n = (s', Some bs) \<Longrightarrow> length bs = n \<and> taken s' = taken s @ bs \<and> sent s' = sent s"
    using c [THEN conjunct1] by blast
  show "read_exact N s n = (s', None) \<Longrightarrow>
      (\<exists>bs. length bs < n \<and> taken s' = taken s @ bs) \<and> sent s' = sent s"
    using c2 [THEN conjunct1] by blast
  show "sock_try_read N s n = (s', Inr bs) \<Longrightarrow> length bs \<le> n \<and> taken s' = taken s @ bs \<and> sent s' = sent s"
    using c3 [THEN conjunct1] by blast
  show "sock_try_read N s n = (s', Inl e) \<Longrightarrow> taken s' = taken s \<and> sent s' = sent s"
    using c4 [THEN conjunct1] by blast
  show "sock_poll_read N s n = (s', Ready (Inr bs)) \<Longrightarrow>
      length bs \<le> n \<and> taken s' = taken s @ bs \<and> sent s' = sent s"
    using c5 [THEN conjunct1] by blast
  show "sock_poll_read N s n = (s', r) \<Longrightarrow> \<forall>bs. r \<noteq> Ready (Inr bs) \<Longrightarrow>
      taken s' = taken s \<and> sent s' = sent s"
    using c5 [THEN conjunct2] by blast
qed

text \<open>
  A connection that does not fail, whose peer sends the bytes \<open>pending\<close>: writes succeed, and a
  read of no more than is pending returns the next bytes.
\<close>

definition live_spec :: "'s net_lib \<Rightarrow> ('s \<Rightarrow> bytes) \<Rightarrow> bool" where
  "live_spec N pending \<longleftrightarrow>
     (\<forall>s b. \<exists>s'. write_all N s b = (s', True) \<and> pending s' = pending s) \<and>
     (\<forall>s n. n \<le> length (pending s) \<longrightarrow>
        (\<exists>s'. read_exact N s n = (s', Some (take n (pending s))) \<and> pending s' = drop n (pending s)))"

lemma live_write:
  assumes "live_spec N pending"
  obtains s' where "write_all N s b = (s', True)" "pending s' = pending s"
  using assms unfolding live_spec_def by blast

lemma live_read:
  assumes "live_spec N pending" and "pending s = bs @ rest" and "length bs = n"
  obtains s' where "read_exact N s n = (s', Some bs)" "pending s' = rest"
proof -
  have "n \<le> length (pending s)" using assms(2,3) by simp
  with assms(1) obtain s' where "read_exact N s n = (s', Some (take n (pending s)))"
    "pending s' = drop n (pending s)"
    unfolding live_spec_def by blast
  with assms(2,3) that show thesis by simp
qed

section \<open>Handshake code: writing and reading\<close>

definition io_write :: "'s net_lib \<Rightarrow> 'e \<Rightarrow> bytes \<Rightarrow> ('s, 'e, unit) io" where
  "io_write N e b s = (case write_all N s b of (s', ok) \<Rightarrow> (s', if ok then Inr () else Inl e))"

definition io_read :: "'s net_lib \<Rightarrow> 'e \<Rightarrow> nat \<Rightarrow> ('s, 'e, bytes) io" where
  "io_read N e n s = (case read_exact N s n of (s', r) \<Rightarrow> (s', or_err e r))"

lemma io_write_Inr [simp]: "io_write N e b s = (s', Inr u) \<longleftrightarrow> write_all N s b = (s', True)"
  by (auto simp: io_write_def split: prod.splits)

lemma io_write_Inl [simp]: "io_write N e b s = (s', Inl e') \<longleftrightarrow> write_all N s b = (s', False) \<and> e' = e"
  by (auto simp: io_write_def split: prod.splits)

lemma io_read_Inr [simp]: "io_read N e n s = (s', Inr bs) \<longleftrightarrow> read_exact N s n = (s', Some bs)"
  by (auto simp: io_read_def split: prod.splits)

lemma io_read_Inl [simp]: "io_read N e n s = (s', Inl e') \<longleftrightarrow> read_exact N s n = (s', None) \<and> e' = e"
  by (auto simp: io_read_def split: prod.splits)

section \<open>ProxyStream\<close>

record 's proxy_stream =
  inner :: 's
  buffered :: bytes
  position :: nat

definition proxy_stream_new :: "'s \<Rightarrow> bytes \<Rightarrow> 's proxy_stream" where
  "proxy_stream_new s bs = \<lparr>inner = s, buffered = bs, position = 0\<rparr>"

definition has_buffered_data :: "'s proxy_stream \<Rightarrow> bool" where
  "has_buffered_data self \<longleftrightarrow> position self < length (buffered self)"

text \<open>\<open>Cursor::read\<close> into a buffer of \<open>n\<close> bytes.\<close>

definition cursor_read :: "'s proxy_stream \<Rightarrow> nat \<Rightarrow> 's proxy_stream \<times> bytes" where
  "cursor_read self n =
     (let bs = take n (drop (position self) (buffered self))
      in (self\<lparr>position := position self + length bs\<rparr>, bs))"

definition try_read :: "'s net_lib \<Rightarrow> 's proxy_stream \<Rightarrow> nat \<Rightarrow> 's proxy_stream \<times> (io_error + bytes)" where
  "try_read N self n =
     (if has_buffered_data self then (case cursor_read self n of (self, bs) \<Rightarrow> (self, Inr bs))
      else (case sock_try_read N (inner self) n of (s, r) \<Rightarrow> (self\<lparr>inner := s\<rparr>, r)))"

definition poll_read_ready :: "'s net_lib \<Rightarrow> 's proxy_stream \<Rightarrow> (io_error + unit) poll" where
  "poll_read_ready N self =
     (if has_buffered_data self then Ready (Inr ()) else sock_read_ready N (inner self))"

definition poll_read ::
  "'s net_lib \<Rightarrow> 's proxy_stream \<Rightarrow> nat \<Rightarrow> 's proxy_stream \<times> (io_error + bytes) poll" where
  "poll_read N self n =
     (if has_buffered_data self then (case cursor_read self n of (self, bs) \<Rightarrow> (self, Ready (Inr bs)))
      else (case sock_poll_read N (inner self) n of (s, r) \<Rightarrow> (self\<lparr>inner := s\<rparr>, r)))"

text \<open>
  The writing side hands each call to the socket; the socket's own operation is an argument.
\<close>

definition poll_write ::
  "('s \<Rightarrow> bytes \<Rightarrow> 's \<times> (io_error + nat) poll) \<Rightarrow> 's proxy_stream \<Rightarrow> bytes \<Rightarrow> 's proxy_stream \<times> (io_error + nat) poll" where
  "poll_write sock_poll_write self buf =
     (case sock_poll_write (inner self) buf of (s, r) \<Rightarrow> (self\<lparr>inner := s\<rparr>, r))"

definition poll_flush ::
  "('s \<Rightarrow> 's \<times> (io_error + unit) poll) \<Rightarrow> 's proxy_stream \<Rightarrow> 's proxy_stream \<times> (io_error + unit) poll" where
  "poll_flush sock_poll_flush self = (case sock_poll_flush (inner self) of (s, r) \<Rightarrow> (self\<lparr>inner := s\<rparr>, r))"

definition poll_shutdown ::
  "('s \<Rightarrow> 's \<times> (io_error + unit) poll) \<Rightarrow> 's proxy_stream \<Rightarrow> 's proxy_stream \<times> (io_error + unit) poll" where
  "poll_shutdown sock_poll_shutdown self =
     (case sock_poll_shutdown (inner self) of (s, r) \<Rightarrow> (self\<lparr>inner := s\<rparr>, r))"

text \<open>The bytes of the handshake's buffer that were not read yet.\<close>

definition unread :: "'s proxy_stream \<Rightarrow> bytes" where
  "unread self = drop (position self) (buffered self)"

lemma unread_new [simp]: "unread (proxy_stream_new s bs) = bs" "inner (proxy_stream_new s bs) = s"
  by (simp_all add: unread_def proxy_stream_new_def)

lemma has_buffered_iff: "has_buffered_data self \<longleftrightarrow> unread self \<noteq> []"
  by (simp add: has_buffered_data_def unread_def not_le)

text \<open>Writing, flushing and shutting down leave the buffered bytes to be read.\<close>

lemma writing_keeps_unread:
  "unread (fst (poll_write f self buf)) = unread self" "unread (fst (poll_flush g self)) = unread self"
  "unread (fst (poll_shutdown g self)) = unread self"
  by (simp_all add: poll_write_def poll_flush_def poll_shutdown_def unread_def split: prod.split)

lemma cursor_read_eq:
  "cursor_read self n = (self', bs) \<Longrightarrow>
     bs @ unread self' = unread self \<and> length bs \<le> n \<and> inner self' = inner self"
  using append_take_drop_id [of n "drop (position self) (buffered self)"]
  by (auto simp: cursor_read_def unread_def Let_def min_def add.commute)

text \<open>
  One read keeps the order: what it returns followed by what is still buffered is what was
  buffered followed by what was newly taken from the socket.
\<close>

definition read_step :: "('s \<Rightarrow> bytes) \<Rightarrow> 's proxy_stream \<Rightarrow> 's proxy_stream \<Rightarrow> bytes \<Rightarrow> bool" where
  "read_step taken self self' bs \<longleftrightarrow>
     (\<exists>got. taken (inner self') = taken (inner self) @ got \<and> bs @ unread self' = unread self @ got \<and>
        (got \<noteq> [] \<or> unread self = [] \<longrightarrow> unread self' = []))"

lemma try_read_step:
  assumes "stream_spec N sent taken" and "try_read N self n = (self', r)"
  shows "case r of Inl e \<Rightarrow> read_step taken self self' [] | Inr bs \<Rightarrow> read_step taken self self' bs \<and> length bs \<le> n"
    and "sent (inner self') = sent (inner self)"
proof -
  have "(case r of Inl e \<Rightarrow> read_step taken self self' []
      | Inr bs \<Rightarrow> read_step taken self self' bs \<and> length bs \<le> n) \<and> sent (inner self') = sent (inner self)"
  proof (cases "has_buffered_data self")
    case True
    obtain self1 bs where c: "cursor_read self n = (self1, bs)" by fastforce
    from cursor_read_eq [OF c] assms(2) c True show ?thesis
      by (auto simp: try_read_def read_step_def)
  next
    case False
    obtain s r' where t: "sock_try_read N (inner self) n = (s, r')" by fastforce
    with False assms(2) have eq: "self' = self\<lparr>inner := s\<rparr>" "r = r'"
      by (auto simp: try_read_def)
    have "unread self = []" "unread self' = []"
      using False by (simp_all add: has_buffered_iff eq unread_def)
    with t stream_read(3,4) [OF assms(1)] show ?thesis
      by (cases r') (auto simp: eq read_step_def)
  qed
  then show "case r of Inl e \<Rightarrow> read_step taken self self' []
      | Inr bs \<Rightarrow> read_step taken self self' bs \<and> length bs \<le> n"
    and "sent (inner self') = sent (inner self)" by auto
qed

lemma poll_read_step:
  assumes "stream_spec N sent taken" and "poll_read N self n = (self', r)"
  shows "case r of Ready (Inr bs) \<Rightarrow> read_step taken self self' bs \<and> length bs \<le> n
    | _ \<Rightarrow> read_step taken self self' []"
proof (cases "has_buffered_data self")
  case True
  obtain self1 bs where c: "cursor_read self n = (self1, bs)" by fastforce
  from cursor_read_eq [OF c] assms(2) c True show ?thesis
    by (auto simp: poll_read_def read_step_def)
next
  case False
  obtain s r' where t: "sock_poll_read N (inner self) n = (s, r')" by fastforce
  with False assms(2) have eq: "self' = self\<lparr>inner := s\<rparr>" "r = r'"
    by (auto simp: poll_read_def)
  have "unread self = []" "unread self' = []"
    using False by (simp_all add: has_buffered_iff eq unread_def)
  with t stream_read(5,6) [OF assms(1)] show ?thesis
    by (cases r') (auto simp: eq read_step_def split: sum.splits)
qed

text \<open>A consumer that mixes the two ways to read, and the bytes it has got.\<close>

datatype read_call = TryRead nat | PollRead nat

fun do_read_call :: "'s net_lib \<Rightarrow> 's proxy_stream \<Rightarrow> read_call \<Rightarrow> 's proxy_stream \<times> bytes" where
  "do_read_call N self (TryRead n) =
     (case try_read N self n of (self, r) \<Rightarrow> (self, case r of Inr bs \<Rightarrow> bs | _ \<Rightarrow> []))"
| "do_read_call N self (PollRead n) =
     (case poll_read N self n of (self, r) \<Rightarrow> (self, case r of Ready (Inr bs) \<Rightarrow> bs | _ \<Rightarrow> []))"

primrec read_calls :: "'s net_lib \<Rightarrow> 's proxy_stream \<Rightarrow> read_call list \<Rightarrow> 's proxy_stream \<times> bytes" where
  "read_calls N self [] = (self, [])"
| "read_calls N self (c # cs) =
     (case do_read_call N self c of (self, bs) \<Rightarrow>
        (case read_calls N self cs of (self, bs') \<Rightarrow> (self, bs @ bs')))"

lemma read_call_step:
  "stream_spec N sent taken \<Longrightarrow> do_read_call N self c = (self', bs) \<Longrightarrow> read_step taken self self' bs"
  by (cases c) (auto split: prod.splits sum.splits poll.splits dest: try_read_step(1) poll_read_step)

lemma read_step_refl: "read_step taken self self []"
  by (simp add: read_step_def)

lemma read_step_trans:
  assumes "read_step taken s1 s2 bs" and "read_step taken s2 s3 cs"
  shows "read_step taken s1 s3 (bs @ cs)"
proof -
  from assms obtain g h where g: "taken (inner s2) = taken (inner s1) @ g" "bs @ unread s2 = unread s1 @ g"
      "g \<noteq> [] \<or> unread s1 = [] \<longrightarrow> unread s2 = []"
    and h: "taken (inner s3) = taken (inner s2) @ h" "cs @ unread s3 = unread s2 @ h"
      "h \<noteq> [] \<or> unread s2 = [] \<longrightarrow> unread s3 = []"
    unfolding read_step_def by blast
  have "(bs @ cs) @ unread s3 = (unread s1 @ g) @ h"
    by (simp add: h(2) g(2) [symmetric])
  with g(1,3) h(1,3) show ?thesis
    by (auto simp: read_step_def)
qed

lemma read_calls_step:
  "stream_spec N sent taken \<Longrightarrow> read_calls N self cs = (self', out) \<Longrightarrow> read_step taken self self' out"
proof (induction cs arbitrary: self out)
  case (Cons c cs)
  obtain self1 b1 b2 where "do_read_call N self c = (self1, b1)" "read_calls N self1 cs = (self', b2)"
    "out = b1 @ b2"
    using Cons.prems(2) by (auto split: prod.splits)
  with read_step_trans [OF read_call_step [OF Cons.prems(1)] Cons.IH [OF Cons.prems(1)]] show ?case
    by blast
qed (simp add: read_step_refl)

section \<open>A scripted socket\<close>

text \<open>
  A socket whose peer has already sent all its bytes: used by the witnesses, to show that the
  hypotheses about the network library can hold together.
\<close>

record script =
  script_in :: bytes
  script_sent :: bytes
  script_taken :: bytes

definition script_take :: "script \<Rightarrow> nat \<Rightarrow> script" where
  "script_take s n =
     s\<lparr>script_in := drop n (script_in s), script_taken := script_taken s @ take n (script_in s)\<rparr>"

definition script_write :: "script \<Rightarrow> bytes \<Rightarrow> script" where
  "script_write s b = s\<lparr>script_sent := script_sent s @ b\<rparr>"

definition script_lib :: "bytes \<Rightarrow> script net_lib" where
  "script_lib input = \<lparr>
     tcp_connect = (\<lambda>_ d. Some \<lparr>script_in = input, script_sent = [], script_taken = []\<rparr>),
     write_all = (\<lambda>s b. (script_write s b, True)),
     read_exact = (\<lambda>s n. if n \<le> length (script_in s) then (script_take s n, Some (take n (script_in s)))
                         else (script_take s (length (script_in s)), None)),
     sock_try_read = (\<lambda>s n. (script_take s n, Inr (take n (script_in s)))),
     sock_try_write = (\<lambda>s b. (script_write s b, Inr (length b))),
     sock_poll_read = (\<lambda>s n. (script_take s n, Ready (Inr (take n (script_in s))))),
     sock_read_ready = (\<lambda>s. Ready (Inr ())),
     sock_write_ready = (\<lambda>s. Ready (Inr ()))\<rparr>"

lemma script_fields [simp]:
  "script_in (script_take s n) = drop n (script_in s)"
  "script_taken (script_take s n) = script_taken s @ take n (script_in s)"
  "script_sent (script_take s n) = script_sent s"
  "script_in (script_write s b) = script_in s"
  "script_taken (script_write s b) = script_taken s"
  "script_sent (script_write s b) = script_sent s @ b"
  by (simp_all add: script_take_def script_write_def)

lemma script_lib_spec: "stream_spec (script_lib input) script_sent script_taken"
proof -
  have "write_spec (script_lib input) script_sent script_taken"
    by (simp add: write_spec_def script_lib_def)
  moreover have "read_spec (script_lib input) script_sent script_taken"
    by (auto simp: read_spec_def script_lib_def split: if_splits)
  ultimately show ?thesis by (simp add: stream_spec_def)
qed

lemma script_lib_live: "live_spec (script_lib input) script_in"
  by (simp add: live_spec_def script_lib_def)

section \<open>Properties\<close>

text \<open>
  Tunnel bytes are delivered in order and exactly once: whatever sequence of reads of either
  kind and of any sizes is made, the bytes returned so far, followed by the rest of the
  handshake's buffer, are the bytes that buffer held at first, followed by the bytes taken
  from the socket since. Bytes of the socket are taken only after the buffer is used up.
\<close>

lemma proxy_stream_in_order:
  assumes "stream_spec N sent taken" and "read_calls N (proxy_stream_new s bs) cs = (self', out)"
  shows "\<exists>got. taken (inner self') = taken s @ got \<and> out @ unread self' = bs @ got \<and>
    (unread self' \<noteq> [] \<longrightarrow> got = [])"
proof -
  from read_calls_step [OF assms] show ?thesis
    by (auto simp: read_step_def)
qed

end
