(* ===== verification/Stack.thy ===== *)
theory Stack
  imports Prelude
begin

text \<open>
  The user-space network stack (\<open>smoltcp\<close>) as a parameter of the event loop: TCP and UDP sockets
  with the calls the code makes on them, and the socket set, a map from handles to sockets in
  which a lookup of an absent handle or of a socket of the other kind panics. The handle of a
  new socket is chosen by the stack; the code relies on it being unused.
\<close>

section \<open>Sockets\<close>

type_synonym handle = nat

datatype tcp_state =
    TClosed | TListen | TSynSent | TSynReceived | TEstablished | TFinWait1 | TFinWait2 | TCloseWait
  | TClosing | TLastAck | TTimeWait

record ('t, 'i) tcp_lib =
  tcp_socket_new :: "nat \<Rightarrow> nat \<Rightarrow> 't"
  set_nagle_enabled :: "'t \<Rightarrow> bool \<Rightarrow> 't"
  t_listen :: "'t \<Rightarrow> ipv4 option \<Rightarrow> u16 \<Rightarrow> 't option"
  t_connect :: "'i \<Rightarrow> 't \<Rightarrow> ipv4 \<times> u16 \<Rightarrow> ipv4 \<times> u16 \<Rightarrow> ('i \<times> 't) option"
  t_state :: "'t \<Rightarrow> tcp_state"
  t_local :: "'t \<Rightarrow> (ipv4 \<times> u16) option"
  t_abort :: "'t \<Rightarrow> 't"
  t_may_recv :: "'t \<Rightarrow> bool"
  t_can_recv :: "'t \<Rightarrow> bool"
  t_may_send :: "'t \<Rightarrow> bool"
  t_can_send :: "'t \<Rightarrow> bool"
  t_send_queue :: "'t \<Rightarrow> nat"
  t_recv_queue :: "'t \<Rightarrow> nat"
  t_peek :: "'t \<Rightarrow> bytes option"
  t_dequeue :: "'t \<Rightarrow> nat \<Rightarrow> 't"
  t_send_slice :: "'t \<Rightarrow> bytes \<Rightarrow> ('t \<times> nat) option"

text \<open>
  \<open>Socket::recv(f)\<close>: the closure gets the contiguous front of the receive buffer and returns how
  many bytes to remove and a result; receiving on a socket that cannot is an error.
\<close>

definition t_recv :: "('t, 'i) tcp_lib \<Rightarrow> 't \<Rightarrow> 'x \<Rightarrow> ('x \<Rightarrow> bytes \<Rightarrow> 'x \<times> nat \<times> 'r) \<Rightarrow> 't \<times> 'x \<times> 'r option" where
  "t_recv T sock x f =
     (case t_peek T sock of
        None \<Rightarrow> (sock, x, None)
      | Some data \<Rightarrow> (case f x data of (x, n, r) \<Rightarrow> (t_dequeue T sock n, x, Some r)))"

text \<open>\<open>new_tcp_socket\<close> of \<open>src/src/event_loop.rs\<close>, with the constants it shares with its clients.\<close>

definition TCP_BUF_SIZE :: nat where "TCP_BUF_SIZE = 65536"

text \<open>
  Instants and durations are numbers of nanoseconds. \<open>Instant::elapsed\<close> saturates at zero. The
  clock is read anew for every socket an operation serves: an operation gets the readings as a
  function of the handle.
\<close>

type_synonym instant = nat

type_synonym clock = "handle \<Rightarrow> instant"

definition elapsed :: "instant \<Rightarrow> instant \<Rightarrow> nat" where
  "elapsed now created_at = now - created_at"

definition TCP_HANDSHAKE_TIMEOUT :: nat where "TCP_HANDSHAKE_TIMEOUT = from_secs 32"

definition new_tcp_socket :: "('t, 'i) tcp_lib \<Rightarrow> 't" where
  "new_tcp_socket T = set_nagle_enabled T (tcp_socket_new T TCP_BUF_SIZE TCP_BUF_SIZE) False"

record ('u, 'm) udp_lib =
  udp_socket_new :: "nat \<Rightarrow> nat \<Rightarrow> 'u"
  u_bind :: "'u \<Rightarrow> ipv4 \<Rightarrow> u16 \<Rightarrow> 'u option"
  u_can_recv :: "'u \<Rightarrow> bool"
  u_can_send :: "'u \<Rightarrow> bool"
  u_recv_slice :: "'u \<Rightarrow> nat \<Rightarrow> 'u \<times> (bytes \<times> 'm) option"
  u_send_slice :: "'u \<Rightarrow> bytes \<Rightarrow> 'm \<Rightarrow> 'u"

section \<open>The socket set\<close>

datatype ('t, 'u) socket = Tcp 't | Udp 'u

type_synonym ('t, 'u) socket_set = "handle \<rightharpoonup> ('t, 'u) socket"

text \<open>\<open>alloc\<close> is the choice of the handle of a new socket.\<close>

type_synonym ('t, 'u) alloc = "('t, 'u) socket_set \<Rightarrow> handle"

definition alloc_spec :: "('t, 'u) alloc \<Rightarrow> bool" where
  "alloc_spec alloc \<longleftrightarrow> (\<forall>ss. finite (dom ss) \<longrightarrow> alloc ss \<notin> dom ss)"

definition ss_add :: "('t, 'u) alloc \<Rightarrow> ('t, 'u) socket_set \<Rightarrow> ('t, 'u) socket \<Rightarrow> ('t, 'u) socket_set \<times> handle" where
  "ss_add alloc ss s = (ss(alloc ss \<mapsto> s), alloc ss)"

definition get_tcp :: "('t, 'u) socket_set \<Rightarrow> handle \<Rightarrow> panic + 't" where
  "get_tcp ss h = (case ss h of Some (Tcp t) \<Rightarrow> Inr t | _ \<Rightarrow> Inl Panic)"

definition get_udp :: "('t, 'u) socket_set \<Rightarrow> handle \<Rightarrow> panic + 'u" where
  "get_udp ss h = (case ss h of Some (Udp u) \<Rightarrow> Inr u | _ \<Rightarrow> Inl Panic)"

definition ss_remove :: "('t, 'u) socket_set \<Rightarrow> handle \<Rightarrow> panic + ('t, 'u) socket_set" where
  "ss_remove ss h = (if ss h = None then Inl Panic else Inr (ss(h := None)))"

text \<open>The handles of TCP and UDP sockets.\<close>

definition tcp_handles :: "('t, 'u) socket_set \<Rightarrow> handle set" where
  "tcp_handles ss = {h. \<exists>t. ss h = Some (Tcp t)}"

definition udp_handles :: "('t, 'u) socket_set \<Rightarrow> handle set" where
  "udp_handles ss = {h. \<exists>u. ss h = Some (Udp u)}"

text \<open>How a pending handshake can stand: completed, refused, overdue, or still to wait for.\<close>

lemma handshake_cases:
  obtains (up) "t_state T t \<in> {TEstablished, TCloseWait}" | (closed) "t_state T t \<in> {TClosed, TTimeWait}"
    | (timeout) "t_state T t \<notin> {TEstablished, TCloseWait, TClosed, TTimeWait}" "TCP_HANDSHAKE_TIMEOUT \<le> elapsed now c"
    | (wait) "t_state T t \<notin> {TEstablished, TCloseWait, TClosed, TTimeWait}" "elapsed now c < TCP_HANDSHAKE_TIMEOUT"
  by fastforce

lemma get_tcp_Inr: "get_tcp ss h = Inr t \<longleftrightarrow> ss h = Some (Tcp t)"
  by (auto simp: get_tcp_def split: option.splits socket.splits)

lemma get_udp_Inr: "get_udp ss h = Inr u \<longleftrightarrow> ss h = Some (Udp u)"
  by (auto simp: get_udp_def split: option.splits socket.splits)

lemma handles_dom: "tcp_handles ss \<subseteq> dom ss" "udp_handles ss \<subseteq> dom ss"
  by (auto simp: tcp_handles_def udp_handles_def)

lemma handles_upd [simp]:
  "tcp_handles (ss(h \<mapsto> Tcp t)) = insert h (tcp_handles ss)"
  "udp_handles (ss(h \<mapsto> Tcp t)) = udp_handles ss - {h}"
  "udp_handles (ss(h \<mapsto> Udp u)) = insert h (udp_handles ss)"
  "tcp_handles (ss(h \<mapsto> Udp u)) = tcp_handles ss - {h}"
  "tcp_handles (ss(h := None)) = tcp_handles ss - {h}"
  "udp_handles (ss(h := None)) = udp_handles ss - {h}"
  by (auto simp: tcp_handles_def udp_handles_def)

section \<open>Owners of sockets\<close>

text \<open>
  The components of the event loop share one socket set; each owns some of its handles. An
  operation of one owner, whose handles change from \<open>A\<close> to \<open>A'\<close>, leaves everything else in place.
\<close>

definition keeps_others ::
  "handle set \<Rightarrow> ('t, 'u) socket_set \<Rightarrow> handle set \<Rightarrow> ('t, 'u) socket_set \<Rightarrow> bool" where
  "keeps_others A ss A' ss' \<longleftrightarrow>
     (\<forall>h \<in> dom ss - A. ss' h = ss h) \<and> dom ss' - A' = dom ss - A \<and> (finite (dom ss) \<longrightarrow> finite (dom ss'))"

lemma keeps_others_refl [simp]: "keeps_others A ss A ss"
  by (simp add: keeps_others_def)

lemma keeps_others_trans:
  "keeps_others A ss A' ss' \<Longrightarrow> keeps_others A' ss' A'' ss'' \<Longrightarrow> keeps_others A ss A'' ss''"
  unfolding keeps_others_def by auto

definition same_kind :: "('t, 'u) socket option \<Rightarrow> ('t, 'u) socket option \<Rightarrow> bool" where
  "same_kind a b \<longleftrightarrow>
     (case (a, b) of
        (None, None) \<Rightarrow> True
      | (Some (Tcp _), Some (Tcp _)) \<Rightarrow> True
      | (Some (Udp _), Some (Udp _)) \<Rightarrow> True
      | _ \<Rightarrow> False)"

lemma same_kind_refl [simp]: "same_kind a a"
  by (auto simp: same_kind_def split: option.splits socket.splits)

lemma same_kind_tcp: "same_kind (ss h) (ss' h) \<Longrightarrow> h \<in> tcp_handles ss' \<longleftrightarrow> h \<in> tcp_handles ss"
  and same_kind_udp: "same_kind (ss h) (ss' h) \<Longrightarrow> h \<in> udp_handles ss' \<longleftrightarrow> h \<in> udp_handles ss"
  and same_kind_dom: "same_kind (ss h) (ss' h) \<Longrightarrow> h \<in> dom ss' \<longleftrightarrow> h \<in> dom ss"
  by (auto simp: same_kind_def tcp_handles_def udp_handles_def split: option.splits socket.splits)

locale socket_owner =
  fixes inv :: "'c \<Rightarrow> ('t, 'u) socket_set \<Rightarrow> bool"
    and handles :: "'c \<Rightarrow> handle set"
    and same :: "('t, 'u) socket option \<Rightarrow> ('t, 'u) socket option \<Rightarrow> bool"
  assumes handles_live: "inv c ss \<Longrightarrow> handles c \<subseteq> dom ss"
    and same_refl: "same a a"
    and inv_local: "inv c ss \<Longrightarrow> (\<And>h. h \<in> handles c \<Longrightarrow> same (ss h) (ss' h)) \<Longrightarrow> inv c ss'"
begin

text \<open>An owner is not disturbed by the operations of another one.\<close>

lemma others_keep:
  assumes "inv c ss" and "keeps_others A ss A' ss'" and "handles c \<inter> A = {}"
  shows "inv c ss' \<and> handles c \<inter> A' = {}"
proof -
  have h: "h \<in> dom ss - A" if "h \<in> handles c" for h
    using handles_live [OF assms(1)] assms(3) that by blast
  have "same (ss h) (ss' h)" if "h \<in> handles c" for h
    using h [OF that] assms(2) same_refl by (simp add: keeps_others_def)
  then have "inv c ss'" by (rule inv_local [OF assms(1)])
  moreover have "handles c \<inter> A' = {}"
    using h assms(2) unfolding keeps_others_def by blast
  ultimately show ?thesis ..
qed

lemma same_keep: "inv c ss \<Longrightarrow> (\<And>h. same (ss h) (ss' h)) \<Longrightarrow> inv c ss'"
  by (rule inv_local)

end

section \<open>Iteration over hash maps\<close>

text \<open>
  The order in which a hash map is iterated is arbitrary: an operation that iterates gets the
  order as an argument, of which only this is known.
\<close>

type_synonym order = "handle set \<Rightarrow> handle list"

definition order_spec :: "order \<Rightarrow> bool" where
  "order_spec ord \<longleftrightarrow> (\<forall>S. finite S \<longrightarrow> set (ord S) = S \<and> distinct (ord S))"

lemma order_specD: "order_spec ord \<Longrightarrow> finite S \<Longrightarrow> set (ord S) = S \<and> distinct (ord S)"
  by (simp add: order_spec_def)

text \<open>A loop over handles in which every step may panic.\<close>

primrec fold_handles :: "('h \<Rightarrow> 'a \<Rightarrow> panic + 'a) \<Rightarrow> 'h list \<Rightarrow> 'a \<Rightarrow> panic + 'a" where
  "fold_handles f [] s = Inr s"
| "fold_handles f (h # hs) s = result_bind (f h s) (fold_handles f hs)"

text \<open>The rule for such loops: an invariant kept by every step holds at the end, and nothing panics.\<close>

lemma fold_handles_inv:
  assumes "I s" and "\<And>h s. h \<in> set hs \<Longrightarrow> I s \<Longrightarrow> \<exists>s'. f h s = Inr s' \<and> I s'"
  shows "\<exists>s'. fold_handles f hs s = Inr s' \<and> I s'"
  using assms
proof (induction hs arbitrary: s)
  case (Cons h hs)
  from Cons.prems obtain s1 where "f h s = Inr s1" "I s1" by fastforce
  with Cons show ?case by simp
qed simp

text \<open>
  When a step for a handle changes only what is seen of that handle (\<open>view\<close>), the loop does to
  every handle of its list what one step does, and nothing to the others.
\<close>

lemma fold_handles_views:
  assumes "distinct hs" and "I s" and "\<And>h. h \<in> set hs \<Longrightarrow> P h (view h s)"
    and "\<And>h s. h \<in> set hs \<Longrightarrow> I s \<Longrightarrow> P h (view h s) \<Longrightarrow>
      \<exists>s'. f h s = Inr s' \<and> I s' \<and> R h (view h s) (view h s') \<and> (\<forall>k. k \<noteq> h \<longrightarrow> view k s' = view k s)"
  shows "\<exists>s'. fold_handles f hs s = Inr s' \<and> I s' \<and>
    (\<forall>h \<in> set hs. R h (view h s) (view h s')) \<and> (\<forall>k. k \<notin> set hs \<longrightarrow> view k s' = view k s)"
  using assms
proof (induction hs arbitrary: s)
  case (Cons h hs)
  from Cons.prems(4) [of h s] Cons.prems(2) Cons.prems(3) [of h] obtain s1 where
    s1: "f h s = Inr s1" "I s1" "R h (view h s) (view h s1)" "\<And>k. k \<noteq> h \<Longrightarrow> view k s1 = view k s"
    by auto
  have P: "P k (view k s1)" if "k \<in> set hs" for k
  proof -
    from Cons.prems(1) that have "k \<noteq> h" by auto
    with s1(4) [of k] Cons.prems(3) [of k] that show ?thesis by simp
  qed
  have step: "\<exists>s'. f k t = Inr s' \<and> I s' \<and> R k (view k t) (view k s') \<and> (\<forall>j. j \<noteq> k \<longrightarrow> view j s' = view j t)"
    if "k \<in> set hs" "I t" "P k (view k t)" for k t
    using Cons.prems(4) [of k t] that by simp
  from Cons.prems(1) have d: "distinct hs" and nh: "h \<notin> set hs" by simp_all
  from Cons.IH [OF d s1(2) P step] obtain s' where
    s': "fold_handles f hs s1 = Inr s'" "I s'" "\<And>k. k \<in> set hs \<Longrightarrow> R k (view k s1) (view k s')"
      "\<And>k. k \<notin> set hs \<Longrightarrow> view k s' = view k s1"
    by blast
  have "R k (view k s) (view k s')" if k: "k \<in> set (h # hs)" for k
  proof (cases "k = h")
    case True
    with s1(3) s'(4) [OF nh] show ?thesis by simp
  next
    case False
    with k s'(3) [of k] s1(4) [of k] show ?thesis by simp
  qed
  moreover have "view k s' = view k s" if k: "k \<notin> set (h # hs)" for k
    using k s'(4) [of k] s1(4) [of k] by simp
  moreover have "fold_handles f (h # hs) s = Inr s'" using s1(1) s'(1) by simp
  ultimately show ?case using s'(2) by blast
qed simp

section \<open>Tables of connections\<close>

text \<open>
  An owner that keeps a state for each of its handles. A step keeps the owner's invariant and the
  sockets of the others; what is seen of a handle is its state and its socket; a step for one
  handle changes no other.
\<close>

definition owner_step ::
  "('c \<Rightarrow> ('t, 'u) socket_set \<Rightarrow> bool) \<Rightarrow> ('c \<Rightarrow> handle set) \<Rightarrow>
   'c \<times> ('t, 'u) socket_set \<Rightarrow> 'c \<times> ('t, 'u) socket_set \<Rightarrow> bool" where
  "owner_step I handles s s' \<longleftrightarrow>
     I (fst s') (snd s') \<and> keeps_others (handles (fst s)) (snd s) (handles (fst s')) (snd s')"

definition table_view ::
  "('c \<Rightarrow> handle \<rightharpoonup> 'st) \<Rightarrow> handle \<Rightarrow> 'c \<times> ('t, 'u) socket_set \<Rightarrow> 'st option \<times> ('t, 'u) socket option" where
  "table_view states h s = (states (fst s) h, snd s h)"

definition handle_step ::
  "('c \<Rightarrow> ('t, 'u) socket_set \<Rightarrow> bool) \<Rightarrow> ('c \<Rightarrow> handle set) \<Rightarrow> ('c \<Rightarrow> handle \<rightharpoonup> 'st) \<Rightarrow> handle \<Rightarrow>
   'c \<times> ('t, 'u) socket_set \<Rightarrow> 'c \<times> ('t, 'u) socket_set \<Rightarrow> bool" where
  "handle_step I handles states h s s' \<longleftrightarrow>
     owner_step I handles s s' \<and> (\<forall>k. k \<noteq> h \<longrightarrow> table_view states k s' = table_view states k s)"

locale state_table =
  fixes inv :: "'c \<Rightarrow> ('t, 'u) socket_set \<Rightarrow> bool"
    and handles :: "'c \<Rightarrow> handle set"
    and states :: "'c \<Rightarrow> handle \<rightharpoonup> 'st"
  assumes finite_states: "inv c ss \<Longrightarrow> finite (dom (states c))"
begin

lemma step_refl: "inv c ss \<Longrightarrow> owner_step inv handles (c, ss) (c, ss)"
  by (simp add: owner_step_def)

lemma step_trans: "owner_step inv handles s s1 \<Longrightarrow> owner_step inv handles s1 s2 \<Longrightarrow> owner_step inv handles s s2"
  unfolding owner_step_def using keeps_others_trans by blast

lemma step_finite: "owner_step inv handles s s' \<Longrightarrow> finite (dom (snd s)) \<Longrightarrow> finite (dom (snd s'))"
  by (simp add: owner_step_def keeps_others_def)

text \<open>A loop of steps, over any state that holds the owner and the sockets (\<open>pr\<close>).\<close>

lemma loop:
  assumes "inv (fst (pr s)) (snd (pr s))" and "finite (dom (snd (pr s)))"
    and "\<And>x s. x \<in> set xs \<Longrightarrow> inv (fst (pr s)) (snd (pr s)) \<Longrightarrow> finite (dom (snd (pr s))) \<Longrightarrow>
      \<exists>s'. f x s = Inr s' \<and> owner_step inv handles (pr s) (pr s')"
  shows "\<exists>s'. fold_handles f xs s = Inr s' \<and> owner_step inv handles (pr s) (pr s')"
proof (rule fold_handles_inv)
  show "owner_step inv handles (pr s) (pr s)" using assms(1) by (simp add: owner_step_def)
next
  fix x s1 assume x: "x \<in> set xs" and s1: "owner_step inv handles (pr s) (pr s1)"
  then have "inv (fst (pr s1)) (snd (pr s1))" "finite (dom (snd (pr s1)))"
    using assms(2) step_finite [OF s1] by (simp_all add: owner_step_def)
  from assms(3) [OF x this] step_trans [OF s1]
  show "\<exists>s'. f x s1 = Inr s' \<and> owner_step inv handles (pr s) (pr s')" by blast
qed

text \<open>A loop over the owner's own handles whose state satisfies \<open>P\<close>: each of them makes its step, once.\<close>

lemma loop_views:
  assumes "inv (fst (pr s)) (snd (pr s))" and "order_spec ord"
    and "hs = filter (\<lambda>h. P (states (fst (pr s)) h)) (ord (dom (states (fst (pr s)))))"
    and "\<And>h s. inv (fst (pr s)) (snd (pr s)) \<Longrightarrow> states (fst (pr s)) h \<noteq> None \<Longrightarrow> P (states (fst (pr s)) h) \<Longrightarrow>
      \<exists>s'. f h s = Inr s' \<and> handle_step inv handles states h (pr s) (pr s') \<and>
        E h (table_view states h (pr s)) (table_view states h (pr s'))"
  shows "\<exists>s'. fold_handles f hs s = Inr s' \<and> owner_step inv handles (pr s) (pr s') \<and>
    (\<forall>h. states (fst (pr s)) h \<noteq> None \<longrightarrow> P (states (fst (pr s)) h) \<longrightarrow>
       E h (table_view states h (pr s)) (table_view states h (pr s'))) \<and>
    (\<forall>h. \<not> (states (fst (pr s)) h \<noteq> None \<and> P (states (fst (pr s)) h)) \<longrightarrow>
       table_view states h (pr s') = table_view states h (pr s))"
proof -
  note ord = order_specD [OF assms(2) finite_states [OF assms(1)]]
  have hs: "distinct hs" "set hs = {h. states (fst (pr s)) h \<noteq> None \<and> P (states (fst (pr s)) h)}"
    using ord assms(3) by auto
  have "\<exists>s'. fold_handles f hs s = Inr s' \<and> owner_step inv handles (pr s) (pr s') \<and>
      (\<forall>h \<in> set hs. E h (table_view states h (pr s)) (table_view states h (pr s'))) \<and>
      (\<forall>k. k \<notin> set hs \<longrightarrow> table_view states k (pr s') = table_view states k (pr s))"
  proof (rule fold_handles_views [where view = "\<lambda>h s. table_view states h (pr s)" and R = E
        and P = "\<lambda>h v. fst v \<noteq> None \<and> P (fst v)" and I = "\<lambda>s'. owner_step inv handles (pr s) (pr s')"])
    show "owner_step inv handles (pr s) (pr s)" using assms(1) by (simp add: owner_step_def)
    show "fst (table_view states h (pr s)) \<noteq> None \<and> P (fst (table_view states h (pr s)))" if "h \<in> set hs" for h
      using that hs(2) by (simp add: table_view_def)
  next
    fix h s1 assume s1: "owner_step inv handles (pr s) (pr s1)"
      and h: "fst (table_view states h (pr s1)) \<noteq> None \<and> P (fst (table_view states h (pr s1)))"
    then have "inv (fst (pr s1)) (snd (pr s1))" "states (fst (pr s1)) h \<noteq> None" "P (states (fst (pr s1)) h)"
      by (simp_all add: owner_step_def table_view_def)
    from assms(4) [OF this] step_trans [OF s1]
    show "\<exists>s'. f h s1 = Inr s' \<and> owner_step inv handles (pr s) (pr s') \<and>
        E h (table_view states h (pr s1)) (table_view states h (pr s')) \<and>
        (\<forall>k. k \<noteq> h \<longrightarrow> table_view states k (pr s') = table_view states k (pr s1))"
      unfolding handle_step_def by blast
  qed (rule hs(1))
  then show ?thesis unfolding hs(2) by blast
qed

end

text \<open>The owner and the sockets, in front of whatever else a loop carries.\<close>

definition pr2 :: "'a \<times> 'b \<times> 'c \<Rightarrow> 'a \<times> 'b" where
  "pr2 s = (fst s, fst (snd s))"

lemma pr2_simp [simp]: "pr2 (a, b, c) = (a, b)"
  by (simp add: pr2_def)

end
