(* ===== verification/Shuttle.thy ===== *)
theory Shuttle
  imports Proxy_Stream Stack
begin

text \<open>
  The transfers that both TCP components of the event loop make between a host stream and a
  socket of the user-space stack: what the socket received goes to the stream as far as the
  stream takes it, and a buffer of bytes from the stream goes to the socket as far as its send
  buffer has room. \<open>tcp_spec\<close> is what the code relies on of a socket, over two logs: the bytes
  queued for sending and the bytes removed from the receive buffer. \<open>conn_spec\<close> is what it relies on
  of the local endpoint of a connection.
\<close>

section \<open>The transfers\<close>

text \<open>The closure passed to \<open>Socket::recv\<close>: how much to remove, and the result.\<close>

definition write_front :: "'s net_lib \<Rightarrow> 's \<Rightarrow> bytes \<Rightarrow> 's \<times> nat \<times> (io_error + nat)" where
  "write_front N stream data =
     (if data = [] then (stream, 0, Inr 0)
      else (case sock_try_write N stream data of
          (stream, Inr written) \<Rightarrow> (stream, written, Inr written)
        | (stream, Inl WouldBlock) \<Rightarrow> (stream, 0, Inr 0)
        | (stream, Inl IoError) \<Rightarrow> (stream, 0, Inl IoError)))"

text \<open>\<open>if let Ok(Err(error)) = result\<close>: the flag says that the stream failed.\<close>

definition recv_to_stream :: "'s net_lib \<Rightarrow> ('t, 'i) tcp_lib \<Rightarrow> 't \<Rightarrow> 's \<Rightarrow> 't \<times> 's \<times> bool" where
  "recv_to_stream N T sock stream =
     (case t_recv T sock stream (write_front N) of
        (sock, stream, result) \<Rightarrow> (sock, stream, case result of Some (Inl e) \<Rightarrow> True | _ \<Rightarrow> False))"

text \<open>\<open>Vec::drain(..n)\<close> panics beyond the end.\<close>

definition drain_front :: "nat \<Rightarrow> bytes \<Rightarrow> panic + bytes" where
  "drain_front n buf = (if n \<le> length buf then Inr (drop n buf) else Inl Panic)"

definition send_front :: "('t, 'i) tcp_lib \<Rightarrow> 't \<Rightarrow> bytes \<Rightarrow> panic + ('t \<times> bytes \<times> bool)" where
  "send_front T sock buf =
     (if buf \<noteq> [] \<and> t_can_send T sock then
        let free_space = TCP_BUF_SIZE - t_send_queue T sock;
            send_len = min free_space (length buf) in
        if send_len > 0 then
          (case t_send_slice T sock (take send_len buf) of
             Some (sock, sent) \<Rightarrow> result_bind (drain_front sent buf) (\<lambda>buf. Inr (sock, buf, False))
           | None \<Rightarrow> Inr (sock, buf, True))
        else Inr (sock, buf, False)
      else Inr (sock, buf, False))"

section \<open>What the code relies on of a socket\<close>

definition tcp_spec :: "('t, 'i) tcp_lib \<Rightarrow> ('t \<Rightarrow> bytes) \<Rightarrow> ('t \<Rightarrow> bytes) \<Rightarrow> bool" where
  "tcp_spec T queued removed \<longleftrightarrow>
     (\<forall>t d n. t_peek T t = Some d \<longrightarrow> n \<le> length d \<longrightarrow>
        removed (t_dequeue T t n) = removed t @ take n d \<and> queued (t_dequeue T t n) = queued t) \<and>
     (\<forall>t d t' n. t_send_slice T t d = Some (t', n) \<longrightarrow>
        n \<le> length d \<and> queued t' = queued t @ take n d \<and> removed t' = removed t) \<and>
     (\<forall>t. queued (t_abort T t) = queued t \<and> removed (t_abort T t) = removed t) \<and>
     (\<forall>t. \<not> t_may_send T (t_abort T t) \<and> t_state T (t_abort T t) = TClosed)"

lemma tcp_specD:
  assumes "tcp_spec T queued removed"
  shows "t_peek T t = Some d \<Longrightarrow> n \<le> length d \<Longrightarrow>
      removed (t_dequeue T t n) = removed t @ take n d \<and> queued (t_dequeue T t n) = queued t"
    and "t_send_slice T t d = Some (t', n) \<Longrightarrow>
      n \<le> length d \<and> queued t' = queued t @ take n d \<and> removed t' = removed t"
    and "queued (t_abort T t) = queued t" "removed (t_abort T t) = removed t"
    and "\<not> t_may_send T (t_abort T t)" "t_state T (t_abort T t) = TClosed"
  using assms unfolding tcp_spec_def by blast+

text \<open>
  \<open>loc\<close> is the local endpoint of the connection that a socket carries or carried: it is what the
  socket reports once the handshake is complete, and from then on no operation changes it.
\<close>

definition conn_spec :: "('t, 'i) tcp_lib \<Rightarrow> ('t \<Rightarrow> (ipv4 \<times> u16) option) \<Rightarrow> bool" where
  "conn_spec T loc \<longleftrightarrow>
     (\<forall>t e. t_state T t \<in> {TEstablished, TCloseWait} \<longrightarrow> t_local T t = Some e \<longrightarrow> loc t = Some e) \<and>
     (\<forall>t n e. loc t = Some e \<longrightarrow> loc (t_dequeue T t n) = Some e) \<and>
     (\<forall>t d t' n e. t_send_slice T t d = Some (t', n) \<longrightarrow> loc t = Some e \<longrightarrow> loc t' = Some e) \<and>
     (\<forall>t e. loc t = Some e \<longrightarrow> loc (t_abort T t) = Some e)"

lemma conn_specD:
  assumes "conn_spec T loc"
  shows "t_state T t \<in> {TEstablished, TCloseWait} \<Longrightarrow> t_local T t = Some e \<Longrightarrow> loc t = Some e"
    and "loc t = Some e \<Longrightarrow> loc (t_dequeue T t n) = Some e"
    and "t_send_slice T t d = Some (t', n) \<Longrightarrow> loc t = Some e \<Longrightarrow> loc t' = Some e"
    and "loc t = Some e \<Longrightarrow> loc (t_abort T t) = Some e"
  using assms unfolding conn_spec_def by blast+

lemma recv_to_stream_local:
  assumes "conn_spec T loc" and "recv_to_stream N T t s = (t', s', failed)" and "loc t = Some e"
  shows "loc t' = Some e"
proof (cases "t_peek T t")
  case None
  with assms(2,3) show ?thesis by (simp add: recv_to_stream_def t_recv_def)
next
  case (Some d)
  with assms(2) have "t' = t_dequeue T t (fst (snd (write_front N s d)))"
    by (auto simp: recv_to_stream_def t_recv_def split: prod.splits)
  with conn_specD(2) [OF assms(1,3)] show ?thesis by simp
qed

lemma send_front_local:
  assumes "conn_spec T loc" and "send_front T t buf = Inr (t', buf', failed)" and "loc t = Some e"
  shows "loc t' = Some e"
  using assms(2,3) conn_specD(3) [OF assms(1)]
  by (cases e) (auto simp: send_front_def Let_def result_bind_Inr_iff split: if_splits option.splits)

text \<open>The bytes removed from the socket are exactly those the stream took.\<close>

lemma write_front_moves:
  assumes "stream_spec N sent taken" and "write_front N s d = (s', n, r)"
  shows "n \<le> length d \<and> sent s' = sent s @ take n d \<and> taken s' = taken s"
proof (cases "d = []")
  case True
  with assms(2) show ?thesis by (simp add: write_front_def)
next
  case False
  obtain s1 w where w: "sock_try_write N s d = (s1, w)" by fastforce
  show ?thesis
  proof (cases w)
    case (Inr m)
    from stream_write(3) [OF assms(1)] w Inr have "m \<le> length d \<and> sent s1 = sent s @ take m d \<and> taken s1 = taken s" by blast
    with assms(2) False w Inr show ?thesis by (simp add: write_front_def)
  next
    case (Inl e)
    from stream_write(4) [OF assms(1)] w Inl have "sent s1 = sent s \<and> taken s1 = taken s" by blast
    with assms(2) False w Inl show ?thesis by (cases e) (auto simp: write_front_def)
  qed
qed

lemma recv_to_stream_moves:
  assumes "stream_spec N sent taken" and "tcp_spec T queued removed"
    and "recv_to_stream N T t s = (t', s', failed)"
  shows "\<exists>w. sent s' = sent s @ w \<and> removed t' = removed t @ w \<and> taken s' = taken s \<and> queued t' = queued t"
proof (cases "t_peek T t")
  case None
  with assms(3) show ?thesis by (simp add: recv_to_stream_def t_recv_def)
next
  case (Some d)
  obtain s1 n r where w: "write_front N s d = (s1, n, r)" by (cases "write_front N s d")
  with Some assms(3) have "t' = t_dequeue T t n" "s' = s1"
    by (auto simp: recv_to_stream_def t_recv_def)
  with write_front_moves [OF assms(1) w] tcp_specD(1) [OF assms(2) Some, of n] show ?thesis by auto
qed

text \<open>Sending does not panic; the buffer and what is queued keep their concatenation.\<close>

lemma send_front_moves:
  assumes "tcp_spec T queued removed"
  shows "\<exists>t' buf' failed. send_front T t buf = Inr (t', buf', failed) \<and>
    queued t' @ buf' = queued t @ buf \<and> removed t' = removed t \<and> length buf' \<le> length buf"
proof (cases "t_send_slice T t (take (min (TCP_BUF_SIZE - t_send_queue T t) (length buf)) buf)")
  case None
  then show ?thesis by (auto simp: send_front_def Let_def)
next
  case (Some r)
  obtain t1 n where r: "r = (t1, n)" by (cases r)
  with tcp_specD(2) [OF assms] Some have
    n: "n \<le> length buf" "n \<le> min (TCP_BUF_SIZE - t_send_queue T t) (length buf)" "removed t1 = removed t"
      "queued t1 = queued t @ take n (take (min (TCP_BUF_SIZE - t_send_queue T t) (length buf)) buf)"
    by fastforce+
  from n(2,4) have "queued t1 @ drop n buf = queued t @ buf"
    by (simp add: min_def)
  with n Some r show ?thesis by (auto simp: send_front_def Let_def drain_front_def)
qed

section \<open>Sockets and streams in step\<close>

text \<open>A new socket, listening or connecting or not, has moved no bytes.\<close>

definition fresh_spec :: "('t, 'i) tcp_lib \<Rightarrow> ('t \<Rightarrow> bytes) \<Rightarrow> ('t \<Rightarrow> bytes) \<Rightarrow> bool" where
  "fresh_spec T queued removed \<longleftrightarrow>
     (\<forall>m n. queued (tcp_socket_new T m n) = [] \<and> removed (tcp_socket_new T m n) = []) \<and>
     (\<forall>t b. queued (set_nagle_enabled T t b) = queued t \<and> removed (set_nagle_enabled T t b) = removed t) \<and>
     (\<forall>t a p t'. t_listen T t a p = Some t' \<longrightarrow> queued t' = queued t \<and> removed t' = removed t) \<and>
     (\<forall>i t r l i' t'. t_connect T i t r l = Some (i', t') \<longrightarrow> queued t' = queued t \<and> removed t' = removed t)"

lemma fresh_listen:
  "fresh_spec T queued removed \<Longrightarrow> t_listen T (new_tcp_socket T) a p = Some t \<Longrightarrow> queued t = [] \<and> removed t = []"
  and fresh_connect:
  "fresh_spec T queued removed \<Longrightarrow> t_connect T i (new_tcp_socket T) r l = Some (i', t) \<Longrightarrow>
     queued t = [] \<and> removed t = []"
  unfolding fresh_spec_def new_tcp_socket_def by metis+

text \<open>
  The two logs of a socket are the same in two states of the socket set, and a connection keeps its
  local endpoint.
\<close>

definition same_logs ::
  "('t \<Rightarrow> bytes) \<Rightarrow> ('t \<Rightarrow> bytes) \<Rightarrow> ('t \<Rightarrow> (ipv4 \<times> u16) option) \<Rightarrow>
   ('t, 'u) socket option \<Rightarrow> ('t, 'u) socket option \<Rightarrow> bool" where
  "same_logs queued removed loc a b \<longleftrightarrow>
     (case (a, b) of
        (None, None) \<Rightarrow> True
      | (Some (Tcp t), Some (Tcp t')) \<Rightarrow>
          queued t' = queued t \<and> removed t' = removed t \<and> (\<forall>e. loc t = Some e \<longrightarrow> loc t' = Some e)
      | (Some (Udp _), Some (Udp _)) \<Rightarrow> True
      | _ \<Rightarrow> False)"

lemma same_logs_refl [simp]: "same_logs queued removed loc a a"
  by (auto simp: same_logs_def split: option.splits socket.splits)

lemma same_logs_kind: "same_logs queued removed loc a b \<Longrightarrow> same_kind a b"
  by (auto simp: same_logs_def same_kind_def split: option.splits socket.splits)

lemma same_logs_Tcp:
  "same_logs queued removed loc (Some (Tcp t)) b \<Longrightarrow>
     \<exists>t'. b = Some (Tcp t') \<and> queued t' = queued t \<and> removed t' = removed t \<and> (\<forall>e. loc t = Some e \<longrightarrow> loc t' = Some e)"
  by (auto simp: same_logs_def split: option.splits socket.splits)

section \<open>A socket for examples\<close>

text \<open>A socket as its state, the bytes to be received and the two logs.\<close>

record pipe =
  pipe_state :: tcp_state
  pipe_in :: bytes
  pipe_queued :: bytes
  pipe_removed :: bytes
  pipe_local :: "(ipv4 \<times> u16) option"

definition pipe_open :: "pipe \<Rightarrow> bool" where
  "pipe_open p \<longleftrightarrow> pipe_state p \<in> {TEstablished, TCloseWait}"

definition pipe_tcp :: "(pipe, unit) tcp_lib" where
  "pipe_tcp = \<lparr>
     tcp_socket_new = (\<lambda>_ _. \<lparr>pipe_state = TClosed, pipe_in = [], pipe_queued = [], pipe_removed = [], pipe_local = None\<rparr>),
     set_nagle_enabled = (\<lambda>p _. p),
     t_listen = (\<lambda>p _ _. Some (p\<lparr>pipe_state := TListen\<rparr>)),
     t_connect = (\<lambda>i p _ l. Some (i, p\<lparr>pipe_state := TSynSent, pipe_local := Some l\<rparr>)),
     t_state = pipe_state,
     t_local = pipe_local,
     t_abort = (\<lambda>p. p\<lparr>pipe_state := TClosed\<rparr>),
     t_may_recv = (\<lambda>p. pipe_state p \<in> {TEstablished, TFinWait1, TFinWait2} \<or> pipe_in p \<noteq> []),
     t_can_recv = (\<lambda>p. pipe_in p \<noteq> []),
     t_may_send = pipe_open,
     t_can_send = pipe_open,
     t_send_queue = (\<lambda>p. 0),
     t_recv_queue = (\<lambda>p. length (pipe_in p)),
     t_peek = (\<lambda>p. Some (pipe_in p)),
     t_dequeue = (\<lambda>p n. p\<lparr>pipe_in := drop n (pipe_in p), pipe_removed := pipe_removed p @ take n (pipe_in p)\<rparr>),
     t_send_slice = (\<lambda>p d. if pipe_open p then Some (p\<lparr>pipe_queued := pipe_queued p @ d\<rparr>, length d) else None)\<rparr>"

lemma pipe_tcp_spec: "tcp_spec pipe_tcp pipe_queued pipe_removed"
  by (auto simp: tcp_spec_def pipe_tcp_def pipe_open_def split: if_splits)

definition pipe_conn :: "pipe \<Rightarrow> (ipv4 \<times> u16) option" where
  "pipe_conn p = (if pipe_state p = TListen then None else pipe_local p)"

lemma pipe_conn_spec: "conn_spec pipe_tcp pipe_conn"
  by (auto simp: conn_spec_def pipe_tcp_def pipe_conn_def split: if_splits)

lemma pipe_fresh_spec: "fresh_spec pipe_tcp pipe_queued pipe_removed"
  by (auto simp: fresh_spec_def pipe_tcp_def)

lemma sorted_order: "order_spec sorted_list_of_set"
  by (simp add: order_spec_def)

definition least_alloc :: "('t, 'u) alloc" where
  "least_alloc ss = (if dom ss = {} then 0 else Suc (Max (dom ss)))"

lemma least_alloc_spec: "alloc_spec least_alloc"
proof -
  have "Suc (Max (dom ss)) \<notin> dom ss" if "finite (dom ss)" for ss :: "('a, 'b) socket_set"
    using Max_ge [OF that, of "Suc (Max (dom ss))"] by auto
  then show ?thesis by (auto simp: alloc_spec_def least_alloc_def)
qed

end
