(* ===== verification/Fake_Dns.thy ===== *)
theory Fake_Dns
  imports Prelude
begin

text \<open>
  The fake-IP allocator of \<open>src/src/fake_dns.rs\<close>: a bounded pool of synthetic IPv4 addresses
  with a forward map from domains and a reverse map from addresses. The abstract
  specification is the list of all domains ever allocated, of which the last
  \<open>POOL_SIZE\<close> are live; the record of two hash maps and a cursor refines it.
\<close>

section \<open>Pool constants\<close>

definition POOL_START :: u32 where
  "POOL_START = from_be32 198 18 0 1"

definition POOL_END :: u32 where
  "POOL_END = from_be32 198 19 255 254"

definition POOL_SIZE :: u32 where
  "POOL_SIZE = POOL_END - POOL_START + 1"

section \<open>The allocator\<close>

record fake_dns =
  domain_to_ip :: "string \<rightharpoonup> ipv4"
  ip_to_domain :: "ipv4 \<rightharpoonup> string"
  next_offset :: u32

definition new :: fake_dns where
  "new = \<lparr>domain_to_ip = Map.empty, ip_to_domain = Map.empty, next_offset = 0\<rparr>"

definition resolve :: "fake_dns \<Rightarrow> string \<Rightarrow> fake_dns \<times> ipv4" where
  "resolve self domain =
     (case domain_to_ip self domain of
        Some ip \<Rightarrow> (self, ip)
      | None \<Rightarrow>
          (let ip = POOL_START + next_offset self;
               self = self\<lparr>next_offset := (next_offset self + 1) mod POOL_SIZE\<rparr>;
               self = (case ip_to_domain self ip of
                         None \<Rightarrow> self
                       | Some old_domain \<Rightarrow>
                           self\<lparr>ip_to_domain := (ip_to_domain self)(ip := None),
                                domain_to_ip := (domain_to_ip self)(old_domain := None)\<rparr>);
               self = self\<lparr>ip_to_domain := (ip_to_domain self)(ip \<mapsto> domain)\<rparr>;
               self = self\<lparr>domain_to_ip := (domain_to_ip self)(domain \<mapsto> ip)\<rparr>
           in (self, ip)))"

definition lookup :: "fake_dns \<Rightarrow> ipv4 \<Rightarrow> string option" where
  "lookup self ip = ip_to_domain self ip"

definition is_fake_ip :: "fake_dns \<Rightarrow> ipv4 \<Rightarrow> bool" where
  "is_fake_ip self ip \<longleftrightarrow> POOL_START \<le> ip \<and> ip \<le> POOL_END"

definition default :: fake_dns where
  "default = new"

text \<open>Resolving a sequence of domains, keeping the last state.\<close>

definition resolve_all :: "string list \<Rightarrow> fake_dns \<Rightarrow> fake_dns" where
  "resolve_all ds self = foldl (\<lambda>d s. fst (resolve d s)) self ds"

text \<open>How many of these resolutions give a domain an address it does not have at that moment.\<close>

fun allocations :: "string list \<Rightarrow> fake_dns \<Rightarrow> nat" where
  "allocations [] d = 0"
| "allocations (s # ds) d = (if domain_to_ip d s = None then 1 else 0) + allocations ds (fst (resolve d s))"

section \<open>The pool\<close>

abbreviation pool_size :: nat where
  "pool_size \<equiv> 131070"

lemma POOL_values: "POOL_START = 0xC6120001" "POOL_END = 0xC613FFFE" "POOL_SIZE = 131070"
  by (simp_all add: POOL_START_def POOL_END_def POOL_SIZE_def from_be32_def)

definition slot :: "nat \<Rightarrow> ipv4" where
  "slot i = POOL_START + of_nat (i mod pool_size)"

lemma unat_slot: "unat (slot i) = 0xC6120001 + i mod pool_size"
proof -
  have "i mod pool_size < pool_size" by simp
  then have "unat (of_nat (i mod pool_size) :: u32) = i mod pool_size"
    by (simp add: unat_of_nat take_bit_eq_mod)
  with \<open>i mod pool_size < pool_size\<close> show ?thesis
    by (simp add: slot_def POOL_values unat_word_ariths(1))
qed

lemma slot_eq_iff [simp]: "slot i = slot j \<longleftrightarrow> i mod pool_size = j mod pool_size"
  by (metis add_left_cancel slot_def unat_slot)

lemma is_fake_slot [simp]: "is_fake_ip d (slot i)"
proof -
  have "i mod pool_size < pool_size" by simp
  then show ?thesis
    by (simp add: is_fake_ip_def word_le_nat_alt unat_slot POOL_values)
qed

section \<open>Abstract specification: allocation history\<close>

text \<open>
  \<open>hist\<close> lists every domain in the order it was given an address. Entry \<open>i\<close> took slot
  \<open>i mod pool_size\<close> and is live while fewer than \<open>pool_size\<close> entries follow it.
\<close>

definition live :: "string list \<Rightarrow> nat \<Rightarrow> bool" where
  "live hist i \<longleftrightarrow> i < length hist \<and> length hist \<le> i + pool_size"

definition live_domains :: "string list \<Rightarrow> string list" where
  "live_domains hist = drop (length hist - pool_size) hist"

definition spec_resolve :: "string list \<Rightarrow> string \<Rightarrow> string list" where
  "spec_resolve hist domain = (if domain \<in> set (live_domains hist) then hist else hist @ [domain])"

definition entry :: "string list \<Rightarrow> string \<Rightarrow> ipv4 \<Rightarrow> bool" where
  "entry hist s ip \<longleftrightarrow> (\<exists>i. live hist i \<and> hist ! i = s \<and> ip = slot i)"

definition refines :: "string list \<Rightarrow> fake_dns \<Rightarrow> bool" where
  "refines hist d \<longleftrightarrow>
     distinct (live_domains hist) \<and>
     unat (next_offset d) = length hist mod pool_size \<and>
     (\<forall>s ip. domain_to_ip d s = Some ip \<longleftrightarrow> entry hist s ip) \<and>
     (\<forall>ip s. ip_to_domain d ip = Some s \<longleftrightarrow> entry hist s ip)"

definition fake_dns_inv :: "fake_dns \<Rightarrow> bool" where
  "fake_dns_inv d \<longleftrightarrow>
     unat (next_offset d) < pool_size \<and>
     (\<forall>s ip. domain_to_ip d s = Some ip \<longleftrightarrow> ip_to_domain d ip = Some s) \<and>
     (\<forall>ip \<in> dom (ip_to_domain d). is_fake_ip d ip)"

lemma set_live_domains: "set (live_domains hist) = {hist ! i | i. live hist i}"
  by (auto simp: live_domains_def live_def set_drop_nth)

lemma live_slot_unique:
  assumes "live hist i" and "live hist j" and "slot i = slot j"
  shows "i = j"
proof -
  have *: "i = j" if "i \<le> j" "j < i + pool_size" "i mod pool_size = j mod pool_size" for i j :: nat
  proof -
    from that obtain k where k: "j = i + k" "k < pool_size"
      by (metis add_less_cancel_left le_Suc_ex)
    with that(3) have "pool_size dvd k"
      by (metis add_diff_cancel_left' mod_eq_dvd_iff_nat that(1))
    with k show ?thesis by (auto dest: dvd_imp_le)
  qed
  from assms show ?thesis
    using * [of i j] * [of j i] by (cases "i \<le> j") (auto simp: live_def)
qed

lemma live_domain_unique:
  "distinct (live_domains hist) \<Longrightarrow> live hist i \<Longrightarrow> live hist j \<Longrightarrow> hist ! i = hist ! j \<Longrightarrow> i = j"
  by (rule distinct_drop_nth [of "length hist - pool_size" hist])
    (auto simp: live_domains_def live_def)

lemma live_snoc:
  "live (hist @ [s]) i \<longleftrightarrow> i = length hist \<or> live hist i \<and> length hist \<noteq> i + pool_size"
  by (auto simp: live_def)

lemma live_same_slot:
  assumes "live hist i"
  shows "slot i = slot (length hist) \<longleftrightarrow> length hist = i + pool_size"
proof
  assume eq: "slot i = slot (length hist)"
  show "length hist = i + pool_size"
  proof (rule ccontr)
    assume "length hist \<noteq> i + pool_size"
    with assms have "live (hist @ [[]]) i" "live (hist @ [[]]) (length hist)"
      by (simp_all add: live_snoc)
    then have "i = length hist" using eq by (rule live_slot_unique)
    with assms show False by (simp add: live_def)
  qed
qed simp

lemma entry_snoc:
  "entry (hist @ [s]) t a \<longleftrightarrow>
     t = s \<and> a = slot (length hist) \<or> entry hist t a \<and> a \<noteq> slot (length hist)"
proof -
  have nth: "live hist i \<Longrightarrow> (hist @ [s]) ! i = hist ! i" for i
    by (simp add: live_def nth_append)
  have "entry (hist @ [s]) t a \<longleftrightarrow> t = s \<and> a = slot (length hist) \<or>
      (\<exists>i. live hist i \<and> slot i \<noteq> slot (length hist) \<and> hist ! i = t \<and> a = slot i)"
    using live_same_slot [of hist] nth
    unfolding entry_def live_snoc by (metis nth_append_length)
  then show ?thesis
    by (auto simp: entry_def)
qed

lemma refines_new: "refines [] new"
  by (simp add: refines_def new_def live_domains_def entry_def live_def)

lemma refines_inv: "refines hist d \<Longrightarrow> fake_dns_inv d"
  by (auto simp: refines_def fake_dns_inv_def entry_def)

lemma next_slot:
  assumes "unat (next_offset d) = n mod pool_size"
  shows "POOL_START + next_offset d = slot n"
    and "unat ((next_offset d + 1) mod POOL_SIZE) = Suc n mod pool_size"
proof -
  show "POOL_START + next_offset d = slot n"
    by (simp add: slot_def assms [symmetric])
  have "unat (next_offset d + 1) = n mod pool_size + 1"
    using assms by (simp add: unat_word_ariths(1))
  then show "unat ((next_offset d + 1) mod POOL_SIZE) = Suc n mod pool_size"
    by (simp add: unat_word_ariths POOL_values mod_Suc_eq)
qed

lemma refines_resolve_old:
  assumes "refines hist d" and "domain_to_ip d s = Some ip"
  shows "spec_resolve hist s = hist" and "resolve d s = (d, ip)"
proof -
  show "spec_resolve hist s = hist"
    using assms by (auto simp: refines_def entry_def spec_resolve_def set_live_domains)
  show "resolve d s = (d, ip)"
    using assms(2) by (simp add: resolve_def)
qed

text \<open>The two maps after an allocation, whatever the slot held before.\<close>

lemma resolve_new_maps:
  assumes "domain_to_ip d s = None" and "POOL_START + next_offset d = ip"
    and ptr: "\<And>t. ip_to_domain d ip = Some t \<longleftrightarrow> domain_to_ip d t = Some ip"
  shows "resolve d s =
    (\<lparr>domain_to_ip = (\<lambda>t. if t = s then Some ip
                       else if domain_to_ip d t = Some ip then None else domain_to_ip d t),
      ip_to_domain = (ip_to_domain d)(ip \<mapsto> s),
      next_offset = (next_offset d + 1) mod POOL_SIZE\<rparr>, ip)"
proof (cases "ip_to_domain d ip")
  case None
  with ptr have "domain_to_ip d t \<noteq> Some ip" for t by auto
  with None assms(1,2) show ?thesis
    by (simp add: resolve_def Let_def fun_upd_def cong: if_cong)
next
  case (Some old)
  have "domain_to_ip d t = Some ip \<longleftrightarrow> t = old" for t
    using Some ptr [of t] by auto
  with Some assms(1,2) show ?thesis
    by (simp add: resolve_def Let_def fun_upd_def cong: if_cong)
qed

lemma live_domains_snoc:
  assumes "distinct (live_domains hist)" and "s \<notin> set (live_domains hist)"
  shows "distinct (live_domains (hist @ [s]))"
proof -
  have "\<exists>k. live_domains (hist @ [s]) = drop k (live_domains hist) @ [s]"
  proof (cases "length hist < pool_size")
    case True
    then show ?thesis by (auto simp: live_domains_def intro: exI [of _ 0])
  next
    case False
    then have "Suc (length hist) - pool_size = 1 + (length hist - pool_size)" by simp
    with False show ?thesis by (auto simp: live_domains_def intro: exI [of _ 1])
  qed
  with assms show ?thesis
    by (auto dest: in_set_dropD)
qed

lemma refines_resolve_new:
  assumes R: "refines hist d" and none: "domain_to_ip d s = None"
  shows "spec_resolve hist s = hist @ [s]"
    and "snd (resolve d s) = slot (length hist)"
    and "refines (hist @ [s]) (fst (resolve d s))"
proof -
  let ?n = "length hist" and ?d = "fst (resolve d s)"
  have off: "unat (next_offset d) = ?n mod pool_size"
    and dist: "distinct (live_domains hist)"
    and fwd: "\<And>t ip. domain_to_ip d t = Some ip \<longleftrightarrow> entry hist t ip"
    and rev: "\<And>t ip. ip_to_domain d ip = Some t \<longleftrightarrow> entry hist t ip"
    using R by (auto simp: refines_def)
  have fresh: "s \<notin> set (live_domains hist)"
    using none fwd [of s] by (fastforce simp: set_live_domains entry_def)
  then show "spec_resolve hist s = hist @ [s]"
    by (simp add: spec_resolve_def)
  have res: "resolve d s =
    (\<lparr>domain_to_ip = (\<lambda>t. if t = s then Some (slot ?n)
                       else if domain_to_ip d t = Some (slot ?n) then None else domain_to_ip d t),
      ip_to_domain = (ip_to_domain d)(slot ?n \<mapsto> s),
      next_offset = (next_offset d + 1) mod POOL_SIZE\<rparr>, slot ?n)"
    by (rule resolve_new_maps) (simp_all add: none next_slot(1) [OF off] fwd rev)
  then show "snd (resolve d s) = slot ?n"
    by simp
  have "distinct (live_domains (hist @ [s]))"
    using dist fresh by (rule live_domains_snoc)
  moreover have "ip_to_domain ?d a = Some t \<longleftrightarrow> entry (hist @ [s]) t a" for a t
    by (auto simp: res entry_snoc rev)
  moreover have "domain_to_ip ?d t = Some a \<longleftrightarrow> entry (hist @ [s]) t a" for a t
    using none by (auto simp: res entry_snoc fwd [symmetric])
  ultimately show "refines (hist @ [s]) ?d"
    by (simp add: refines_def res next_slot(2) [OF off])
qed

lemma refines_resolve:
  assumes "refines hist d"
  shows "refines (spec_resolve hist s) (fst (resolve d s))"
  using assms refines_resolve_old [OF assms] refines_resolve_new [OF assms]
  by (cases "domain_to_ip d s") auto

lemma entry_resolve:
  assumes "refines hist d"
  shows "entry (spec_resolve hist s) s (snd (resolve d s))"
proof (cases "domain_to_ip d s")
  case None
  then show ?thesis
    using refines_resolve_new [OF assms None] by (simp add: entry_snoc)
next
  case (Some ip)
  then show ?thesis
    using refines_resolve_old [OF assms Some] assms by (simp add: refines_def)
qed

text \<open>Further resolutions extend the history by as many entries as there are allocations.\<close>

lemma refines_resolve_all:
  "refines hist d \<Longrightarrow>
     \<exists>ext. length ext = allocations ds d \<and> refines (hist @ ext) (resolve_all ds d)"
proof (induction ds arbitrary: hist d)
  case Nil
  then show ?case by (auto simp: resolve_all_def)
next
  case (Cons s ds)
  from refines_resolve [OF Cons.prems, of s] obtain ext where
    "length ext = allocations ds (fst (resolve d s))"
    "refines (spec_resolve hist s @ ext) (resolve_all ds (fst (resolve d s)))"
    using Cons.IH by blast
  then show ?case
    using refines_resolve_old(1) [OF Cons.prems] refines_resolve_new(1) [OF Cons.prems]
    by (cases "domain_to_ip d s")
      (auto simp: resolve_all_def intro: exI [of _ ext] exI [of _ "s # ext"])
qed

lemma entry_stable:
  assumes "length ext < pool_size"
  shows "entry (hist @ s # ext) s (slot (length hist))"
proof -
  have "live (hist @ s # ext) (length hist)"
    using assms by (simp add: live_def)
  then show ?thesis
    unfolding entry_def by (intro exI [of _ "length hist"]) simp
qed

text \<open>Resolving distinct names one after the other fills the history with exactly these names.\<close>

lemma refines_resolve_all_distinct:
  "refines hist d \<Longrightarrow> distinct (hist @ ds) \<Longrightarrow> length (hist @ ds) \<le> pool_size \<Longrightarrow>
     refines (hist @ ds) (resolve_all ds d)"
proof (induction ds arbitrary: hist d)
  case Nil
  then show ?case by (simp add: resolve_all_def)
next
  case (Cons s ds)
  then have "spec_resolve hist s = hist @ [s]"
    by (simp add: spec_resolve_def live_domains_def)
  with refines_resolve [OF Cons.prems(1), of s] have "refines (hist @ [s]) (fst (resolve d s))"
    by simp
  from Cons.IH [OF this] Cons.prems show ?case
    by (simp add: resolve_all_def)
qed

section \<open>The interface the DNS interceptor relies on\<close>

locale fake_ip_pool =
  fixes resolve :: "'d \<Rightarrow> 'n \<Rightarrow> 'd \<times> 'a"
    and lookup :: "'d \<Rightarrow> 'a \<Rightarrow> 'n option"
    and is_fake :: "'d \<Rightarrow> 'a \<Rightarrow> bool"
    and inv :: "'d \<Rightarrow> bool"
  assumes resolve_inv: "inv d \<Longrightarrow> inv (fst (resolve d n))"
    and resolve_lookup: "inv d \<Longrightarrow> lookup (fst (resolve d n)) (snd (resolve d n)) = Some n"
    and resolve_again: "inv d \<Longrightarrow> resolve (fst (resolve d n)) n = resolve d n"
    and lookup_is_fake: "inv d \<Longrightarrow> lookup d a = Some n \<Longrightarrow> is_fake d a"
    and lookup_inj: "inv d \<Longrightarrow> lookup d a = Some n \<Longrightarrow> lookup d b = Some n \<Longrightarrow> a = b"
begin

lemma resolve_is_fake: "inv d \<Longrightarrow> is_fake (fst (resolve d n)) (snd (resolve d n))"
  using lookup_is_fake resolve_inv resolve_lookup by blast

text \<open>A name that already owns an address keeps it.\<close>

lemma resolve_known:
  assumes "inv d" and "lookup d a = Some n" and "lookup (fst (resolve d n)) a = Some n"
  shows "snd (resolve d n) = a"
  using assms lookup_inj resolve_inv resolve_lookup by blast

end

definition fake_dns_ok :: "fake_dns \<Rightarrow> bool" where
  "fake_dns_ok d \<longleftrightarrow> (\<exists>hist. refines hist d)"

lemma fake_dns_ok_inv: "fake_dns_ok d \<Longrightarrow> fake_dns_inv d"
  by (auto simp: fake_dns_ok_def dest: refines_inv)

lemma fake_dns_ok_new [inv_rules]: "fake_dns_ok new"
  using refines_new by (auto simp: fake_dns_ok_def)

lemma fake_dns_ok_resolve [inv_rules]: "fake_dns_ok d \<Longrightarrow> fake_dns_ok (fst (resolve d s))"
  using refines_resolve by (auto simp: fake_dns_ok_def)

interpretation fd: fake_ip_pool resolve lookup is_fake_ip fake_dns_ok
proof unfold_locales
  fix d :: fake_dns and n a b
  assume ok: "fake_dns_ok d"
  show "fake_dns_ok (fst (resolve d n))"
    using ok by (rule fake_dns_ok_resolve)
  from ok obtain hist where R: "refines hist d"
    by (auto simp: fake_dns_ok_def)
  note R' = refines_resolve [OF R, of n] and E = entry_resolve [OF R, of n]
  show "lookup (fst (resolve d n)) (snd (resolve d n)) = Some n"
    using R' E by (simp add: refines_def lookup_def)
  have "domain_to_ip (fst (resolve d n)) n = Some (snd (resolve d n))"
    using R' E by (simp add: refines_def)
  then show "resolve (fst (resolve d n)) n = resolve d n"
    using refines_resolve_old(2) [OF R'] by simp
  show "is_fake_ip d a" if "lookup d a = Some n"
    using that fake_dns_ok_inv [OF ok] by (auto simp: fake_dns_inv_def lookup_def)
  show "a = b" if "lookup d a = Some n" "lookup d b = Some n"
    using that fake_dns_ok_inv [OF ok] by (metis fake_dns_inv_def lookup_def option.inject)
qed

definition dns_step :: "fake_dns \<Rightarrow> fake_dns \<Rightarrow> bool" where
  "dns_step d d' \<longleftrightarrow> (\<exists>s. d' = fst (resolve d s))"

interpretation fdc: component "\<lambda>d. d = new" dns_step fake_dns_ok
  by unfold_locales (auto simp: dns_step_def intro: inv_rules)

section \<open>Properties\<close>

text \<open>
  C12. Refinement of the allocation history: whatever domain is resolved, the two hash maps and
  the cursor implement the abstract step (a live domain keeps its slot, a new one is
  appended), and the address returned is the slot of a live entry for that domain.
\<close>

theorem resolve_refines_history:
  assumes "refines hist d"
  shows "refines (spec_resolve hist s) (fst (resolve d s)) \<and>
    entry (spec_resolve hist s) s (snd (resolve d s))"
  using assms by (simp add: refines_resolve entry_resolve)

theorem resolve_refines_history_witness:
  "refines (spec_resolve [] ''a'') (fst (resolve new ''a'')) \<and>
    entry (spec_resolve [] ''a'') ''a'' (snd (resolve new ''a''))"
  using resolve_refines_history [OF refines_new] by simp

text \<open>
  In every state the program can reach, the forward and the reverse map are inverse to
  each other, every mapped address lies in the pool, and the cursor is a pool index.
\<close>

lemma reachable_fake_dns_inv:
  assumes "reach (\<lambda>d. d = new) dns_step d"
  shows "fake_dns_inv d"
  using fdc.reach_inv [OF assms] by (rule fake_dns_ok_inv)

text \<open>
  Round trip: in every reachable state, the address returned for a domain is inside the
  pool, the reverse lookup of it gives the domain back, and asking again changes nothing.
\<close>

lemma resolve_lookup_roundtrip:
  assumes "reach (\<lambda>d. d = new) dns_step d" and "resolve d s = (d', ip)"
  shows "lookup d' ip = Some s \<and> is_fake_ip d' ip \<and> resolve d' s = (d', ip)"
  using fdc.reach_inv [OF assms(1)] assms(2) fd.resolve_lookup [of d s] fd.resolve_is_fake [of d s]
    fd.resolve_again [of d s]
  by simp

text \<open>
  C14. Stability: from the moment a domain is given an address it did not have, the mapping stays in
  place while fewer than \<open>POOL_SIZE\<close> further addresses are allocated, however many resolutions of
  domains that have an address come between: the domain still resolves to that address and the
  address still names that domain.
\<close>

theorem mapping_survives_until_wrap_around:
  assumes "reach (\<lambda>d. d = new) dns_step d" and "domain_to_ip d s = None"
    and "resolve d s = (d', ip)" and "allocations ds d' < unat POOL_SIZE"
  shows "resolve (resolve_all ds d') s = (resolve_all ds d', ip) \<and>
    lookup (resolve_all ds d') ip = Some s"
proof -
  from fdc.reach_inv [OF assms(1)] obtain hist where R: "refines hist d"
    by (auto simp: fake_dns_ok_def)
  have d': "refines (hist @ [s]) d'" and ip: "ip = slot (length hist)"
    using refines_resolve_new [OF R assms(2)] assms(3) by simp_all
  obtain ext where "length ext = allocations ds d'"
    and R': "refines ((hist @ [s]) @ ext) (resolve_all ds d')"
    using refines_resolve_all [OF d'] by blast
  with assms(4) have "entry ((hist @ [s]) @ ext) s ip"
    by (simp add: ip entry_stable POOL_values)
  with R' show ?thesis
    using refines_resolve_old(2) [OF R'] by (simp add: refines_def lookup_def)
qed

theorem mapping_survives_until_wrap_around_witness:
  "lookup (resolve_all [''b'', ''c'', ''b''] (fst (resolve new ''a''))) (slot 0) = Some ''a''"
proof -
  have "resolve new ''a'' = (fst (resolve new ''a''), slot 0)"
    by (simp add: resolve_def new_def slot_def)
  moreover have "allocations [''b'', ''c'', ''b''] (fst (resolve new ''a'')) < unat POOL_SIZE"
    by (simp add: POOL_values)
  ultimately show ?thesis
    using mapping_survives_until_wrap_around [OF reach_init, of new "''a''"] by (simp add: new_def)
qed

text \<open>
  Wrap-around: when the pool is full, allocating for a new domain evicts the oldest live
  domain, reuses its address, and leaves every other mapping untouched.
\<close>

lemma wrap_around_evicts_oldest:
  assumes "refines hist d" and "pool_size \<le> length hist" and "domain_to_ip d s = None"
    and "oldest = hist ! (length hist - pool_size)"
  shows "domain_to_ip d oldest = Some (snd (resolve d s)) \<and>
    domain_to_ip (fst (resolve d s)) =
      ((domain_to_ip d)(oldest := None))(s \<mapsto> snd (resolve d s)) \<and>
    lookup (fst (resolve d s)) = (lookup d)(snd (resolve d s) \<mapsto> s)"
proof -
  let ?n = "length hist"
  have fwd: "domain_to_ip d t = Some ip \<longleftrightarrow> entry hist t ip"
    and rev: "ip_to_domain d ip = Some t \<longleftrightarrow> entry hist t ip" for t ip
    using assms(1) by (auto simp: refines_def)
  have slots: "slot (?n - pool_size) = slot ?n"
    using assms(2) by (simp add: le_mod_geq)
  have "live hist (?n - pool_size)"
    using assms(2) by (simp add: live_def)
  then have e: "entry hist oldest (slot ?n)"
    unfolding entry_def assms(4) slots [symmetric] by blast
  have own: "domain_to_ip d t = Some (slot ?n) \<longleftrightarrow> t = oldest" for t
    using e rev by (metis fwd option.inject)
  have off: "POOL_START + next_offset d = slot ?n"
    using assms(1) by (intro next_slot(1)) (simp add: refines_def)
  have res: "resolve d s =
    (\<lparr>domain_to_ip = (\<lambda>t. if t = s then Some (slot ?n)
                       else if domain_to_ip d t = Some (slot ?n) then None else domain_to_ip d t),
      ip_to_domain = (ip_to_domain d)(slot ?n \<mapsto> s),
      next_offset = (next_offset d + 1) mod POOL_SIZE\<rparr>, slot ?n)"
    by (rule resolve_new_maps) (simp_all only: assms(3) off fwd rev)
  have "domain_to_ip d oldest = Some (slot ?n)" by (simp only: own)
  then show ?thesis
    by (simp only: res fst_conv snd_conv fake_dns.simps own lookup_def)
      (simp add: lookup_def fun_eq_iff)
qed

text \<open>A family of distinct names, for filling the pool.\<close>

definition names :: "nat \<Rightarrow> string list" where
  "names n = map (\<lambda>i. replicate i CHR ''a'') [0..<n]"

lemma length_names: "length (names n) = n"
  by (simp add: names_def)

lemma distinct_names: "distinct (names n)"
proof -
  have "inj (\<lambda>i. replicate i CHR ''a'')"
    by (rule injI) (metis length_replicate)
  then show ?thesis
    by (auto simp: names_def distinct_map intro: inj_on_subset)
qed

lemma hd_names: "0 < n \<Longrightarrow> names n ! 0 = []"
  by (simp add: names_def)

lemma x_notin_names: "''x'' \<notin> set (names n)"
proof
  assume "''x'' \<in> set (names n)"
  then obtain i where "''x'' = replicate i CHR ''a''" by (auto simp: names_def)
  then show False by (cases i) auto
qed

lemma refines_names: "n \<le> pool_size \<Longrightarrow> refines (names n) (resolve_all (names n) new)"
  using refines_resolve_all_distinct [OF refines_new, of "names n"]
  by (simp add: length_names distinct_names)

end
