(* ===== verification/Dns_Packet.thy ===== *)
theory Dns_Packet
  imports Rust_Str
begin

text \<open>
  The DNS datagram helpers of \<open>src/src/fake_dns.rs\<close>: reading the first question of a query and
  building the two kinds of response. Every index and slice of the Rust code is checked, and
  an out-of-range one is a \<open>Panic\<close> value, so that absence of panics is a theorem.
\<close>

section \<open>Reading a query\<close>

function parse_labels :: "bytes \<Rightarrow> nat \<Rightarrow> string list \<Rightarrow> panic + (nat \<times> string list) option" where
  "parse_labels data pos labels =
     (if length data \<le> pos then Inr None
      else result_bind (index_chk data pos) (\<lambda>b.
        if unat b = 0 then Inr (Some (pos + 1, labels))
        else if b AND 0xC0 \<noteq> 0 then Inr None
        else if length data < pos + 1 + unat b then Inr None
        else result_bind (slice_chk data (pos + 1) (pos + 1 + unat b)) (\<lambda>slice.
          case from_utf8 slice of
            None \<Rightarrow> Inr None
          | Some label \<Rightarrow> parse_labels data (pos + 1 + unat b) (labels @ [label]))))"
  by pat_completeness auto
termination
  by (relation "measure (\<lambda>(data, pos, labels). length data - pos)") auto

declare parse_labels.simps [simp del]

definition parse_query :: "bytes \<Rightarrow> panic + (u16 \<times> string \<times> u16) option" where
  "parse_query data =
     (if length data < 12 then Inr None
      else
        result_bind (index_chk data 0) (\<lambda>d0. result_bind (index_chk data 1) (\<lambda>d1.
        result_bind (index_chk data 2) (\<lambda>d2. result_bind (index_chk data 3) (\<lambda>d3.
        let ident = from_be16 d0 d1; flags = from_be16 d2 d3 in
        if flags AND 0x8000 \<noteq> 0 then Inr None
        else
          result_bind (index_chk data 4) (\<lambda>d4. result_bind (index_chk data 5) (\<lambda>d5.
          let qdcount = from_be16 d4 d5 in
          if qdcount = 0 then Inr None
          else
            result_bind (parse_labels data 12 []) (\<lambda>res.
              case res of
                None \<Rightarrow> Inr None
              | Some (pos, labels) \<Rightarrow>
                  if length data < pos + 4 then Inr None
                  else
                    result_bind (index_chk data pos) (\<lambda>t0.
                    result_bind (index_chk data (pos + 1)) (\<lambda>t1.
                      Inr (Some (ident, str_join CHR ''.'' labels, from_be16 t0 t1))))))))))))"

section \<open>Building responses\<close>

definition encode_name :: "bytes \<Rightarrow> string \<Rightarrow> bytes" where
  "encode_name buf domain =
     (if domain \<noteq> [] then
        foldl (\<lambda>buf label. (buf @ [of_nat (length label)]) @ as_bytes label) buf
          (str_split CHR ''.'' domain)
      else buf) @ [0]"

definition build_a_response :: "u16 \<Rightarrow> string \<Rightarrow> ipv4 \<Rightarrow> bytes" where
  "build_a_response ident domain ip =
     (let pkt = be16 ident @ be16 0x8180 @ be16 1 @ be16 1 @ be16 0 @ be16 0;
          pkt = encode_name pkt domain;
          pkt = pkt @ be16 1 @ be16 1
      in pkt @ be16 0xC00C @ be16 1 @ be16 1 @ be32 300 @ be16 4 @ octets ip)"

definition build_empty_response :: "u16 \<Rightarrow> string \<Rightarrow> u16 \<Rightarrow> bytes" where
  "build_empty_response ident domain qtype =
     (let pkt = be16 ident @ be16 0x8180 @ be16 1 @ be16 0 @ be16 0 @ be16 0;
          pkt = encode_name pkt domain
      in pkt @ be16 qtype @ be16 1)"

section \<open>Names on the wire\<close>

definition encode_label :: "string \<Rightarrow> bytes" where
  "encode_label l = of_nat (length l) # as_bytes l"

definition wire_name :: "string list \<Rightarrow> bytes" where
  "wire_name ls = concat (map encode_label ls) @ [0]"

text \<open>A label as a query may carry it: one to sixty-three bytes of UTF-8.\<close>

definition valid_label :: "string \<Rightarrow> bool" where
  "valid_label l \<longleftrightarrow> 0 < length l \<and> length l < 64 \<and> valid_str l"

lemma encode_labels_foldl:
  "foldl (\<lambda>buf label. (buf @ [of_nat (length label)]) @ as_bytes label) buf ls =
     buf @ concat (map encode_label ls)"
  by (induction ls arbitrary: buf) (simp_all add: encode_label_def)

lemma encode_name_eq:
  "encode_name buf domain =
     buf @ wire_name (if domain = [] then [] else str_split CHR ''.'' domain)"
  by (simp add: encode_name_def encode_labels_foldl wire_name_def del: append_assoc)

text \<open>A dot inside a label is a place where the encoded name differs: a shorter first part.\<close>

lemma wire_name_Cons: "wire_name (l # ls) = encode_label l @ wire_name ls"
  by (simp add: wire_name_def)

lemma dotted_wire_name:
  assumes "\<forall>l \<in> set ls. valid_label l" and "\<exists>l \<in> set ls. CHR ''.'' \<in> set l"
  shows "wire_name (str_split CHR ''.'' (str_join CHR ''.'' ls)) \<noteq> wire_name ls"
  using assms
proof (induction ls)
  case (Cons l ls)
  show ?case
  proof (cases "CHR ''.'' \<in> set l")
    case True
    then obtain f g where l: "l = f @ CHR ''.'' # g" "CHR ''.'' \<notin> set f" by (meson split_list_first)
    then have "\<exists>rest. str_join CHR ''.'' (l # ls) = f @ CHR ''.'' # rest" by (cases ls) auto
    then obtain ps where ps: "str_split CHR ''.'' (str_join CHR ''.'' (l # ls)) = f # ps" using l(2) by auto
    have len: "length f < length l" "length l < 64" using l(1) Cons.prems(1) by (simp_all add: valid_label_def)
    then have "(of_nat (length f) :: u8) \<noteq> of_nat (length l)" by (simp add: word_unat_eq_iff unat_of_nat take_bit_eq_mod)
    then show ?thesis unfolding ps by (simp add: wire_name_Cons encode_label_def)
  next
    case False
    with Cons.prems obtain t ts where ls: "ls = t # ts" by (cases ls) auto
    with False Cons show ?thesis by (simp add: wire_name_Cons)
  qed
qed simp

lemma encode_name_echo:
  assumes "\<forall>l \<in> set ls. valid_label l"
  shows "encode_name buf (str_join CHR ''.'' ls) = buf @ wire_name ls \<longleftrightarrow> (\<forall>l \<in> set ls. CHR ''.'' \<notin> set l)"
proof (cases "ls = []")
  case False
  with assms have "str_join CHR ''.'' ls \<noteq> []" by (auto simp: str_join_eq_Nil valid_label_def)
  then show ?thesis
    using dotted_wire_name [OF assms] False by (auto simp: encode_name_eq str_split_join)
qed (simp add: encode_name_eq)

lemma short_label_bits: "(b :: u8) AND 0xC0 = 0 \<longleftrightarrow> unat b < 64"
proof -
  have c0: "(0xC0 :: u8) = NOT (mask 6)"
    by (simp add: mask_eq_exp_minus_1)
  have "b AND NOT (mask 6) = 0 \<longleftrightarrow> b AND mask 6 = b"
    by (auto simp: bit_eq_iff bit_simps)
  also have "\<dots> \<longleftrightarrow> take_bit 6 b = b"
    by (simp add: take_bit_eq_mask)
  also have "\<dots> \<longleftrightarrow> unat b < 64"
    by (simp add: word_eq_iff_unsigned [where ?'a = nat] take_bit_eq_mod unat_word_ariths
        mod_eq_self_iff_div_eq_0 div_eq_0_iff)
  finally show ?thesis
    unfolding c0 .
qed

lemma parse_labels_wire:
  assumes "drop pos data = wire_name ls @ rest" and "\<forall>l \<in> set ls. valid_label l"
    and "pos \<le> length data"
  shows "parse_labels data pos acc = Inr (Some (pos + length (wire_name ls), acc @ ls))"
  using assms
proof (induction ls arbitrary: pos acc)
  case Nil
  then have "data ! pos = 0" "pos < length data"
    by (simp_all add: wire_name_def) (metis nth_via_drop, metis drop_eq_Nil leI list.distinct(1))
  then show ?case
    by (simp add: parse_labels.simps [of data pos] wire_name_def)
next
  case (Cons l ls)
  let ?n = "length l"
  have l: "0 < ?n" "?n < 64" "valid_str l"
    using Cons.prems(2) by (auto simp: valid_label_def)
  have dr: "drop pos data = of_nat ?n # as_bytes l @ wire_name ls @ rest"
    using Cons.prems(1) by (simp add: wire_name_def encode_label_def)
  then have b: "data ! pos = of_nat ?n" and pos: "pos < length data"
    by (metis nth_via_drop, metis drop_eq_Nil leI list.distinct(1))
  have un: "unat (of_nat ?n :: u8) = ?n"
    using l by (simp add: unat_of_nat take_bit_eq_mod)
  have d1: "drop (Suc pos) data = as_bytes l @ wire_name ls @ rest"
    using dr by (metis drop_Suc list.sel(3) tl_drop)
  have d2: "drop (Suc (pos + ?n)) data = wire_name ls @ rest"
  proof -
    have "drop ?n (drop (Suc pos) data) = wire_name ls @ rest"
      by (simp add: d1)
    then show ?thesis by (simp add: add.commute)
  qed
  have len: "Suc (pos + ?n) \<le> length data"
    using arg_cong [OF d1, of length] l pos by simp
  have sl: "take ?n (drop (Suc pos) data) = as_bytes l"
    by (simp add: d1)
  have "parse_labels data pos acc = parse_labels data (Suc (pos + ?n)) (acc @ [l])"
    using pos len l sl
    by (simp add: parse_labels.simps [of data pos] b un short_label_bits from_utf8_as_bytes)
  also have "\<dots> = Inr (Some (Suc (pos + ?n) + length (wire_name ls), (acc @ [l]) @ ls))"
    using Cons.prems(2) len by (intro Cons.IH d2) auto
  finally show ?case
    by (simp add: wire_name_def encode_label_def)
qed

text \<open>Conversely, whatever the loop accepts is the wire form of the labels it returns.\<close>

lemma parse_labels_inv:
  assumes "parse_labels data pos acc = Inr (Some (pos', ls'))" and "pos \<le> length data"
  shows "\<exists>ls. ls' = acc @ ls \<and> (\<forall>l \<in> set ls. valid_label l) \<and>
    drop pos data = wire_name ls @ drop pos' data \<and> pos' = pos + length (wire_name ls) \<and>
    pos' \<le> length data"
  using assms
proof (induction data pos acc rule: parse_labels.induct)
  case (1 data pos acc)
  have pos: "pos < length data"
    using "1.prems" by (auto simp: parse_labels.simps [of data pos] split: if_splits)
  let ?b = "data ! pos" and ?p = "pos + 1 + unat (data ! pos)"
  have dr: "drop pos data = ?b # drop (Suc pos) data"
    using pos by (simp add: Cons_nth_drop_Suc)
  show ?case
  proof (cases "unat ?b = 0")
    case True
    then have "?b = 0" by (simp add: unsigned_eq_0_iff)
    with True "1.prems" pos dr show ?thesis
      by (auto simp: parse_labels.simps [of data pos] wire_name_def)
  next
    case False
    with "1.prems" pos obtain l where small: "?b AND 0xC0 = 0" and le: "?p \<le> length data"
      and l: "from_utf8 (take (unat ?b) (drop (pos + 1) data)) = Some l"
      and rec: "parse_labels data ?p (acc @ [l]) = Inr (Some (pos', ls'))"
      by (auto simp: parse_labels.simps [of data pos] split: if_splits option.splits)
    have len: "length l = unat ?b" and vl: "valid_str l"
      and bs: "as_bytes l = take (unat ?b) (drop (pos + 1) data)"
      using from_utf8_Some [OF l] le by auto
    obtain ls where IH: "ls' = (acc @ [l]) @ ls" "\<forall>x \<in> set ls. valid_label x"
      "drop ?p data = wire_name ls @ drop pos' data" "pos' = ?p + length (wire_name ls)"
      "pos' \<le> length data"
      using "1.IH" [of ?b "take (unat ?b) (drop (pos + 1) data)" l] pos False small le l rec
      by auto
    have "drop (Suc pos) data = as_bytes l @ drop ?p data"
      using bs append_take_drop_id [of "unat ?b" "drop (Suc pos) data"] by (simp add: add.commute)
    with dr IH len have "drop pos data = wire_name (l # ls) @ drop pos' data"
      by (simp add: wire_name_def encode_label_def)
    moreover have "valid_label l"
      using False len vl small by (simp add: valid_label_def short_label_bits)
    ultimately show ?thesis
      using IH len by (intro exI [of _ "l # ls"]) (auto simp: wire_name_def encode_label_def)
  qed
qed

lemma parse_labels_total: "\<exists>r. parse_labels data pos acc = Inr r"
proof (induction data pos acc rule: parse_labels.induct)
  case (1 data pos acc)
  then show ?case
    by (cases "pos < length data")
      (auto simp: parse_labels.simps [of data pos] split: option.splits)
qed

section \<open>Queries\<close>

text \<open>
  The twelve header bytes of a datagram, and the layout of a query: a header without the QR
  bit and with at least one question, the name, the type, the class and anything after it.
\<close>

definition query_header :: "bytes \<Rightarrow> bool" where
  "query_header h \<longleftrightarrow> length h = 12 \<and> from_be16 (h ! 2) (h ! 3) AND 0x8000 = 0 \<and>
     from_be16 (h ! 4) (h ! 5) \<noteq> 0"

definition header_id :: "bytes \<Rightarrow> u16" where
  "header_id h = from_be16 (h ! 0) (h ! 1)"

lemma parse_query_header:
  assumes "12 \<le> length data"
  shows "parse_query data =
    (if \<not> query_header (take 12 data) then Inr None
     else result_bind (parse_labels data 12 []) (\<lambda>res.
       case res of
         None \<Rightarrow> Inr None
       | Some (pos, labels) \<Rightarrow>
           if length data < pos + 4 then Inr None
           else Inr (Some (header_id (take 12 data), str_join CHR ''.'' labels,
             from_be16 (data ! pos) (data ! Suc pos)))))"
proof -
  obtain r where "parse_labels data 12 [] = Inr r"
    using parse_labels_total by blast
  moreover have "data \<noteq> []" using assms by auto
  ultimately show ?thesis
    using assms
    by (cases r) (auto simp: parse_query_def query_header_def header_id_def Let_def)
qed

lemma parse_query_wire:
  assumes "query_header h" and "\<forall>l \<in> set ls. valid_label l"
  shows "parse_query (h @ wire_name ls @ be16 qtype @ be16 qclass @ rest) =
    Inr (Some (header_id h, str_join CHR ''.'' ls, qtype))"
proof -
  let ?data = "h @ wire_name ls @ be16 qtype @ be16 qclass @ rest"
  have h: "length h = 12" using assms(1) by (simp add: query_header_def)
  have "parse_labels ?data 12 [] = Inr (Some (12 + length (wire_name ls), [] @ ls))"
    using assms(2) h by (intro parse_labels_wire [of 12 ?data ls "be16 qtype @ be16 qclass @ rest"]) auto
  moreover have "from_be16 (?data ! (12 + length (wire_name ls)))
      (?data ! Suc (12 + length (wire_name ls))) = qtype"
    using h by (simp add: nth_append be16_def)
  ultimately show ?thesis
    using assms(1) h by (simp add: parse_query_header)
qed

lemma parse_query_inv:
  assumes "parse_query data = Inr (Some (ident, domain, qtype))"
  obtains ls qclass rest where "\<forall>l \<in> set ls. valid_label l" "domain = str_join CHR ''.'' ls"
    "query_header (take 12 data)" "ident = header_id (take 12 data)"
    "data = take 12 data @ wire_name ls @ be16 qtype @ be16 qclass @ rest"
proof -
  have len: "12 \<le> length data"
    using assms by (auto simp: parse_query_def split: if_splits)
  with assms obtain pos labels where hd: "query_header (take 12 data)"
    and lb: "parse_labels data 12 [] = Inr (Some (pos, labels))" and le: "pos + 4 \<le> length data"
    and eqs: "ident = header_id (take 12 data)" "domain = str_join CHR ''.'' labels"
      "qtype = from_be16 (data ! pos) (data ! Suc pos)"
    by (auto simp: parse_query_header result_bind_Inr_iff not_less
        split: if_splits option.splits prod.splits)
  from parse_labels_inv [OF lb len] have vl: "\<forall>l \<in> set labels. valid_label l"
    and dr: "drop 12 data = wire_name labels @ drop pos data"
    by auto
  let ?c0 = "data ! Suc (Suc pos)" and ?c1 = "data ! Suc (Suc (Suc pos))"
  have d: "drop pos data = [data ! pos, data ! Suc pos] @ [?c0, ?c1] @ drop (pos + 4) data"
    using le by (simp add: Cons_nth_drop_Suc numeral_eq_Suc)
  have "data = take 12 data @ wire_name labels @ be16 qtype @ be16 (from_be16 ?c0 ?c1) @
      drop (pos + 4) data"
    using append_take_drop_id [of 12 data] unfolding dr d eqs(3) be16_from_be16
    by (simp add: dr d)
  from that [OF vl eqs(2) hd eqs(1) this] show ?thesis .
qed

lemma parse_query_total: "\<exists>r. parse_query data = Inr r"
proof (cases "length data < 12")
  case True
  then show ?thesis by (simp add: parse_query_def)
next
  case False
  obtain r where "parse_labels data 12 [] = Inr r"
    using parse_labels_total by blast
  with False show ?thesis
    by (cases r) (auto simp: parse_query_header)
qed

section \<open>Properties\<close>

text \<open>
  C15. Which datagrams are queries: the parser returns the identifier, name and type exactly for
  a datagram made of a query header, a name of valid labels, a type, a class and anything
  after it, and the name it returns is these labels joined with dots.
\<close>

theorem parse_query_iff:
  "parse_query data = Inr (Some (ident, domain, qtype)) \<longleftrightarrow>
    (\<exists>h ls qclass rest. data = h @ wire_name ls @ be16 qtype @ be16 qclass @ rest \<and>
       query_header h \<and> ident = header_id h \<and> (\<forall>l \<in> set ls. valid_label l) \<and>
       domain = str_join CHR ''.'' ls)" (is "?L = ?R")
proof
  assume ?L
  then obtain ls qclass rest where "\<forall>l \<in> set ls. valid_label l" "domain = str_join CHR ''.'' ls"
    "query_header (take 12 data)" "ident = header_id (take 12 data)"
    "data = take 12 data @ wire_name ls @ be16 qtype @ be16 qclass @ rest"
    by (rule parse_query_inv)
  then show ?R by blast
next
  assume ?R
  then show ?L by (auto simp: parse_query_wire)
qed

theorem parse_query_iff_witness:
  "parse_query ([0x12, 0x34, 1, 0, 0, 1, 0, 0, 0, 0, 0, 0] @ wire_name [''abc''] @ be16 1 @ be16 1 @ [])
   = Inr (Some (0x1234, ''abc'', 1))"
proof -
  have "query_header [0x12, 0x34, 1, 0, 0, 1, 0, 0, 0, 0, 0, 0]"
    "header_id [0x12, 0x34, 1, 0, 0, 1, 0, 0, 0, 0, 0, 0] = 0x1234"
    by (simp_all add: query_header_def header_id_def from_be16_def)
  moreover have "valid_label ''abc''"
    by (simp add: valid_label_def ascii_valid_str is_ascii_def)
  ultimately show ?thesis
    unfolding parse_query_iff
    by (intro exI [of _ "[0x12, 0x34, 1, 0, 0, 1, 0, 0, 0, 0, 0, 0]"] exI [of _ "[''abc'']"]
        exI [of _ 1] exI [of _ "[]"]) simp
qed

text \<open>
  Responses are not queries: whatever the identifier, name, address or type, the parser
  ignores a datagram built by either response builder, so the proxy never answers itself.
\<close>

lemma parse_query_rejects_responses:
  "parse_query (build_a_response ident domain ip) = Inr None \<and>
   parse_query (build_empty_response ident domain qtype) = Inr None"
proof -
  have "parse_query (be16 ident @ be16 0x8180 @ rest) = Inr None" if "8 \<le> length rest" for rest
    using that by (simp add: parse_query_header query_header_def be16_def from_be16_def)
  from this [of "_ @ _"] show ?thesis
    by (simp add: build_a_response_def build_empty_response_def encode_name_eq)
qed

text \<open>
  C16. When the answer repeats the question: for an accepted query, the response is the identifier of
  the query, a header without errors, the name and the type exactly as they were on the wire, and
  for the A response (which always carries type 1) the address, if and only if no label of the name
  contains a dot. The parser also accepts labels with dots; the response to such a query asks
  about another name.
\<close>

theorem response_echoes_question:
  assumes "query_header h" and "\<forall>l \<in> set ls. valid_label l"
    and "parse_query (h @ wire_name ls @ be16 qtype @ be16 qclass @ rest) =
      Inr (Some (ident, domain, qtype'))"
  shows "(build_empty_response ident domain qtype' =
      take 2 h @ be16 0x8180 @ be16 1 @ be16 0 @ be16 0 @ be16 0 @
      wire_name ls @ be16 qtype @ be16 1 \<longleftrightarrow> (\<forall>l \<in> set ls. CHR ''.'' \<notin> set l)) \<and>
    (build_a_response ident domain ip =
      take 2 h @ be16 0x8180 @ be16 1 @ be16 1 @ be16 0 @ be16 0 @ wire_name ls @ be16 1 @ be16 1 @
      be16 0xC00C @ be16 1 @ be16 1 @ be32 300 @ be16 4 @ octets ip \<longleftrightarrow> (\<forall>l \<in> set ls. CHR ''.'' \<notin> set l))"
proof -
  from parse_query_wire [OF assms(1,2)] assms(3)
  have eqs: "ident = header_id h" "domain = str_join CHR ''.'' ls" "qtype' = qtype"
    by simp_all
  obtain a b h' where h: "h = a # b # h'"
    using assms(1) by (cases h; cases "tl h") (auto simp: query_header_def)
  have id: "be16 ident = take 2 h"
    by (simp add: eqs(1) header_id_def h)
  have enc: "encode_name buf t = buf @ encode_name [] t" for buf t by (simp add: encode_name_eq)
  show ?thesis
    using encode_name_echo [OF assms(2), of "[]"]
    by (simp add: build_empty_response_def build_a_response_def Let_def id enc [of "take 2 h @ _"] eqs(2,3))
qed

theorem response_echoes_question_witness:
  "build_a_response 0x1234 ''ab.c'' 0xC6120001 =
     [0x12, 0x34, 0x81, 0x80, 0, 1, 0, 1, 0, 0, 0, 0, 2, 97, 98, 1, 99, 0, 0, 1, 0, 1,
      0xC0, 12, 0, 1, 0, 1, 0, 0, 1, 44, 0, 4, 198, 18, 0, 1]"
proof -
  let ?h = "[0x12, 0x34, 1, 0, 0, 1, 0, 0, 0, 0, 0, 0] :: bytes"
  have h: "query_header ?h" "header_id ?h = 0x1234"
    by (simp_all add: query_header_def header_id_def from_be16_def)
  have ls: "\<forall>l \<in> set [''ab'', ''c'']. valid_label l"
    by (simp add: valid_label_def ascii_valid_str is_ascii_def)
  have "parse_query (?h @ wire_name [''ab'', ''c''] @ be16 1 @ be16 1 @ []) =
      Inr (Some (0x1234, ''ab.c'', 1))"
    using ls by (subst parse_query_wire [OF h(1)]) (auto simp: h(2))
  from response_echoes_question [where ip = "0xC6120001", OF h(1) ls this] show ?thesis
    by (simp add: wire_name_def encode_label_def as_bytes_def byte_of_char_def be16_def be32_def)
qed

text \<open>
  A limit of the echo: a label that contains a dot is accepted by the parser, but the name is
  then split at that dot when the response is built, so the response asks about a different
  name than the query did and a client that compares the question section discards it.
\<close>

lemma dotted_label_changes_question:
  "\<exists>h name. query_header h \<and> (\<exists>domain.
     parse_query (h @ name @ be16 1 @ be16 1) = Inr (Some (header_id h, domain, 1)) \<and>
     encode_name [] domain \<noteq> name)"
proof -
  let ?h = "[0x12, 0x34, 1, 0, 0, 1, 0, 0, 0, 0, 0, 0] :: bytes"
  have h: "query_header ?h"
    by (simp add: query_header_def from_be16_def)
  have "\<forall>l \<in> set [''a.b'']. valid_label l"
    by (simp add: valid_label_def ascii_valid_str is_ascii_def)
  from parse_query_wire [OF h this, of 1 1 "[]"]
  have "parse_query (?h @ wire_name [''a.b''] @ be16 1 @ be16 1) =
      Inr (Some (header_id ?h, ''a.b'', 1))"
    by simp
  moreover have "encode_name [] ''a.b'' \<noteq> wire_name [''a.b'']"
    by (simp add: encode_name_eq wire_name_def encode_label_def)
  ultimately show ?thesis using h by blast
qed

end
