(* ===== verification/Prefix_Trie.thy ===== *)
theory Prefix_Trie
  imports Prelude
begin

text \<open>
  The IPv4 longest-prefix matcher of \<open>src/src/rule.rs\<close>: a binary trie over the bits of an
  address, most significant first. Its specification is the ordered list of rules that were
  inserted; lookup selects the matching rule with the longest prefix, the first one when
  prefixes are equally long.
\<close>

section \<open>The trie\<close>

text \<open>The two children (bit 0, bit 1) and the action of a node.\<close>

datatype 'a prefix_trie =
  Trie (child0: "'a prefix_trie option") (child1: "'a prefix_trie option") (action: "'a option")

definition trie_default :: "'a prefix_trie" where
  "trie_default = Trie None None None"

text \<open>\<open>((value >> (31 - i)) & 1)\<close>\<close>

definition bit_at :: "u32 \<Rightarrow> nat \<Rightarrow> u32" where
  "bit_at value i = drop_bit (31 - i) value AND 1"

definition child :: "'a prefix_trie \<Rightarrow> u32 \<Rightarrow> 'a prefix_trie option" where
  "child node b = (if b = 0 then child0 node else child1 node)"

definition get_or_default :: "'a prefix_trie option \<Rightarrow> 'a prefix_trie" where
  "get_or_default c = (case c of None \<Rightarrow> trie_default | Some t \<Rightarrow> t)"

text \<open>
  \<open>for i in 0..prefix\<close>: the first argument counts the iterations left, the second is \<open>i\<close>.
  The cursor into the trie becomes a rebuild of the path it walks.
\<close>

primrec insert_from :: "nat \<Rightarrow> nat \<Rightarrow> u32 \<Rightarrow> 'a \<Rightarrow> 'a prefix_trie \<Rightarrow> 'a prefix_trie" where
  "insert_from 0 i value act node =
     (if action node = None then Trie (child0 node) (child1 node) (Some act) else node)"
| "insert_from (Suc k) i value act node =
     (let next = insert_from k (Suc i) value act (get_or_default (child node (bit_at value i)))
      in if bit_at value i = 0 then Trie (Some next) (child1 node) (action node)
         else Trie (child0 node) (Some next) (action node))"

definition trie_insert :: "'a prefix_trie \<Rightarrow> u32 \<Rightarrow> u8 \<Rightarrow> 'a \<Rightarrow> 'a prefix_trie" where
  "trie_insert self value prefix act = insert_from (unat prefix) 0 value act self"

primrec get_from :: "nat \<Rightarrow> nat \<Rightarrow> u32 \<Rightarrow> 'a prefix_trie \<Rightarrow> 'a option \<Rightarrow> 'a option" where
  "get_from 0 i value node best = best"
| "get_from (Suc k) i value node best =
     (case child node (bit_at value i) of
        None \<Rightarrow> best
      | Some next \<Rightarrow>
          get_from k (Suc i) value next (if action next \<noteq> None then action next else best))"

definition trie_get :: "'a prefix_trie \<Rightarrow> u32 \<Rightarrow> 'a option" where
  "trie_get self value = get_from 32 0 value self (action self)"

section \<open>Rules and the selected rule\<close>

text \<open>The leading bits of an address, most significant first.\<close>

definition bits :: "u32 \<Rightarrow> bool list" where
  "bits w = map (\<lambda>i. bit w (31 - i)) [0..<32]"

type_synonym 'a ip_rule = "u32 \<times> u8 \<times> 'a"

abbreviation rule_value :: "'a ip_rule \<Rightarrow> u32" where
  "rule_value r \<equiv> fst r"

abbreviation rule_prefix :: "'a ip_rule \<Rightarrow> nat" where
  "rule_prefix r \<equiv> unat (fst (snd r))"

abbreviation rule_action :: "'a ip_rule \<Rightarrow> 'a" where
  "rule_action r \<equiv> snd (snd r)"

definition covers :: "'a ip_rule \<Rightarrow> u32 \<Rightarrow> bool" where
  "covers r ip \<longleftrightarrow> take (rule_prefix r) (bits (rule_value r)) = take (rule_prefix r) (bits ip)"

text \<open>Rule number \<open>i\<close> is the one that longest-prefix matching with first-wins ties selects.\<close>

definition selected :: "'a ip_rule list \<Rightarrow> u32 \<Rightarrow> nat \<Rightarrow> bool" where
  "selected rs ip i \<longleftrightarrow>
     i < length rs \<and> covers (rs ! i) ip \<and>
     (\<forall>j < length rs. covers (rs ! j) ip \<longrightarrow>
        rule_prefix (rs ! j) < rule_prefix (rs ! i) \<or>
        rule_prefix (rs ! j) = rule_prefix (rs ! i) \<and> i \<le> j)"

definition build :: "'a ip_rule list \<Rightarrow> 'a prefix_trie" where
  "build rs = foldl (\<lambda>t (v, p, a). trie_insert t v p a) trie_default rs"

section \<open>Paths\<close>

lemma length_bits [simp]: "length (bits w) = 32"
  by (simp add: bits_def)

lemma bit_at_iff: "i < 32 \<Longrightarrow> bit_at value i = 0 \<longleftrightarrow> \<not> bits value ! i"
  by (simp add: bit_at_def bits_def and_one_eq even_drop_bit_iff_not_bit mod2_eq_if)

primrec at :: "bool list \<Rightarrow> 'a prefix_trie \<Rightarrow> 'a option" where
  "at [] t = action t"
| "at (b # bs) t =
     (case (if b then child1 t else child0 t) of None \<Rightarrow> None | Some c \<Rightarrow> at bs c)"

lemma at_default [simp]: "at bs trie_default = None"
  by (cases bs) (simp_all add: trie_default_def)

lemma at_child: "i < 32 \<Longrightarrow>
   at (bits value ! i # bs) t = at bs (get_or_default (child t (bit_at value i)))"
  by (simp add: child_def bit_at_iff get_or_default_def split: option.splits)

lemma at_insert_from:
  "i + k \<le> 32 \<Longrightarrow>
   at bs (insert_from k i value act t) =
     (if bs = take k (drop i (bits value)) \<and> at bs t = None then Some act else at bs t)"
proof (induction k arbitrary: i t bs)
  case 0
  then show ?case by (cases bs) auto
next
  case (Suc k)
  have tk: "take (Suc k) (drop i (bits value)) = bits value ! i # take k (drop (Suc i) (bits value))"
    using Suc.prems by (simp add: Cons_nth_drop_Suc [symmetric])
  show ?case
  proof (cases bs)
    case Nil
    with tk show ?thesis by (simp add: Let_def)
  next
    case (Cons b bs')
    show ?thesis
    proof (cases "b = bits value ! i")
      case True
      let ?c = "get_or_default (child t (bit_at value i))"
      have e1: "at bs (insert_from (Suc k) i value act t) = at bs' (insert_from k (Suc i) value act ?c)"
        using Suc.prems Cons True by (simp add: Let_def bit_at_iff)
      have e2: "at bs t = at bs' ?c"
        using Suc.prems Cons True by (simp only: at_child)
      have e3: "bs = take (Suc k) (drop i (bits value)) \<longleftrightarrow> bs' = take k (drop (Suc i) (bits value))"
        using Cons True tk by simp
      show ?thesis
        unfolding e1 e2 e3 using Suc.prems by (intro Suc.IH) simp
    next
      case False
      with Suc.prems Cons tk show ?thesis by (auto simp: bit_at_iff Let_def)
    qed
  qed
qed

lemma at_trie_insert:
  "unat p \<le> 32 \<Longrightarrow>
   at bs (trie_insert t v p a) =
     (if bs = take (unat p) (bits v) \<and> at bs t = None then Some a else at bs t)"
  by (simp add: trie_insert_def at_insert_from)

text \<open>The last action on the path that follows the given bits, or the default.\<close>

fun longest :: "bool list \<Rightarrow> nat \<Rightarrow> 'a prefix_trie \<Rightarrow> 'a option \<Rightarrow> 'a option" where
  "longest bs 0 t best = best"
| "longest bs (Suc k) t best =
     (case at (take (Suc k) bs) t of Some a \<Rightarrow> Some a | None \<Rightarrow> longest bs k t best)"

lemma longest_shift:
  "length bs = n \<Longrightarrow> k \<le> n \<Longrightarrow>
   longest (b # bs) (Suc k) t best =
     (case (if b then child1 t else child0 t) of
        None \<Rightarrow> best
      | Some c \<Rightarrow> longest bs k c (if action c \<noteq> None then action c else best))"
  by (induction k) (auto split: option.splits)

lemma longest_no_path:
  "(\<And>j. 0 < j \<Longrightarrow> j \<le> k \<Longrightarrow> at (take j bs) t = None) \<Longrightarrow> longest bs k t best = best"
  by (induction k) auto

lemma get_from_longest:
  "i + k = 32 \<Longrightarrow> get_from k i value t best = longest (drop i (bits value)) k t best"
proof (induction k arbitrary: i t best)
  case 0
  then show ?case by simp
next
  case (Suc k)
  then have dr: "drop i (bits value) = bits value ! i # drop (Suc i) (bits value)"
    by (simp add: Cons_nth_drop_Suc)
  show ?case
    using Suc.prems Suc.IH [of "Suc i"]
    by (simp only: dr longest_shift [where n = k] length_drop length_bits)
      (simp add: child_def bit_at_iff split: option.splits)
qed

lemma longest_Some_iff:
  "longest bs k t best = Some a \<longleftrightarrow>
    (\<exists>j. 0 < j \<and> j \<le> k \<and> at (take j bs) t = Some a \<and>
       (\<forall>m. j < m \<and> m \<le> k \<longrightarrow> at (take m bs) t = None)) \<or>
    (\<forall>m. 0 < m \<and> m \<le> k \<longrightarrow> at (take m bs) t = None) \<and> best = Some a"
proof (induction k)
  case 0
  then show ?case by simp
next
  case (Suc k)
  then show ?case
    by (cases "at (take (Suc k) bs) t") (auto simp: le_Suc_eq)
qed

lemma ex_le_split: "(\<exists>j \<le> n. P j) \<longleftrightarrow> (\<exists>j. 0 < j \<and> j \<le> n \<and> P j) \<or> P 0" for n :: nat
  by (metis gr0I le0)

text \<open>What lookup returns: the action of the longest stored prefix of the address.\<close>

lemma trie_get_Some_iff:
  "trie_get t ip = Some a \<longleftrightarrow>
    (\<exists>j \<le> 32. at (take j (bits ip)) t = Some a \<and>
       (\<forall>m. j < m \<and> m \<le> 32 \<longrightarrow> at (take m (bits ip)) t = None))"
  unfolding trie_get_def get_from_longest [of 0 32, simplified] longest_Some_iff
    ex_le_split [of 32]
  by auto

section \<open>Lookup in a built table\<close>

definition rule_path :: "'a ip_rule \<Rightarrow> bool list" where
  "rule_path r = take (rule_prefix r) (bits (rule_value r))"

lemma find_snoc:
  "find P (xs @ [x]) = (case find P xs of Some y \<Rightarrow> Some y | None \<Rightarrow> if P x then Some x else None)"
  by (induction xs) auto

lemma at_build:
  "\<forall>r \<in> set rs. rule_prefix r \<le> 32 \<Longrightarrow>
   at bs (build rs) = map_option rule_action (find (\<lambda>r. rule_path r = bs) rs)"
proof (induction rs rule: rev_induct)
  case Nil
  then show ?case by (simp add: build_def)
next
  case (snoc r rs)
  have "build (rs @ [r]) = trie_insert (build rs) (rule_value r) (fst (snd r)) (rule_action r)"
    by (simp add: build_def split: prod.splits)
  with snoc show ?case
    by (auto simp: at_trie_insert find_snoc rule_path_def split: option.splits)
qed

lemma find_Some_least:
  "find P xs = Some x \<longleftrightarrow> (\<exists>i < length xs. xs ! i = x \<and> P x \<and> (\<forall>j < i. \<not> P (xs ! j)))"
  by (auto simp: find_Some_iff)

lemma length_rule_path: "rule_prefix r \<le> 32 \<Longrightarrow> length (rule_path r) = rule_prefix r"
  by (simp add: rule_path_def)

lemma covers_iff: "rule_prefix r \<le> 32 \<Longrightarrow>
   covers r ip \<longleftrightarrow> rule_path r = take (rule_prefix r) (bits ip)"
  by (simp add: covers_def rule_path_def)

lemma rule_path_eq_take:
  "rule_prefix r \<le> 32 \<Longrightarrow> j \<le> 32 \<Longrightarrow>
   rule_path r = take j (bits ip) \<longleftrightarrow> rule_prefix r = j \<and> covers r ip"
  by (metis covers_iff length_rule_path length_bits length_take min.absorb2)

lemma at_build_None_iff:
  assumes "\<forall>r \<in> set rs. rule_prefix r \<le> 32" and "j \<le> 32"
  shows "at (take j (bits ip)) (build rs) = None \<longleftrightarrow>
    (\<forall>r \<in> set rs. covers r ip \<longrightarrow> rule_prefix r \<noteq> j)"
proof -
  have "at (take j (bits ip)) (build rs) = None \<longleftrightarrow> (\<forall>r \<in> set rs. rule_path r \<noteq> take j (bits ip))"
    by (simp add: at_build [OF assms(1)] find_None_iff Ball_def del: split_paired_All split_paired_Ex)
  with assms show ?thesis
    by (metis rule_path_eq_take)
qed

lemma least_index_cong:
  "(\<And>i. i < n \<Longrightarrow> P i \<longleftrightarrow> Q i) \<Longrightarrow>
   (\<exists>i < n. A i \<and> P i \<and> (\<forall>k < i. \<not> P k)) \<longleftrightarrow> (\<exists>i < n. A i \<and> Q i \<and> (\<forall>k < i. \<not> Q k))" for n :: nat
  by (metis less_trans)

lemma at_build_Some_iff:
  assumes "\<forall>r \<in> set rs. rule_prefix r \<le> 32" and "j \<le> 32"
  shows "at (take j (bits ip)) (build rs) = Some a \<longleftrightarrow>
    (\<exists>i < length rs. rule_action (rs ! i) = a \<and> (covers (rs ! i) ip \<and> rule_prefix (rs ! i) = j) \<and>
       (\<forall>k < i. \<not> (covers (rs ! k) ip \<and> rule_prefix (rs ! k) = j)))"
proof -
  have p: "rule_path (rs ! i) = take j (bits ip) \<longleftrightarrow> covers (rs ! i) ip \<and> rule_prefix (rs ! i) = j"
    if "i < length rs" for i
    using rule_path_eq_take [of "rs ! i" j] assms that by auto
  have "at (take j (bits ip)) (build rs) = Some a \<longleftrightarrow>
    (\<exists>i < length rs. rule_action (rs ! i) = a \<and> rule_path (rs ! i) = take j (bits ip) \<and>
       (\<forall>k < i. rule_path (rs ! k) \<noteq> take j (bits ip)))"
    unfolding at_build [OF assms(1)] map_option_eq_Some find_Some_least by blast
  also have "\<dots> \<longleftrightarrow>
    (\<exists>i < length rs. rule_action (rs ! i) = a \<and> (covers (rs ! i) ip \<and> rule_prefix (rs ! i) = j) \<and>
       (\<forall>k < i. \<not> (covers (rs ! k) ip \<and> rule_prefix (rs ! k) = j)))"
    by (rule least_index_cong) (rule p)
  finally show ?thesis .
qed

lemma first_max_iff:
  fixes p :: "nat \<Rightarrow> nat"
  assumes "i < n"
  shows "(\<forall>j < n. c j \<longrightarrow> p j < p i \<or> p j = p i \<and> i \<le> j) \<longleftrightarrow>
    (\<forall>k < i. \<not> (c k \<and> p k = p i)) \<and> (\<forall>j < n. c j \<longrightarrow> p j \<le> p i)" (is "?L = ?R")
proof
  assume L: ?L
  have "\<not> (c k \<and> p k = p i)" if "k < i" for k
    using L [rule_format, of k] that assms by auto
  moreover have "p j \<le> p i" if "j < n" "c j" for j
    using L [rule_format, of j] that by auto
  ultimately show ?R by blast
next
  assume R: ?R
  show ?L
  proof (intro allI impI)
    fix j assume "j < n" "c j"
    with R have "p j \<le> p i" "j < i \<longrightarrow> p j \<noteq> p i" by auto
    then show "p j < p i \<or> p j = p i \<and> i \<le> j" by linarith
  qed
qed

lemma selected_iff:
  "selected rs ip i \<longleftrightarrow> i < length rs \<and> covers (rs ! i) ip \<and>
     (\<forall>k < i. \<not> (covers (rs ! k) ip \<and> rule_prefix (rs ! k) = rule_prefix (rs ! i))) \<and>
     (\<forall>r \<in> set rs. covers r ip \<longrightarrow> rule_prefix r \<le> rule_prefix (rs ! i))"
  using first_max_iff [of i "length rs" "\<lambda>j. covers (rs ! j) ip" "\<lambda>j. rule_prefix (rs ! j)"]
  unfolding selected_def all_set_conv_all_nth by blast

lemma trie_get_build:
  assumes "\<forall>r \<in> set rs. rule_prefix r \<le> 32"
  shows "trie_get (build rs) ip = Some a \<longleftrightarrow> (\<exists>i. selected rs ip i \<and> rule_action (rs ! i) = a)"
proof
  assume "trie_get (build rs) ip = Some a"
  then obtain j where j: "j \<le> 32" "at (take j (bits ip)) (build rs) = Some a"
    and none: "\<And>m. j < m \<Longrightarrow> m \<le> 32 \<Longrightarrow> at (take m (bits ip)) (build rs) = None"
    by (auto simp: trie_get_Some_iff)
  from j obtain i where i: "i < length rs" "rule_action (rs ! i) = a" "covers (rs ! i) ip"
    "rule_prefix (rs ! i) = j" "\<forall>k < i. \<not> (covers (rs ! k) ip \<and> rule_prefix (rs ! k) = j)"
    by (auto simp: at_build_Some_iff [OF assms j(1)])
  have "rule_prefix r \<le> j" if "r \<in> set rs" "covers r ip" for r
    using none [of "rule_prefix r"] assms that
    by (metis at_build_None_iff not_le)
  with i show "\<exists>i. selected rs ip i \<and> rule_action (rs ! i) = a"
    by (auto simp: selected_iff)
next
  assume "\<exists>i. selected rs ip i \<and> rule_action (rs ! i) = a"
  then obtain i where s: "selected rs ip i" and a: "rule_action (rs ! i) = a" by blast
  let ?j = "rule_prefix (rs ! i)"
  have i: "i < length rs" "?j \<le> 32" using s assms by (auto simp: selected_def)
  have "at (take ?j (bits ip)) (build rs) = Some a"
    unfolding at_build_Some_iff [OF assms i(2)]
    using s a i(1) by (intro exI [of _ i]) (auto simp: selected_iff)
  moreover have "at (take m (bits ip)) (build rs) = None" if "?j < m" "m \<le> 32" for m
    using s that by (fastforce simp: at_build_None_iff [OF assms] selected_iff)
  ultimately show "trie_get (build rs) ip = Some a"
    using i(2) by (auto simp: trie_get_Some_iff)
qed

lemma selected_unique: "selected rs ip i \<Longrightarrow> selected rs ip j \<Longrightarrow> i = j"
  unfolding selected_def by (metis le_antisym less_asym less_irrefl)

lemma selected_exists:
  assumes "k < length rs" and "covers (rs ! k) ip"
  shows "\<exists>i. selected rs ip i"
proof -
  let ?M = "{j. j < length rs \<and> covers (rs ! j) ip}"
  let ?m = "Max ((\<lambda>j. rule_prefix (rs ! j)) ` ?M)"
  let ?i = "LEAST j. j \<in> ?M \<and> rule_prefix (rs ! j) = ?m"
  have fin: "finite ?M" and ne: "?M \<noteq> {}" using assms by auto
  then have "?m \<in> (\<lambda>j. rule_prefix (rs ! j)) ` ?M"
    by (intro Max_in) auto
  then obtain j where "j \<in> ?M \<and> rule_prefix (rs ! j) = ?m" by auto
  then have i: "?i \<in> ?M \<and> rule_prefix (rs ! ?i) = ?m"
    by (rule LeastI)
  have le: "rule_prefix (rs ! j) \<le> rule_prefix (rs ! ?i)" if "j \<in> ?M" for j
    using i fin that by (auto intro: Max_ge)
  have "?i \<le> j" if "j \<in> ?M" "rule_prefix (rs ! j) = rule_prefix (rs ! ?i)" for j
    using i that by (intro Least_le) simp
  with i le have "selected rs ip ?i"
    unfolding selected_def by (metis (mono_tags, lifting) le_neq_implies_less mem_Collect_eq)
  then show ?thesis ..
qed

section \<open>The interface the rule matcher relies on\<close>

locale longest_prefix_table =
  fixes empty :: 't
    and insert :: "'t \<Rightarrow> u32 \<Rightarrow> u8 \<Rightarrow> 'a \<Rightarrow> 't"
    and get :: "'t \<Rightarrow> u32 \<Rightarrow> 'a option"
  assumes get_table: "\<forall>r \<in> set rs. rule_prefix r \<le> 32 \<Longrightarrow>
    get (foldl (\<lambda>t (v, p, a). insert t v p a) empty rs) ip = Some act \<longleftrightarrow>
    (\<exists>i. selected rs ip i \<and> rule_action (rs ! i) = act)"
begin

definition table :: "'a ip_rule list \<Rightarrow> 't" where
  "table rs = foldl (\<lambda>t (v, p, a). insert t v p a) empty rs"

lemma table_selected:
  "\<forall>r \<in> set rs. rule_prefix r \<le> 32 \<Longrightarrow> selected rs ip i \<Longrightarrow>
   get (table rs) ip = Some (rule_action (rs ! i))"
  unfolding table_def using get_table by blast

lemma table_None:
  assumes "\<forall>r \<in> set rs. rule_prefix r \<le> 32"
  shows "get (table rs) ip = None \<longleftrightarrow> (\<forall>r \<in> set rs. \<not> covers r ip)"
proof -
  have "get (table rs) ip = None \<longleftrightarrow> (\<forall>i. \<not> selected rs ip i)"
    unfolding table_def using get_table [OF assms] by (metis not_None_eq)
  also have "\<dots> \<longleftrightarrow> (\<forall>r \<in> set rs. \<not> covers r ip)"
    by (metis in_set_conv_nth nth_mem selected_def selected_exists)
  finally show ?thesis .
qed

text \<open>A host rule (prefix 32) wins over every network rule; the first host rule wins.\<close>

lemma table_host:
  assumes "\<forall>r \<in> set rs. rule_prefix r \<le> 32" and "i < length rs" and "covers (rs ! i) ip"
    and "rule_prefix (rs ! i) = 32"
    and "\<forall>j < i. covers (rs ! j) ip \<longrightarrow> rule_prefix (rs ! j) \<noteq> 32"
  shows "get (table rs) ip = Some (rule_action (rs ! i))"
  using assms by (intro table_selected) (auto simp: selected_iff)

end

interpretation pt: longest_prefix_table trie_default trie_insert trie_get
  by unfold_locales (simp add: trie_get_build [unfolded build_def])

lemma pt_table_eq: "pt.table = build"
  by (rule ext) (simp add: pt.table_def build_def)

section \<open>Properties\<close>

text \<open>
  C17. Longest-prefix matching: in the trie built from any ordered list of rules, looking an
  address up returns the action of the covering rule with the longest prefix, the first such
  rule when several prefixes are equally long, and nothing exactly when no rule covers it.
\<close>

theorem trie_longest_prefix_match:
  assumes "\<forall>r \<in> set rs. rule_prefix r \<le> 32"
  shows "(\<forall>i. selected rs ip i \<longrightarrow> trie_get (build rs) ip = Some (rule_action (rs ! i))) \<and>
    (trie_get (build rs) ip = None \<longleftrightarrow> (\<forall>r \<in> set rs. \<not> covers r ip))"
  using pt.table_selected [OF assms] pt.table_None [OF assms] by (simp add: pt_table_eq)

theorem trie_longest_prefix_match_witness:
  "trie_get (build [(0x0A000000, 8, ''a''), (0x0A010000, 16, ''b''), (0x0A010000, 16, ''c'')])
     0x0A010203 = Some ''b''"
proof -
  let ?rs = "[(0x0A000000, 8, ''a''), (0x0A010000, 16, ''b''), (0x0A010000, 16, ''c'')]
    :: string ip_rule list"
  have "covers (?rs ! 0) 0x0A010203" "covers (?rs ! 1) 0x0A010203" "covers (?rs ! 2) 0x0A010203"
    by (code_simp)+
  then have "selected ?rs 0x0A010203 1"
    by (simp add: selected_iff)
  then show ?thesis
    using trie_longest_prefix_match [of ?rs "0x0A010203"] by simp
qed

end
