(* ===== verification/Rule_Matcher.thy ===== *)
theory Rule_Matcher
  imports Proxy_Config Prefix_Trie
begin

text \<open>
  Routing rules of \<open>src/src/rule.rs\<close>: parsing of one rule, building the matcher from the ordered
  command-line rules, and the two lookups. The \<open>regex\<close> crate is a parameter: whether a
  pattern compiles, the escape function, the construction of a set of patterns and the
  indices of the patterns of a set that match. What the code relies on is stated by
  \<open>regex_set_spec\<close> and \<open>regex_literal_spec\<close>, the documented behaviour of that crate.
\<close>

section \<open>The regex crate as a parameter\<close>

record 'rs regex_lib =
  re_new_ok :: "string \<Rightarrow> bool"
  re_escape :: "string \<Rightarrow> string"
  re_set_new :: "string list \<Rightarrow> 'rs option"
  re_set_matches :: "'rs \<Rightarrow> string \<Rightarrow> nat list"

text \<open>
  \<open>SetMatches::iter\<close> yields the indices of the patterns that match, in ascending order; a set
  compiles only if each of its patterns does.
\<close>

definition regex_set_spec :: "'rs regex_lib \<Rightarrow> (string \<Rightarrow> string \<Rightarrow> bool) \<Rightarrow> bool" where
  "regex_set_spec R is_match \<longleftrightarrow>
     (\<forall>pats rs. re_set_new R pats = Some rs \<longrightarrow>
        (\<forall>host. re_set_matches R rs host =
           filter (\<lambda>i. is_match (pats ! i) host) [0..<length pats]))"

definition ascii_lower :: "char \<Rightarrow> char" where
  "ascii_lower c = (if 65 \<le> (of_char c :: nat) \<and> (of_char c :: nat) \<le> 90
                    then char_of ((of_char c :: nat) + 32) else c)"

text \<open>
  On ASCII text, the anchored, escaped, case-insensitive pattern that the code builds matches
  exactly the texts that equal the literal up to letter case.
\<close>

definition literal_pattern :: "'rs regex_lib \<Rightarrow> string \<Rightarrow> string" where
  "literal_pattern R domain = ''(?i)^'' @ re_escape R domain @ ''$''"

definition regex_literal_spec :: "'rs regex_lib \<Rightarrow> (string \<Rightarrow> string \<Rightarrow> bool) \<Rightarrow> bool" where
  "regex_literal_spec R is_match \<longleftrightarrow>
     (\<forall>domain host. is_ascii domain \<and> is_ascii host \<longrightarrow>
        (is_match (literal_pattern R domain) host \<longleftrightarrow>
         map ascii_lower host = map ascii_lower domain))"

section \<open>Parsing a rule\<close>

record match_action =
  proxy :: proxy_config

datatype rule_match =
    MIp ipv4
  | MCidr ipv4 u8
  | MDomain string
  | MDomainRegex string

datatype rule_error =
    MissingKind string
  | InvalidIp string
  | CidrSyntax string
  | InvalidNetwork string
  | InvalidPrefix string
  | PrefixOutOfRange u8
  | EmptyDomain
  | InvalidRegex string
  | UnknownKind string
  | MissingProxy string
  | EmptyMatch string
  | EmptyProxy string
  | BadProxy proxy_error
  | RegexSetError

definition rule_match_parse :: "'rs regex_lib \<Rightarrow> string \<Rightarrow> rule_error + rule_match" where
  "rule_match_parse R spec =
     result_bind (or_err (MissingKind spec) (split_once CHR '':'' spec)) (\<lambda>(kind, value).
       if kind = ''ip'' then
         result_bind (or_err (InvalidIp value) (parse_ipv4 value)) (\<lambda>addr. Inr (MIp addr))
       else if kind = ''cidr'' then
         result_bind (or_err (CidrSyntax value) (split_once CHR ''/'' value)) (\<lambda>(network, prefix).
         result_bind (or_err (InvalidNetwork network) (parse_ipv4 network)) (\<lambda>network.
         result_bind (or_err (InvalidPrefix prefix) (parse_u8 prefix)) (\<lambda>prefix.
           if 32 < prefix then Inl (PrefixOutOfRange prefix)
           else Inr (MCidr network prefix))))
       else if kind = ''domain'' then
         (if value = [] then Inl EmptyDomain else Inr (MDomain value))
       else if kind = ''domain-regex'' then
         (if re_new_ok R value then Inr (MDomainRegex value) else Inl (InvalidRegex value))
       else Inl (UnknownKind kind))"

definition parse_spec :: "'rs regex_lib \<Rightarrow> string \<Rightarrow> rule_error + (rule_match \<times> match_action)" where
  "parse_spec R full_spec =
     result_bind (or_err (MissingProxy full_spec) (split_once CHR ''='' full_spec))
       (\<lambda>(match_spec, proxy_spec).
         if match_spec = [] then Inl (EmptyMatch full_spec)
         else if proxy_spec = [] then Inl (EmptyProxy full_spec)
         else case proxy_parse proxy_spec of
           Inl e \<Rightarrow> Inl (BadProxy e)
         | Inr p \<Rightarrow>
             result_bind (rule_match_parse R match_spec) (\<lambda>m. Inr (m, \<lparr>proxy = p\<rparr>)))"

section \<open>Building the matcher\<close>

record 'rs rule_matcher =
  domains :: "'rs option"
  domain_actions :: "match_action list"
  cidr :: "match_action prefix_trie"

type_synonym builder = "string list \<times> match_action list \<times> match_action prefix_trie"

fun add_rule :: "'rs regex_lib \<Rightarrow> builder \<Rightarrow> rule_match \<times> match_action \<Rightarrow> builder" where
  "add_rule R (patterns, actions, trie) (MIp addr, act) =
     (patterns, actions, trie_insert trie addr 32 act)"
| "add_rule R (patterns, actions, trie) (MCidr network prefix, act) =
     (patterns, actions, trie_insert trie network prefix act)"
| "add_rule R (patterns, actions, trie) (MDomain domain, act) =
     (patterns @ [literal_pattern R domain], actions @ [act], trie)"
| "add_rule R (patterns, actions, trie) (MDomainRegex pattern, act) =
     (patterns @ [pattern], actions @ [act], trie)"

primrec from_specs_loop ::
  "'rs regex_lib \<Rightarrow> string list \<Rightarrow> builder \<Rightarrow> rule_error + builder" where
  "from_specs_loop R [] b = Inr b"
| "from_specs_loop R (spec # specs) b =
     result_bind (parse_spec R spec) (\<lambda>rule. from_specs_loop R specs (add_rule R b rule))"

definition from_specs :: "'rs regex_lib \<Rightarrow> string list \<Rightarrow> rule_error + 'rs rule_matcher" where
  "from_specs R specs =
     result_bind (from_specs_loop R specs ([], [], trie_default)) (\<lambda>(patterns, actions, trie).
     result_bind (if patterns = [] then Inr None
                  else map_sum id Some (or_err RegexSetError (re_set_new R patterns))) (\<lambda>rs.
       Inr \<lparr>domains = rs, domain_actions = actions, cidr = trie\<rparr>))"

section \<open>Lookups\<close>

definition match_domain :: "'rs regex_lib \<Rightarrow> 'rs rule_matcher \<Rightarrow> string \<Rightarrow> panic + proxy_config option" where
  "match_domain R self host =
     (case domains self of
        None \<Rightarrow> Inr None
      | Some rs \<Rightarrow>
          (case re_set_matches R rs host of
             [] \<Rightarrow> Inr None
           | index # _ \<Rightarrow>
               result_bind (index_chk (domain_actions self) index) (\<lambda>a. Inr (Some (proxy a)))))"

definition match_ip :: "'rs rule_matcher \<Rightarrow> ipv4 \<Rightarrow> proxy_config option" where
  "match_ip self ip = map_option proxy (trie_get (cidr self) ip)"

section \<open>The rules behind a matcher\<close>

fun domain_rule :: "'rs regex_lib \<Rightarrow> rule_match \<times> match_action \<Rightarrow> (string \<times> match_action) option" where
  "domain_rule R (MDomain d, a) = Some (literal_pattern R d, a)"
| "domain_rule R (MDomainRegex p, a) = Some (p, a)"
| "domain_rule R _ = None"

fun address_rule :: "rule_match \<times> match_action \<Rightarrow> match_action ip_rule option" where
  "address_rule (MIp addr, a) = Some (addr, 32, a)"
| "address_rule (MCidr n p, a) = Some (n, p, a)"
| "address_rule _ = None"

definition domain_rules :: "'rs regex_lib \<Rightarrow> (rule_match \<times> match_action) list \<Rightarrow> (string \<times> match_action) list" where
  "domain_rules R = List.map_filter (domain_rule R)"

definition address_rules :: "(rule_match \<times> match_action) list \<Rightarrow> match_action ip_rule list" where
  "address_rules = List.map_filter address_rule"

lemma map_filter_simps' [simp]:
  "List.map_filter f [] = []"
  "List.map_filter f (x # xs) = (case f x of None \<Rightarrow> List.map_filter f xs | Some y \<Rightarrow> y # List.map_filter f xs)"
  by (simp_all add: List.map_filter_def split: option.splits)

lemma foldl_add_rule:
  "foldl (add_rule R) (ps, as, t) rules =
     (ps @ map fst (domain_rules R rules), as @ map snd (domain_rules R rules),
      foldl (\<lambda>t (v, p, a). trie_insert t v p a) t (address_rules rules))"
proof (induction rules arbitrary: ps as t)
  case (Cons r rules)
  obtain m a where r: "r = (m, a)" by (cases r)
  from Cons show ?case
    by (cases m) (simp_all add: r domain_rules_def address_rules_def)
qed (simp add: domain_rules_def address_rules_def)

lemma from_specs_loop_eq:
  "from_specs_loop R specs b =
     result_bind (result_map (parse_spec R) specs) (\<lambda>rules. Inr (foldl (add_rule R) b rules))"
proof (induction specs arbitrary: b)
  case (Cons s specs)
  then show ?case
    by (cases "parse_spec R s"; cases "result_map (parse_spec R) specs") simp_all
qed simp

lemma from_specs_eq:
  "from_specs R specs = result_bind (result_map (parse_spec R) specs) (\<lambda>rules.
     result_bind (if domain_rules R rules = [] then Inr None
                  else map_sum id Some (or_err RegexSetError (re_set_new R (map fst (domain_rules R rules)))))
       (\<lambda>rs. Inr \<lparr>domains = rs, domain_actions = map snd (domain_rules R rules),
                   cidr = build (address_rules rules)\<rparr>))"
  by (cases "result_map (parse_spec R) specs")
    (simp_all add: from_specs_def from_specs_loop_eq foldl_add_rule build_def)

lemma from_specs_InrD:
  assumes "from_specs R specs = Inr m" and "result_map (parse_spec R) specs = Inr rules"
  shows "domain_actions m = map snd (domain_rules R rules)"
    and "cidr m = build (address_rules rules)"
    and "domains m = (if domain_rules R rules = [] then None
                      else re_set_new R (map fst (domain_rules R rules)))"
    and "domains m = None \<Longrightarrow> domain_rules R rules = []"
  using assms
  by (auto simp: from_specs_eq or_err_def split: if_splits option.splits)

lemma rule_match_parse_cidr:
  assumes "rule_match_parse R spec = Inr (MCidr n p)"
  shows "unat p \<le> 32"
proof -
  have "p \<le> 32"
    using assms unfolding rule_match_parse_def result_bind_Inr_iff
    by (auto simp: result_bind_Inr_iff not_less split: if_splits)
  then show ?thesis
    by (simp add: word_le_nat_alt)
qed

lemma parse_spec_match:
  "parse_spec R spec = Inr (m, a) \<Longrightarrow> \<exists>ms. rule_match_parse R ms = Inr m"
  unfolding parse_spec_def result_bind_Inr_iff
  by (auto simp: result_bind_Inr_iff split: if_splits sum.splits)

lemma parse_spec_prefix:
  "parse_spec R spec = Inr (m, a) \<Longrightarrow> address_rule (m, a) = Some r \<Longrightarrow> rule_prefix r \<le> 32"
  using parse_spec_match [of R spec m a] rule_match_parse_cidr by (cases m) fastforce+

lemma result_map_set:
  "result_map f xs = Inr ys \<Longrightarrow> y \<in> set ys \<Longrightarrow> \<exists>x \<in> set xs. f x = Inr y"
  by (induction xs arbitrary: ys) (auto simp: result_bind_Inr_iff)

lemma address_rules_prefix:
  assumes "result_map (parse_spec R) specs = Inr rules" and "r \<in> set (address_rules rules)"
  shows "rule_prefix r \<le> 32"
proof -
  obtain m a where "(m, a) \<in> set rules" and r: "address_rule (m, a) = Some r"
    using assms(2) by (auto simp: address_rules_def List.map_filter_def)
  with assms(1) obtain spec where "parse_spec R spec = Inr (m, a)"
    by (meson result_map_set)
  from parse_spec_prefix [OF this r] show ?thesis .
qed

lemma filter_index_bound:
  "filter (\<lambda>i. P (xs ! i)) [0..<length xs] = i # js \<Longrightarrow> i < length xs"
  by (metis atLeastLessThan_iff filter_is_subset list.set_intros(1) set_upt subsetD)

lemma find_first_index:
  "find P xs = (case filter (\<lambda>i. P (xs ! i)) [0..<length xs] of [] \<Rightarrow> None | i # _ \<Rightarrow> Some (xs ! i))"
proof (induction xs)
  case (Cons x xs)
  have "[0..<length (x # xs)] = 0 # map Suc [0..<length xs]"
    by (simp add: upt_conv_Cons map_Suc_upt del: upt_Suc)
  then have "filter (\<lambda>i. P ((x # xs) ! i)) [0..<length (x # xs)] =
      (if P x then [0] else []) @ map Suc (filter (\<lambda>i. P (xs ! i)) [0..<length xs])"
    by (simp add: filter_map o_def del: upt_Suc)
  then show ?case
    using Cons by (auto split: list.splits simp del: upt_Suc)
qed simp

lemma match_domain_find:
  assumes "regex_set_spec R is_match" and "result_map (parse_spec R) specs = Inr rules"
    and "from_specs R specs = Inr m"
  shows "match_domain R m host = Inr (map_option (\<lambda>(pat, a). proxy a)
    (find (\<lambda>(pat, a). is_match pat host) (domain_rules R rules)))"
proof (cases "domain_rules R rules = []")
  case True
  with assms(2,3) show ?thesis by (simp add: from_specs_InrD(3) match_domain_def)
next
  case False
  let ?rs = "domain_rules R rules" and ?P = "\<lambda>(pat, a). is_match pat host"
  from False assms(2,3) obtain rs where rs: "re_set_new R (map fst ?rs) = Some rs"
      "domains m = Some rs" "domain_actions m = map snd ?rs"
    using from_specs_InrD [OF assms(3,2)] by (metis option.exhaust)
  have "filter (\<lambda>i. is_match (map fst ?rs ! i) host) [0..<length ?rs] =
      filter (\<lambda>i. ?P (?rs ! i)) [0..<length ?rs]"
    by (rule filter_cong) (auto split: prod.splits)
  then have eq: "re_set_matches R rs host = filter (\<lambda>i. ?P (?rs ! i)) [0..<length ?rs]"
    using assms(1) rs(1) by (simp add: regex_set_spec_def)
  show ?thesis
  proof (cases "re_set_matches R rs host")
    case Nil
    then show ?thesis
      by (simp add: match_domain_def rs find_first_index eq [symmetric])
  next
    case (Cons i js)
    then have "i < length ?rs"
      using filter_index_bound eq by metis
    with Cons show ?thesis
      by (simp add: match_domain_def rs find_first_index eq [symmetric] index_chk_def split: prod.splits)
  qed
qed

lemma match_ip_selected:
  assumes "result_map (parse_spec R) specs = Inr rules" and "from_specs R specs = Inr m"
  shows "(\<forall>i. selected (address_rules rules) ip i \<longrightarrow>
      match_ip m ip = Some (proxy (rule_action (address_rules rules ! i)))) \<and>
    (match_ip m ip = None \<longleftrightarrow> (\<forall>r \<in> set (address_rules rules). \<not> covers r ip))"
proof -
  have "cidr m = build (address_rules rules)"
    using assms by (simp add: from_specs_InrD(2))
  then show ?thesis
    using pt.table_selected [of "address_rules rules" ip] pt.table_None [of "address_rules rules" ip]
      address_rules_prefix [OF assms(1)]
    by (simp add: match_ip_def pt_table_eq)
qed

section \<open>Properties\<close>

fun names_host :: "string \<Rightarrow> rule_match \<times> match_action \<Rightarrow> bool" where
  "names_host host (MDomain d, a) \<longleftrightarrow> map ascii_lower host = map ascii_lower d"
| "names_host host _ \<longleftrightarrow> False"

fun literal_rule :: "rule_match \<times> match_action \<Rightarrow> bool" where
  "literal_rule (MDomain d, a) \<longleftrightarrow> is_ascii d"
| "literal_rule (MDomainRegex _, a) \<longleftrightarrow> False"
| "literal_rule _ \<longleftrightarrow> True"

lemma find_literal_rules:
  assumes "regex_literal_spec R is_match" and "is_ascii host" and "\<forall>r \<in> set rules. literal_rule r"
  shows "map_option (\<lambda>(pat, a). proxy a) (find (\<lambda>(pat, a). is_match pat host) (domain_rules R rules)) =
    map_option (\<lambda>(m, a). proxy a) (find (names_host host) rules)"
  using assms(3)
proof (induction rules)
  case (Cons r rules)
  obtain m a where r: "r = (m, a)" by (cases r)
  have IH: "map_option (\<lambda>(pat, a). proxy a) (find (\<lambda>(pat, a). is_match pat host) (List.map_filter (domain_rule R) rules)) =
      map_option (\<lambda>(m, a). proxy a) (find (names_host host) rules)"
    using Cons by (simp add: domain_rules_def)
  from Cons.prems show ?case
    using assms(1,2) by (cases m)
      (simp_all add: r domain_rules_def regex_literal_spec_def IH)
qed (simp add: domain_rules_def)

text \<open>
  Literal domain rules: when the domain rules are all literal and ASCII, an ASCII host is
  routed by the first rule whose domain equals it without regard to letter case; no character
  of a domain acts as a pattern, and a rule never matches a longer or shorter name.
\<close>

lemma match_domain_literal:
  assumes "regex_set_spec R is_match" and "regex_literal_spec R is_match"
    and "result_map (parse_spec R) specs = Inr rules" and "from_specs R specs = Inr m"
    and "\<forall>r \<in> set rules. literal_rule r" and "is_ascii host"
  shows "match_domain R m host = Inr (map_option (\<lambda>(m, a). proxy a) (find (names_host host) rules))"
  using match_domain_find [OF assms(1,3,4)] find_literal_rules [OF assms(2,6,5)] by simp

text \<open>
  Rejection: the first rule, in command-line order, that does not parse decides the error of
  the whole list.
\<close>

lemma from_specs_first_error:
  assumes "\<forall>s \<in> set good. \<exists>r. parse_spec R s = Inr r" and "parse_spec R bad = Inl e"
  shows "from_specs R (good @ bad # rest) = Inl e"
proof -
  have "result_map (parse_spec R) (good @ bad # rest) = Inl e"
    using assms by (induction good) auto
  then show ?thesis by (simp add: from_specs_eq)
qed

section \<open>Witnesses\<close>

text \<open>
  A regex library with one construct, the anchored literal without regard to case; every other
  pattern matches itself only.
\<close>

definition literal_match :: "string \<Rightarrow> string \<Rightarrow> bool" where
  "literal_match pat host \<longleftrightarrow>
     (case strip_prefix ''(?i)^'' pat of
        None \<Rightarrow> host = pat
      | Some rest \<Rightarrow> map ascii_lower host @ ''$'' = map ascii_lower rest)"

definition literal_lib :: "string list regex_lib" where
  "literal_lib = \<lparr>re_new_ok = (\<lambda>p. p \<noteq> ''(''), re_escape = (\<lambda>d. d), re_set_new = Some,
     re_set_matches = (\<lambda>pats host. filter (\<lambda>i. literal_match (pats ! i) host) [0..<length pats])\<rparr>"

lemma literal_lib_set_new: "re_set_new literal_lib pats = Some pats"
  by (simp add: literal_lib_def)

lemma literal_lib_set: "regex_set_spec literal_lib literal_match"
  by (simp add: regex_set_spec_def literal_lib_def)

lemma literal_lib_literal: "regex_literal_spec literal_lib literal_match"
  by (auto simp: regex_literal_spec_def literal_lib_def literal_match_def literal_pattern_def
      strip_prefix_def ascii_lower_def)

definition sample_specs :: "string list" where
  "sample_specs =
     [''domain:Example.com=direct'', ''cidr:10.0.0.0/8=direct'', ''domain:example.com=http://p:1'']"

definition sample_rules :: "(rule_match \<times> match_action) list" where
  "sample_rules =
     [(MDomain ''Example.com'', \<lparr>proxy = Direct\<rparr>), (MCidr (ipv4_new 10 0 0 0) 8, \<lparr>proxy = Direct\<rparr>),
      (MDomain ''example.com'', \<lparr>proxy = Http ''p:1'' None\<rparr>)]"

lemma sample_specs_parse: "result_map (parse_spec literal_lib) sample_specs = Inr sample_rules"
  by (simp add: sample_specs_def sample_rules_def parse_spec_def rule_match_parse_def
      proxy_parse_eval parse_ipv4_def parse_u8_def Let_def digits_value_def)

lemma sample_specs_build: "\<exists>m. from_specs literal_lib sample_specs = Inr m"
  using literal_lib_set_new by (simp add: from_specs_eq sample_specs_parse or_err_def)

end
