(* ===== verification/Publish_Spec.thy ===== *)
theory Publish_Spec
  imports Rust_Net
begin

text \<open>
  Published ports of \<open>src/src/publish.rs\<close>: the parser of one publication and of the list of
  publications of the command line, and the two steps that turn publications into
  listeners. The operating system and the async runtime are a parameter, the record
  \<open>listen_lib\<close> of the calls the code makes, over a state \<open>'w\<close> of the system; dropping a listener
  closes it.
\<close>

section \<open>Publications\<close>

record publish_spec =
  host_ip :: ipv4
  host_port :: u16
  namespace_port :: u16

definition host_addr :: "publish_spec \<Rightarrow> ipv4 \<times> u16" where
  "host_addr self = (host_ip self, host_port self)"

datatype publish_error =
    UnsupportedProtocol string
  | InvalidHostIp string
  | InvalidPort string string
  | ZeroPort string
  | InvalidPublish string
  | DuplicateEndpoint "ipv4 \<times> u16"

definition parse_port :: "string \<Rightarrow> string \<Rightarrow> publish_error + u16" where
  "parse_port value side =
     result_bind (or_err (InvalidPort side value) (parse_u16 value)) (\<lambda>port.
       if port = 0 then Inl (ZeroPort side) else Inr port)"

definition parse_publish_spec :: "string \<Rightarrow> publish_error + publish_spec" where
  "parse_publish_spec raw =
     (let (address, protocol) =
        (case split_once CHR ''/'' raw of Some ap \<Rightarrow> ap | None \<Rightarrow> (raw, ''tcp''))
      in if protocol \<noteq> ''tcp'' then Inl (UnsupportedProtocol protocol)
         else (case str_split CHR '':'' address of
             [hp, np] \<Rightarrow>
               result_bind (parse_port hp ''host'') (\<lambda>hp.
               result_bind (parse_port np ''namespace'') (\<lambda>np.
                 Inr \<lparr>host_ip = ipv4_new 0 0 0 0, host_port = hp, namespace_port = np\<rparr>))
           | [ip, hp, np] \<Rightarrow>
               result_bind (or_err (InvalidHostIp ip) (parse_ipv4 ip)) (\<lambda>ip.
               result_bind (parse_port hp ''host'') (\<lambda>hp.
               result_bind (parse_port np ''namespace'') (\<lambda>np.
                 Inr \<lparr>host_ip = ip, host_port = hp, namespace_port = np\<rparr>)))
           | _ \<Rightarrow> Inl (InvalidPublish raw)))"

primrec parse_publish_loop ::
  "string list \<Rightarrow> (ipv4 \<times> u16) set \<Rightarrow> publish_spec list \<Rightarrow> publish_error + publish_spec list" where
  "parse_publish_loop [] host_endpoints parsed = Inr parsed"
| "parse_publish_loop (raw # specs) host_endpoints parsed =
     result_bind (parse_publish_spec raw) (\<lambda>spec.
       if host_addr spec \<in> host_endpoints then Inl (DuplicateEndpoint (host_addr spec))
       else parse_publish_loop specs (insert (host_addr spec) host_endpoints) (parsed @ [spec]))"

definition parse_publish_specs :: "string list \<Rightarrow> publish_error + publish_spec list" where
  "parse_publish_specs specs = parse_publish_loop specs {} []"

section \<open>Listeners\<close>

record ('w, 'l) listen_lib =
  tcp_bind :: "'w \<Rightarrow> ipv4 \<times> u16 \<Rightarrow> 'w \<times> 'l option"
  set_nonblocking :: "'w \<Rightarrow> 'l \<Rightarrow> 'w \<times> bool"
  from_std :: "'w \<Rightarrow> 'l \<Rightarrow> 'w \<times> bool"
  drop_listener :: "'w \<Rightarrow> 'l \<Rightarrow> 'w"

datatype listen_error =
    BindFailed "ipv4 \<times> u16"
  | NonblockingFailed "ipv4 \<times> u16"
  | RegisterFailed "ipv4 \<times> u16"

record 'l bound_publish =
  pub_spec :: publish_spec
  pub_listener :: 'l

definition drop_all :: "('w, 'l) listen_lib \<Rightarrow> 'w \<Rightarrow> 'l bound_publish list \<Rightarrow> 'w" where
  "drop_all L w bs = foldl (\<lambda>w b. drop_listener L w (pub_listener b)) w bs"

definition bind_one ::
  "('w, 'l) listen_lib \<Rightarrow> 'w \<Rightarrow> publish_spec \<Rightarrow> 'w \<times> (listen_error + 'l bound_publish)" where
  "bind_one L w s =
     (case tcp_bind L w (host_addr s) of
        (w, None) \<Rightarrow> (w, Inl (BindFailed (host_addr s)))
      | (w, Some l) \<Rightarrow>
          (case set_nonblocking L w l of
             (w, True) \<Rightarrow> (w, Inr \<lparr>pub_spec = s, pub_listener = l\<rparr>)
           | (w, False) \<Rightarrow> (drop_listener L w l, Inl (NonblockingFailed (host_addr s)))))"

definition register_one ::
  "('w, 'l) listen_lib \<Rightarrow> 'w \<Rightarrow> 'l bound_publish \<Rightarrow> 'w \<times> (listen_error + 'l bound_publish)" where
  "register_one L w b =
     (case from_std L w (pub_listener b) of
        (w, True) \<Rightarrow> (w, Inr \<lparr>pub_spec = pub_spec b, pub_listener = pub_listener b\<rparr>)
      | (w, False) \<Rightarrow> (drop_listener L w (pub_listener b), Inl (RegisterFailed (host_addr (pub_spec b)))))"

text \<open>
  Collecting the results of a stateful iterator: the first error drops what was collected so
  far; \<open>rest\<close> releases the items that were not reached.
\<close>

primrec collect_all ::
  "('w, 'l) listen_lib \<Rightarrow> ('w \<Rightarrow> 'a \<Rightarrow> 'w \<times> (listen_error + 'l bound_publish)) \<Rightarrow> ('w \<Rightarrow> 'a list \<Rightarrow> 'w) \<Rightarrow>
   'w \<Rightarrow> 'l bound_publish list \<Rightarrow> 'a list \<Rightarrow> 'w \<times> (listen_error + 'l bound_publish list)" where
  "collect_all L f rest w acc [] = (w, Inr acc)"
| "collect_all L f rest w acc (x # xs) =
     (case f w x of
        (w, Inl e) \<Rightarrow> (rest (drop_all L w acc) xs, Inl e)
      | (w, Inr b) \<Rightarrow> collect_all L f rest w (acc @ [b]) xs)"

definition bind_publish_specs ::
  "('w, 'l) listen_lib \<Rightarrow> 'w \<Rightarrow> publish_spec list \<Rightarrow> 'w \<times> (listen_error + 'l bound_publish list)" where
  "bind_publish_specs L w specs = collect_all L (bind_one L) (\<lambda>w _. w) w [] specs"

definition register_publish_specs ::
  "('w, 'l) listen_lib \<Rightarrow> 'w \<Rightarrow> 'l bound_publish list \<Rightarrow> 'w \<times> (listen_error + 'l bound_publish list)" where
  "register_publish_specs L w bound = collect_all L (register_one L) (drop_all L) w [] bound"

text \<open>
  What the system promises about open listeners: a successful bind opens a new one, a failed
  one opens none, dropping closes, and the other calls leave the set alone.
\<close>

definition listen_spec :: "('w, 'l) listen_lib \<Rightarrow> ('w \<Rightarrow> 'l set) \<Rightarrow> bool" where
  "listen_spec L opened \<longleftrightarrow>
     (\<forall>w a w' l. tcp_bind L w a = (w', Some l) \<longrightarrow> l \<notin> opened w \<and> opened w' = insert l (opened w)) \<and>
     (\<forall>w a w'. tcp_bind L w a = (w', None) \<longrightarrow> opened w' = opened w) \<and>
     (\<forall>w l. opened (fst (set_nonblocking L w l)) = opened w) \<and>
     (\<forall>w l. opened (fst (from_std L w l)) = opened w) \<and>
     (\<forall>w l. opened (drop_listener L w l) = opened w - {l})"

section \<open>The language of publications\<close>

definition show_addr :: "ipv4 \<times> u16 \<Rightarrow> string" where
  "show_addr a = show_ipv4 (fst a) @ CHR '':'' # show_nat (unat (snd a))"

definition show_publish :: "publish_spec \<Rightarrow> string" where
  "show_publish s = show_addr (host_addr s) @ CHR '':'' # show_nat (unat (namespace_port s))"

text \<open>A publication as the documentation writes it: optional address, two ports, optional protocol.\<close>

definition port_text :: "string \<Rightarrow> u16 \<Rightarrow> bool" where
  "port_text s p \<longleftrightarrow> parse_u16 s = Some p \<and> p \<noteq> 0"

definition publish_text :: "string list \<Rightarrow> publish_spec \<Rightarrow> bool" where
  "publish_text fs s \<longleftrightarrow>
     (\<exists>hp np. port_text hp (host_port s) \<and> port_text np (namespace_port s) \<and>
        (fs = [hp, np] \<and> host_ip s = ipv4_new 0 0 0 0 \<or>
         (\<exists>ip. fs = [ip, hp, np] \<and> parse_ipv4 ip = Some (host_ip s))))"

lemma parse_port_Inr: "parse_port v side = Inr p \<longleftrightarrow> port_text v p"
  by (auto simp: parse_port_def port_text_def result_bind_Inr_iff)

lemma fs_Inr:
  "(case fs of
      [hp, np] \<Rightarrow>
        result_bind (parse_port hp ''host'') (\<lambda>hp.
        result_bind (parse_port np ''namespace'') (\<lambda>np.
          Inr \<lparr>host_ip = ipv4_new 0 0 0 0, host_port = hp, namespace_port = np\<rparr>))
    | [ip, hp, np] \<Rightarrow>
        result_bind (or_err (InvalidHostIp ip) (parse_ipv4 ip)) (\<lambda>ip.
        result_bind (parse_port hp ''host'') (\<lambda>hp.
        result_bind (parse_port np ''namespace'') (\<lambda>np.
          Inr \<lparr>host_ip = ip, host_port = hp, namespace_port = np\<rparr>)))
    | _ \<Rightarrow> Inl (InvalidPublish raw)) = Inr s \<longleftrightarrow> publish_text fs s"
  by (cases s)
    (auto simp: publish_text_def result_bind_Inr_iff parse_port_Inr split: list.splits)

lemma parse_publish_spec_plain:
  "CHR ''/'' \<notin> set raw \<Longrightarrow>
   parse_publish_spec raw = Inr s \<longleftrightarrow> publish_text (str_split CHR '':'' raw) s"
  unfolding parse_publish_spec_def by (simp add: fs_Inr)

lemma parse_publish_spec_slash:
  "CHR ''/'' \<notin> set a \<Longrightarrow>
   parse_publish_spec (a @ CHR ''/'' # p) = Inr s \<longleftrightarrow>
     p = ''tcp'' \<and> publish_text (str_split CHR '':'' a) s"
  unfolding parse_publish_spec_def by (simp add: fs_Inr)

lemma parse_publish_spec_text:
  assumes "parse_publish_spec raw = Inr s"
  shows "\<exists>fs. publish_text fs s"
proof (cases "CHR ''/'' \<in> set raw")
  case True
  then obtain a p where "raw = a @ CHR ''/'' # p" "CHR ''/'' \<notin> set a"
    by (meson split_list_first)
  with assms show ?thesis by (auto simp: parse_publish_spec_slash)
qed (use assms parse_publish_spec_plain in blast)

lemma parse_publish_loop_iff:
  "parse_publish_loop specs seen parsed = Inr ps \<longleftrightarrow>
     (\<exists>new. result_map parse_publish_spec specs = Inr new \<and> ps = parsed @ new \<and>
        distinct (map host_addr new) \<and> host_addr ` set new \<inter> seen = {})"
proof (induction specs arbitrary: seen parsed)
  case (Cons raw specs)
  show ?case
    by (cases "parse_publish_spec raw") (auto simp: Cons result_bind_Inr_iff image_iff)
qed auto

lemma show_addr_no_slash [simp]: "CHR ''/'' \<notin> set (show_addr a)"
  by (simp add: show_addr_def show_ipv4_chars show_nat_no_sep)

lemma split_show_publish:
  "str_split CHR '':'' (show_publish s) =
     [show_ipv4 (host_ip s), show_nat (unat (host_port s)), show_nat (unat (namespace_port s))]"
  by (simp add: show_publish_def show_addr_def host_addr_def show_ipv4_chars show_nat_no_sep)

lemma publish_text_show:
  "host_port s \<noteq> 0 \<Longrightarrow> namespace_port s \<noteq> 0 \<Longrightarrow> publish_text (str_split CHR '':'' (show_publish s)) s"
  by (simp add: publish_text_def split_show_publish port_text_def)

lemma publish_text_ports: "publish_text fs s \<Longrightarrow> host_port s \<noteq> 0 \<and> namespace_port s \<noteq> 0"
  by (auto simp: publish_text_def port_text_def)

section \<open>Listeners, all or none\<close>

lemma drop_all_opened:
  "listen_spec L opened \<Longrightarrow> opened (drop_all L w bs) = opened w - pub_listener ` set bs"
  by (induction bs arbitrary: w) (auto simp: drop_all_def listen_spec_def)

lemma listen_specD:
  assumes "listen_spec L opened"
  shows "tcp_bind L w a = (w', Some l) \<Longrightarrow> l \<notin> opened w \<and> opened w' = insert l (opened w)"
    and "tcp_bind L w a = (w', None) \<Longrightarrow> opened w' = opened w"
    and "set_nonblocking L w l = (w', ok) \<Longrightarrow> opened w' = opened w"
    and "from_std L w l = (w', ok) \<Longrightarrow> opened w' = opened w"
    and "opened (drop_listener L w l) = opened w - {l}"
proof -
  note c = assms [unfolded listen_spec_def]
  show "tcp_bind L w a = (w', Some l) \<Longrightarrow> l \<notin> opened w \<and> opened w' = insert l (opened w)"
    using conjunct1 [OF c] by blast
  show "tcp_bind L w a = (w', None) \<Longrightarrow> opened w' = opened w"
    using conjunct1 [OF conjunct2 [OF c]] by blast
  show "set_nonblocking L w l = (w', ok) \<Longrightarrow> opened w' = opened w"
    using conjunct1 [OF conjunct2 [OF conjunct2 [OF c]]] by (metis fst_conv)
  show "from_std L w l = (w', ok) \<Longrightarrow> opened w' = opened w"
    using conjunct1 [OF conjunct2 [OF conjunct2 [OF conjunct2 [OF c]]]] by (metis fst_conv)
  show "opened (drop_listener L w l) = opened w - {l}"
    using conjunct2 [OF conjunct2 [OF conjunct2 [OF conjunct2 [OF c]]]] by blast
qed

lemma Un_Diff_disjoint: "A \<inter> B = {} \<Longrightarrow> B \<union> A - A = B"
  by blast

lemma bind_one_opened:
  assumes "listen_spec L opened" and "bind_one L w s = (w', r)"
  shows "case r of Inl e \<Rightarrow> opened w' = opened w
    | Inr b \<Rightarrow> pub_spec b = s \<and> pub_listener b \<notin> opened w \<and> opened w' = insert (pub_listener b) (opened w)"
proof (cases "tcp_bind L w (host_addr s)")
  case (Pair w1 lo)
  show ?thesis
  proof (cases lo)
    case None
    with listen_specD(2) [OF assms(1) Pair [unfolded None]] Pair assms(2) show ?thesis
      by (auto simp: bind_one_def)
  next
    case (Some l)
    note l = listen_specD(1) [OF assms(1) Pair [unfolded Some]]
    obtain w2 ok where nb: "set_nonblocking L w1 l = (w2, ok)" by fastforce
    note w2 = listen_specD(3) [OF assms(1) nb]
    from nb l w2 listen_specD(5) [OF assms(1), of w2 l] assms(2) Pair Some show ?thesis
      by (cases ok) (auto simp: bind_one_def)
  qed
qed

lemma register_one_opened:
  assumes "listen_spec L opened" and "register_one L w b = (w', r)"
  shows "case r of Inl e \<Rightarrow> opened w' = opened w - {pub_listener b}
    | Inr b' \<Rightarrow> pub_spec b' = pub_spec b \<and> pub_listener b' = pub_listener b \<and> opened w' = opened w"
proof -
  obtain w1 ok where f: "from_std L w (pub_listener b) = (w1, ok)" by fastforce
  note w1 = listen_specD(4) [OF assms(1) f]
  from f w1 assms(2) listen_specD(5) [OF assms(1)] show ?thesis
    by (cases ok) (auto simp: register_one_def)
qed

lemma collect_bind_opened:
  assumes "listen_spec L opened" and "collect_all L (bind_one L) (\<lambda>w _. w) w acc specs = (w', r)"
    and "pub_listener ` set acc \<inter> base = {}" and "opened w = base \<union> pub_listener ` set acc"
    and "distinct (map pub_listener acc)"
  shows "case r of Inl e \<Rightarrow> opened w' = base
    | Inr bs \<Rightarrow> map pub_spec bs = map pub_spec acc @ specs \<and> distinct (map pub_listener bs) \<and>
        pub_listener ` set bs \<inter> base = {} \<and> opened w' = base \<union> pub_listener ` set bs"
  using assms(2-)
proof (induction specs arbitrary: w acc)
  case (Cons s specs)
  obtain w1 r1 where one: "bind_one L w s = (w1, r1)" by fastforce
  note step = bind_one_opened [OF assms(1) one]
  show ?case
  proof (cases r1)
    case (Inl e)
    with Cons.prems one step drop_all_opened [OF assms(1)] show ?thesis
      by (auto simp: Un_Diff_disjoint)
  next
    case (Inr b)
    with Cons.prems(1) one
    have "collect_all L (bind_one L) (\<lambda>w _. w) w1 (acc @ [b]) specs = (w', r)" by simp
    from Cons.IH [OF this] Cons.prems(2-) step Inr show ?thesis by (auto split: sum.splits)
  qed
qed auto

lemma collect_register_opened:
  assumes "listen_spec L opened" and "collect_all L (register_one L) (drop_all L) w acc bound = (w', r)"
    and "opened w = base \<union> pub_listener ` set (acc @ bound)"
    and "pub_listener ` set (acc @ bound) \<inter> base = {}"
  shows "case r of Inl e \<Rightarrow> opened w' = base
    | Inr bs \<Rightarrow> bs = acc @ bound \<and> opened w' = base \<union> pub_listener ` set bs"
  using assms(2-)
proof (induction bound arbitrary: w acc)
  case (Cons b bound)
  obtain w1 r1 where one: "register_one L w b = (w1, r1)" by fastforce
  note step = register_one_opened [OF assms(1) one]
  show ?case
  proof (cases r1)
    case (Inl e)
    with Cons.prems(1) one have "w' = drop_all L (drop_all L w1 acc) bound" "r = Inl e" by auto
    with Inl step Cons.prems(2,3) show ?thesis
      by (simp add: drop_all_opened [OF assms(1)]) blast
  next
    case (Inr b')
    with step have "b' = b" by (cases b; cases b') simp
    with Cons.prems(1) one Inr
    have "collect_all L (register_one L) (drop_all L) w1 (acc @ [b]) bound = (w', r)" by simp
    from Cons.IH [OF this] Cons.prems(2-) step Inr show ?thesis by (auto split: sum.splits)
  qed
qed auto

section \<open>Properties\<close>

lemma parse_publish_specs_Inr:
  "parse_publish_specs specs = Inr ps \<longleftrightarrow>
     map parse_publish_spec specs = map Inr ps \<and> distinct (map host_addr ps)"
  by (auto simp: parse_publish_specs_def parse_publish_loop_iff result_map_Inr_iff)

lemma accepted_publishes:
  assumes "parse_publish_specs specs = Inr ps"
  shows "distinct (map host_addr ps) \<and> 0 \<notin> host_port ` set ps \<union> namespace_port ` set ps"
proof -
  from assms have p: "map parse_publish_spec specs = map Inr ps" "distinct (map host_addr ps)"
    by (simp_all add: parse_publish_specs_Inr)
  have "host_port s \<noteq> 0 \<and> namespace_port s \<noteq> 0" if "s \<in> set ps" for s
  proof -
    from p(1) that obtain raw where "parse_publish_spec raw = Inr s"
      by (metis (mono_tags, lifting) image_iff list.set_map)
    then show ?thesis
      using parse_publish_spec_text publish_text_ports by blast
  qed
  with p(2) show ?thesis by fastforce
qed

text \<open>
  C38. The list of publications is accepted exactly when every one of them parses and no two name
  the same host endpoint; the publications then come in command-line order and all their
  ports are nonzero.
\<close>

theorem parse_publish_specs_iff:
  "parse_publish_specs specs = Inr ps \<longleftrightarrow>
     map parse_publish_spec specs = map Inr ps \<and> distinct (map host_addr ps) \<and>
     0 \<notin> host_port ` set ps \<union> namespace_port ` set ps"
  using accepted_publishes [of specs ps] by (auto simp: parse_publish_specs_Inr)

text \<open>
  Printing a publication and parsing it gives it back, with or without the protocol suffix.
\<close>

lemma publish_spec_roundtrip:
  assumes "host_port s \<noteq> 0" and "namespace_port s \<noteq> 0"
  shows "parse_publish_spec (show_publish s) = Inr s \<and>
    parse_publish_spec (show_publish s @ ''/tcp'') = Inr s"
proof
  have slash: "CHR ''/'' \<notin> set (show_publish s)"
    by (simp add: show_publish_def show_nat_no_sep)
  then show "parse_publish_spec (show_publish s) = Inr s"
    using assms by (simp add: parse_publish_spec_plain publish_text_show)
  from slash show "parse_publish_spec (show_publish s @ ''/tcp'') = Inr s"
    using assms by (simp add: parse_publish_spec_slash publish_text_show)
qed

text \<open>
  C39. Binding is all or none: when every listener can be bound, the bound publications are those
  asked for, in order, each with a listener of its own, and exactly these listeners are new;
  when one fails, every listener opened before it is closed again. Registering keeps the
  publications and their listeners, and a failure closes them all.
\<close>

theorem publish_listeners_all_or_none:
  assumes "listen_spec L opened" and "bind_publish_specs L w specs = (w1, r)"
  shows "case r of
      Inl e \<Rightarrow> opened w1 = opened w
    | Inr bs \<Rightarrow>
        map pub_spec bs = specs \<and> distinct (map pub_listener bs) \<and>
        opened w1 = opened w \<union> pub_listener ` set bs \<and>
        (case register_publish_specs L w1 bs of
           (w2, Inl e) \<Rightarrow> opened w2 = opened w
         | (w2, Inr bs') \<Rightarrow> bs' = bs \<and> opened w2 = opened w1)"
proof -
  have bind: "case r of Inl e \<Rightarrow> opened w1 = opened w
    | Inr bs \<Rightarrow> map pub_spec bs = specs \<and> distinct (map pub_listener bs) \<and>
        pub_listener ` set bs \<inter> opened w = {} \<and> opened w1 = opened w \<union> pub_listener ` set bs"
    using collect_bind_opened [OF assms(1) assms(2) [unfolded bind_publish_specs_def]]
    by (simp split: sum.splits)
  show ?thesis
  proof (cases r)
    case (Inr bs)
    obtain w2 r2 where reg: "register_publish_specs L w1 bs = (w2, r2)" by fastforce
    have "case r2 of Inl e \<Rightarrow> opened w2 = opened w
        | Inr bs' \<Rightarrow> bs' = bs \<and> opened w2 = opened w \<union> pub_listener ` set bs'"
      using collect_register_opened
        [OF assms(1) reg [unfolded register_publish_specs_def], where base = "opened w"]
        bind Inr by (auto split: sum.splits)
    with bind Inr reg show ?thesis by (auto split: sum.splits)
  qed (use bind in simp)
qed

section \<open>Witnesses\<close>

text \<open>A system that hands out numbered listeners and refuses endpoints already in use.\<close>

definition table_lib :: "(nat \<times> (nat \<times> (ipv4 \<times> u16)) list, nat) listen_lib" where
  "table_lib = \<lparr>
     tcp_bind = (\<lambda>(n, t) a. if a \<in> snd ` set t then ((n, t), None) else ((Suc n, (n, a) # t), Some n)),
     set_nonblocking = (\<lambda>w l. (w, True)),
     from_std = (\<lambda>w l. (w, True)),
     drop_listener = (\<lambda>(n, t) l. (n, filter (\<lambda>(m, a). m \<noteq> l) t))\<rparr>"

definition table_opened :: "nat \<times> (nat \<times> (ipv4 \<times> u16)) list \<Rightarrow> nat set" where
  "table_opened = (\<lambda>(n, t). fst ` set t \<inter> {..<n})"

lemma table_lib_spec: "listen_spec table_lib table_opened"
  by (auto simp: listen_spec_def table_lib_def table_opened_def split: if_splits)

theorem publish_listeners_all_or_none_witness:
  "let s = \<lparr>host_ip = 0, host_port = 80, namespace_port = 1\<rparr>;
       t = \<lparr>host_ip = 0, host_port = 80, namespace_port = 2\<rparr>;
       (w, r) = bind_publish_specs table_lib (0, []) [s, t]
   in r = Inl (BindFailed (0, 80)) \<and> table_opened w = {}"
proof -
  define s t :: publish_spec where "s = \<lparr>host_ip = 0, host_port = 80, namespace_port = 1\<rparr>"
    and "t = \<lparr>host_ip = 0, host_port = 80, namespace_port = 2\<rparr>"
  obtain w r where wr: "bind_publish_specs table_lib (0, []) [s, t] = (w, r)" by fastforce
  have "r = Inl (BindFailed (0, 80))"
    using wr by (auto simp: bind_publish_specs_def bind_one_def table_lib_def host_addr_def s_def t_def)
  with publish_listeners_all_or_none [OF table_lib_spec wr] wr show ?thesis
    by (simp add: s_def [symmetric] t_def [symmetric] table_opened_def)
qed

end
