(* ===== verification/App_Config.thy ===== *)
theory App_Config
  imports Rule_Matcher Publish_Spec
begin

text \<open>
  The configuration of \<open>src/src/config.rs\<close>: the record of everything the command line decides, the
  choice of the route for a destination, and the constants of the addressing plan.
\<close>

record bind_mount =
  bm_source :: string
  bm_target :: string

record 'rs app_config =
  default_proxy :: proxy_config
  bind_mounts :: "bind_mount list"
  publishes :: "publish_spec list"
  command :: "string list"
  rules :: "'rs rule_matcher"

definition proxy_for :: "'rs regex_lib \<Rightarrow> 'rs app_config \<Rightarrow> proxy_target \<Rightarrow> panic + proxy_config" where
  "proxy_for R self target =
     result_bind
       (case target of
          Domain host port \<Rightarrow> match_domain R (rules self) host
        | Ip addr port \<Rightarrow> (case addr of V4 v4 \<Rightarrow> Inr (match_ip (rules self) v4) | V6 v6 \<Rightarrow> Inr None))
       (\<lambda>matched. Inr (case matched of Some p \<Rightarrow> p | None \<Rightarrow> default_proxy self))"

definition TUN_NAME :: string where "TUN_NAME = ''eth0''"
definition TUN_ADDR :: ipv4 where "TUN_ADDR = ipv4_new 172 23 255 255"
definition TUN_GW :: ipv4 where "TUN_GW = ipv4_new 172 23 255 254"
definition TUN_PREFIX :: u8 where "TUN_PREFIX = 31"
definition DNS_ADDR :: ipv4 where "DNS_ADDR = TUN_GW"
definition DNS_PORT :: u16 where "DNS_PORT = 53"

text \<open>The rules a configuration was built from, and a configuration built that way.\<close>

definition built_from ::
  "'rs regex_lib \<Rightarrow> (rule_match \<times> match_action) list \<Rightarrow> 'rs app_config \<Rightarrow> bool" where
  "built_from R rs cfg \<longleftrightarrow>
     (\<exists>specs. from_specs R specs = Inr (rules cfg) \<and> result_map (parse_spec R) specs = Inr rs)"

lemma proxy_for_no_panic:
  assumes "regex_set_spec R is_match" and "built_from R rs cfg"
  shows "\<exists>p. proxy_for R cfg target = Inr p"
proof -
  from assms(2) obtain specs where "from_specs R specs = Inr (rules cfg)" "result_map (parse_spec R) specs = Inr rs"
    unfolding built_from_def by blast
  from match_domain_find [OF assms(1) this(2,1)] show ?thesis
    by (auto simp: proxy_for_def split: proxy_target.splits ip_addr.splits)
qed

text \<open>A configuration without rules, for examples.\<close>

definition plain_config :: "string list app_config" where
  "plain_config = \<lparr>default_proxy = Direct, bind_mounts = [], publishes = [], command = [''sh''],
     rules = \<lparr>domains = None, domain_actions = [], cidr = trie_default\<rparr>\<rparr>"

lemma plain_config_built: "built_from literal_lib [] plain_config"
  by (auto simp: built_from_def plain_config_def from_specs_def intro!: exI [of _ "[]"])

text \<open>
  C28. The route of a destination, as \<open>README.md\<close> and the comments of \<open>rule.rs\<close> document it: with a
  configuration built from a list of rules, the route of a domain is that of the first domain rule
  that matches it, the route of an IPv4 address is that of the address rule with the longest prefix
  that covers it, the first one among equally long prefixes, and the default route is used if no
  rule covers the address, and for every IPv6 address; the choice never panics. The comment on
  \<open>proxy_for\<close> itself, which speaks of the first applicable rule, is right for domains and wrong for
  addresses (see \<open>later_rule_chosen\<close>).
\<close>

theorem proxy_for_route:
  assumes "regex_set_spec R is_match" and "built_from R rs cfg"
  shows "proxy_for R cfg (Domain host port) =
      Inr (case find (\<lambda>(pat, a). is_match pat host) (domain_rules R rs) of
             Some (pat, a) \<Rightarrow> proxy a | None \<Rightarrow> default_proxy cfg) \<and>
    (\<forall>i. selected (address_rules rs) ip i \<longrightarrow>
       proxy_for R cfg (Ip (V4 ip) port) = Inr (proxy (rule_action (address_rules rs ! i)))) \<and>
    ((\<exists>r \<in> set (address_rules rs). covers r ip) \<longrightarrow> (\<exists>!i. selected (address_rules rs) ip i)) \<and>
    ((\<forall>r \<in> set (address_rules rs). \<not> covers r ip) \<longrightarrow>
       proxy_for R cfg (Ip (V4 ip) port) = Inr (default_proxy cfg)) \<and>
    proxy_for R cfg (Ip (V6 ip6) port) = Inr (default_proxy cfg)"
proof -
  from assms(2) obtain specs where b: "from_specs R specs = Inr (rules cfg)" "result_map (parse_spec R) specs = Inr rs"
    unfolding built_from_def by blast
  note m = match_ip_selected [OF b(2,1), of ip]
  have "\<exists>!i. selected (address_rules rs) ip i" if "\<exists>r \<in> set (address_rules rs). covers r ip"
    using that selected_exists selected_unique by (metis in_set_conv_nth)
  then show ?thesis
    using match_domain_find [OF assms(1) b(2,1), of host] m
    by (auto simp: proxy_for_def split: option.splits prod.splits)
qed

text \<open>A later rule with a longer prefix is chosen over an earlier one that is applicable too.\<close>

lemma later_rule_chosen:
  assumes "built_from R [(MCidr (ipv4_new 10 0 0 0) 8, \<lparr>proxy = Direct\<rparr>), (MCidr (ipv4_new 10 1 0 0) 16, \<lparr>proxy = route\<rparr>)] cfg"
  shows "proxy_for R cfg (Ip (V4 (ipv4_new 10 1 2 3)) port) = Inr route"
proof -
  let ?rs = "[(ipv4_new 10 0 0 0, 8, \<lparr>proxy = Direct\<rparr>), (ipv4_new 10 1 0 0, 16, \<lparr>proxy = route\<rparr>)]"
  let ?ip = "ipv4_new 10 1 2 3"
  have "covers (ipv4_new 10 1 0 0, 16, ()) ?ip" by code_simp
  then have "covers (?rs ! 1) ?ip" by (simp add: covers_def)
  then have "selected ?rs ?ip 1" by (auto simp: selected_def less_Suc_eq)
  with assms match_ip_selected [of R _ _ "rules cfg" ?ip] show ?thesis
    by (fastforce simp: built_from_def proxy_for_def address_rules_def)
qed

theorem proxy_for_route_witness:
  "\<exists>m. from_specs literal_lib sample_specs = Inr m \<and>
     proxy_for literal_lib \<lparr>default_proxy = Http ''d:1'' None, bind_mounts = [], publishes = [], command = [''sh''], rules = m\<rparr>
       (Ip (V4 (ipv4_new 11 0 0 1)) 80) = Inr (Http ''d:1'' None)"
proof -
  obtain m where m: "from_specs literal_lib sample_specs = Inr m"
    using sample_specs_build by blast
  let ?c = "\<lparr>default_proxy = Http ''d:1'' None, bind_mounts = [], publishes = [], command = [''sh''], rules = m\<rparr>"
  have b: "built_from literal_lib sample_rules ?c"
    using m sample_specs_parse by (auto simp: built_from_def)
  have "\<not> covers (ipv4_new 10 0 0 0, 8, \<lparr>proxy = Direct\<rparr>) (ipv4_new 11 0 0 1)"
    by code_simp
  then show ?thesis
    using proxy_for_route [OF literal_lib_set b, of _ 80 "ipv4_new 11 0 0 1"] m
    by (simp add: address_rules_def sample_rules_def)
qed

end
