(* ===== verification/Dns_Interceptor.thy ===== *)
theory Dns_Interceptor
  imports Fake_Dns Dns_Packet App_Config Stack
begin

text \<open>
  The DNS interceptor of \<open>src/src/event_loop/dns.rs\<close>: it owns the UDP socket that programs in the
  namespace use as their name server and the pool of fake addresses, answers every query and
  later turns a destination address back into the name it was handed out for. The pool is used
  through its interface \<open>fake_ip_pool\<close>, the socket through \<open>udp_lib\<close>.
\<close>

definition UDP_META_COUNT :: nat where "UDP_META_COUNT = 16"
definition UDP_BUF_SIZE :: nat where "UDP_BUF_SIZE = 4096"

record dns_interceptor =
  dns_handle :: handle
  dns_pool :: fake_dns

definition dns_new ::
  "('u, 'm) udp_lib \<Rightarrow> ('t, 'u) alloc \<Rightarrow> ('t, 'u) socket_set \<Rightarrow> panic + (dns_interceptor \<times> ('t, 'u) socket_set)" where
  "dns_new U alloc ss =
     (case u_bind U (udp_socket_new U UDP_META_COUNT UDP_BUF_SIZE) DNS_ADDR DNS_PORT of
        None \<Rightarrow> Inl Panic
      | Some sock \<Rightarrow>
          (case ss_add alloc ss (Udp sock) of (ss, h) \<Rightarrow> Inr (\<lparr>dns_handle = h, dns_pool = new\<rparr>, ss)))"

text \<open>The answer to one parsed query, with the pool after it.\<close>

definition dns_answer :: "fake_dns \<Rightarrow> u16 \<times> string \<times> u16 \<Rightarrow> fake_dns \<times> bytes" where
  "dns_answer pool query =
     (case query of (ident, domain, qtype) \<Rightarrow>
        if qtype = 1 then
          (case resolve pool domain of (pool, ip) \<Rightarrow> (pool, build_a_response ident domain ip))
        else (pool, build_empty_response ident domain qtype))"

partial_function (option) dns_loop ::
  "('u, 'm) udp_lib \<Rightarrow> 'u \<Rightarrow> fake_dns \<Rightarrow> (panic + ('u \<times> fake_dns)) option" where
  "dns_loop U sock pool =
     (if \<not> u_can_recv U sock then Some (Inr (sock, pool))
      else (case u_recv_slice U sock 1500 of
          (sock, None) \<Rightarrow> Some (Inr (sock, pool))
        | (sock, Some (data, meta)) \<Rightarrow>
            (case parse_query data of
               Inl p \<Rightarrow> Some (Inl p)
             | Inr None \<Rightarrow> dns_loop U sock pool
             | Inr (Some query) \<Rightarrow>
                 (case dns_answer pool query of
                    (pool, response) \<Rightarrow>
                      dns_loop U (if u_can_send U sock then u_send_slice U sock response meta else sock) pool))))"

definition dns_process ::
  "('u, 'm) udp_lib \<Rightarrow> dns_interceptor \<Rightarrow> ('t, 'u) socket_set \<Rightarrow>
   (panic + (dns_interceptor \<times> ('t, 'u) socket_set)) option" where
  "dns_process U self ss =
     (case get_udp ss (dns_handle self) of
        Inl p \<Rightarrow> Some (Inl p)
      | Inr sock \<Rightarrow>
          map_option (map_sum id (\<lambda>(sock, pool). (self\<lparr>dns_pool := pool\<rparr>, ss(dns_handle self \<mapsto> Udp sock))))
            (dns_loop U sock (dns_pool self)))"

definition target_for :: "dns_interceptor \<Rightarrow> ipv4 \<Rightarrow> u16 \<Rightarrow> proxy_target" where
  "target_for self addr port =
     (if is_fake_ip (dns_pool self) addr then
        (case lookup (dns_pool self) addr of
           Some domain \<Rightarrow> Domain domain port
         | None \<Rightarrow> Ip (V4 addr) port)
      else Ip (V4 addr) port)"

section \<open>Behaviour of the loop\<close>

text \<open>
  A socket with \<open>queued\<close> datagrams waiting: receiving needs and takes one of them, sending does
  not add any.
\<close>

definition udp_spec :: "('u, 'm) udp_lib \<Rightarrow> ('u \<Rightarrow> nat) \<Rightarrow> bool" where
  "udp_spec U queued \<longleftrightarrow>
     (\<forall>s. u_can_recv U s \<longrightarrow> 0 < queued s) \<and>
     (\<forall>s n. u_can_recv U s \<longrightarrow> queued (fst (u_recv_slice U s n)) < queued s) \<and>
     (\<forall>s bs m. queued (u_send_slice U s bs m) = queued s)"

lemma dns_answer_ok: "fake_dns_ok pool \<Longrightarrow> fake_dns_ok (fst (dns_answer pool q))"
  by (cases q) (simp add: dns_answer_def fd.resolve_inv case_prod_unfold)

lemma dns_loop_total:
  assumes "udp_spec U queued" and "fake_dns_ok pool"
  shows "\<exists>sock' pool'. dns_loop U sock pool = Some (Inr (sock', pool')) \<and> fake_dns_ok pool'"
  using assms(2)
proof (induction "queued sock" arbitrary: sock pool rule: less_induct)
  case less
  show ?case
  proof (cases "u_can_recv U sock")
    case False
    with less.prems show ?thesis by (subst dns_loop.simps) simp
  next
    case True
    obtain sock1 r where r: "u_recv_slice U sock 1500 = (sock1, r)" by fastforce
    have smaller: "queued sock1 < queued sock"
      using assms(1) True r unfolding udp_spec_def by (metis fst_conv)
    have sent: "queued (u_send_slice U sock1 bs m) = queued sock1" for bs m
      using assms(1) unfolding udp_spec_def by blast
    show ?thesis
    proof (cases r)
      case None
      with True r less.prems show ?thesis by (subst dns_loop.simps) simp
    next
      case (Some dm)
      obtain data meta where dm: "dm = (data, meta)" by (cases dm)
      obtain q where q: "parse_query data = Inr q" using parse_query_total by blast
      show ?thesis
      proof (cases q)
        case None
        have "dns_loop U sock pool = dns_loop U sock1 pool"
          by (subst dns_loop.simps) (simp add: True r Some dm q None)
        with less.hyps [OF smaller less.prems] show ?thesis by simp
      next
        case (Some query)
        obtain pool1 resp where a: "dns_answer pool query = (pool1, resp)" by fastforce
        let ?s = "if u_can_send U sock1 then u_send_slice U sock1 resp meta else sock1"
        have "dns_loop U sock pool = dns_loop U ?s pool1"
          by (subst dns_loop.simps) (simp add: True r \<open>r = Some dm\<close> dm q Some a)
        moreover have "queued ?s < queued sock" using smaller sent by simp
        moreover have "fake_dns_ok pool1" using dns_answer_ok [OF less.prems, of query] a by simp
        ultimately show ?thesis using less.hyps by simp
      qed
    qed
  qed
qed

text \<open>What the interceptor keeps true, with the socket set it lives in.\<close>

definition dns_inv :: "dns_interceptor \<Rightarrow> ('t, 'u) socket_set \<Rightarrow> bool" where
  "dns_inv self ss \<longleftrightarrow> dns_handle self \<in> udp_handles ss \<and> fake_dns_ok (dns_pool self)"

interpretation dns: socket_owner dns_inv "\<lambda>self. {dns_handle self}" same_kind
  by unfold_locales (auto simp: dns_inv_def udp_handles_def dest: same_kind_udp [unfolded udp_handles_def])

lemma dns_process_total:
  assumes "udp_spec U queued" and "dns_inv self ss"
  shows "\<exists>self' ss'. dns_process U self ss = Some (Inr (self', ss')) \<and> dns_inv self' ss' \<and>
    dns_handle self' = dns_handle self \<and> keeps_others {dns_handle self} ss {dns_handle self'} ss'"
proof -
  from assms(2) obtain sock where sock: "ss (dns_handle self) = Some (Udp sock)"
    by (auto simp: dns_inv_def udp_handles_def)
  from dns_loop_total [OF assms(1)] assms(2) obtain sock' pool' where
    "dns_loop U sock (dns_pool self) = Some (Inr (sock', pool'))" "fake_dns_ok pool'"
    unfolding dns_inv_def by blast
  then show ?thesis
    using sock assms(2) by (auto simp: dns_process_def get_udp_def dns_inv_def keeps_others_def)
qed

section \<open>Properties\<close>

text \<open>
  C37. The answer leads back to the question: in every state of the pool that the program can reach,
  the answer to a query for an A record is a response with an address of the pool, and a
  connection to that address is routed by the name that was asked, at any port.
\<close>

theorem dns_answer_leads_back:
  assumes "reach (\<lambda>d. d = new) dns_step (dns_pool self)"
    and "dns_answer (dns_pool self) (ident, domain, 1) = (pool', response)"
  shows "\<exists>ip. response = build_a_response ident domain ip \<and> is_fake_ip pool' ip \<and>
    target_for (self\<lparr>dns_pool := pool'\<rparr>) ip port = Domain domain port"
proof -
  note ok = fdc.reach_inv [OF assms(1)]
  obtain ip where r: "resolve (dns_pool self) domain = (pool', ip)" "response = build_a_response ident domain ip"
    using assms(2) by (auto simp: dns_answer_def split: prod.splits)
  with fd.resolve_lookup [OF ok, of domain] fd.resolve_is_fake [OF ok, of domain]
  have "lookup pool' ip = Some domain" "is_fake_ip pool' ip" by simp_all
  then have "target_for (self\<lparr>dns_pool := pool'\<rparr>) ip port = Domain domain port"
    by (simp add: target_for_def)
  with r(2) \<open>is_fake_ip pool' ip\<close> show ?thesis by blast
qed

theorem dns_answer_leads_back_witness:
  "\<exists>ip. snd (dns_answer new (7, ''a'', 1)) = build_a_response 7 ''a'' ip \<and>
     is_fake_ip (fst (dns_answer new (7, ''a'', 1))) ip \<and>
     target_for \<lparr>dns_handle = 0, dns_pool = fst (dns_answer new (7, ''a'', 1))\<rparr> ip 443 = Domain ''a'' 443"
  using dns_answer_leads_back [of "\<lparr>dns_handle = 0, dns_pool = new\<rparr>" 7 "''a''"
      "fst (dns_answer new (7, ''a'', 1))" "snd (dns_answer new (7, ''a'', 1))" 443]
  by (simp add: reach_init)

text \<open>
  The interceptor answers and returns: with any datagrams waiting, processing does not panic and
  ends, keeps the mapping consistent, and touches no socket but its own.
\<close>

lemma dns_process_returns:
  assumes "udp_spec U queued" and "dns_inv self ss"
  shows "\<exists>self' ss'. dns_process U self ss = Some (Inr (self', ss')) \<and> dns_inv self' ss' \<and>
    keeps_others {dns_handle self} ss {dns_handle self'} ss'"
  using dns_process_total [OF assms] by blast

text \<open>A socket as a list of waiting datagrams and of those sent.\<close>

definition queue_udp :: "((bytes list \<times> bytes list), unit) udp_lib" where
  "queue_udp = \<lparr>udp_socket_new = (\<lambda>_ _. ([], [])), u_bind = (\<lambda>u _ _. Some u),
     u_can_recv = (\<lambda>(q, out). q \<noteq> []), u_can_send = (\<lambda>u. True),
     u_recv_slice = (\<lambda>(q, out) n. case q of [] \<Rightarrow> (([], out), None)
       | p # q \<Rightarrow> ((q, out), if length p \<le> n then Some (p, ()) else None)),
     u_send_slice = (\<lambda>(q, out) bs m. (q, out @ [bs]))\<rparr>"

lemma queue_udp_spec: "udp_spec queue_udp (\<lambda>(q, out). length q)"
  by (auto simp: udp_spec_def queue_udp_def split: list.splits)

end
