(* ===== verification/Tun.thy ===== *)
theory Tun
  imports Prelude
begin

text \<open>
  The TUN device of \<open>src/src/tun.rs\<close>: the queue of packets between the file descriptor and the
  network stack, the tokens by which the stack takes packets from it and writes packets to it, and
  the recognition of TCP connection requests. The system calls are the parameter \<open>tun_lib\<close> over a
  kernel state. As a specification, the device is a queue between what is read from the descriptor
  and what the stack consumes.
\<close>

unbundle bit_operations_syntax

section \<open>The device\<close>

record 'k tun_lib =
  fcntl_getfl :: "'k \<Rightarrow> int \<Rightarrow> int"
  fcntl_setfl :: "'k \<Rightarrow> int \<Rightarrow> int \<Rightarrow> 'k \<times> int"
  or_nonblock :: "int \<Rightarrow> int"
  sys_read :: "'k \<Rightarrow> int \<Rightarrow> nat \<Rightarrow> 'k \<times> int \<times> bytes"
  sys_write :: "'k \<Rightarrow> int \<Rightarrow> bytes \<Rightarrow> 'k \<times> int"

definition TUN_MTU :: nat where "TUN_MTU = 65000"

definition MTU :: nat where "MTU = TUN_MTU"

record tun_device =
  fd :: int
  rx_queue :: "bytes list"

definition tun_new :: "'k tun_lib \<Rightarrow> 'k \<Rightarrow> int \<Rightarrow> 'k \<times> tun_device option" where
  "tun_new K k f =
     (let flags = fcntl_getfl K k f in
      if flags = -1 then (k, None)
      else (case fcntl_setfl K k f (or_nonblock K flags) of
          (k, ret) \<Rightarrow> if ret = -1 then (k, None) else (k, Some \<lparr>fd = f, rx_queue = []\<rparr>)))"

definition tun_poll_read :: "'k tun_lib \<Rightarrow> 'k \<Rightarrow> tun_device \<Rightarrow> 'k \<times> tun_device \<times> bool" where
  "tun_poll_read K k self =
     (case sys_read K k (fd self) (MTU + 100) of
        (k, n, buf) \<Rightarrow>
          if n \<le> 0 then (k, self, False)
          else (k, self\<lparr>rx_queue := rx_queue self @ [take (nat n) buf]\<rparr>, True))"

partial_function (option) read_packets :: "'k tun_lib \<Rightarrow> 'k \<Rightarrow> tun_device \<Rightarrow> ('k \<times> tun_device) option" where
  "read_packets K k self =
     (case tun_poll_read K k self of
        (k, self, got) \<Rightarrow> if got then read_packets K k self else Some (k, self))"

text \<open>
  The capabilities the stack asks for; \<open>caps\<close> are its defaults, whose other fields stay as they are.
\<close>

datatype link_medium = MediumEthernet | MediumIp | MediumIeee802154

record device_capabilities =
  caps_medium :: link_medium
  caps_mtu :: nat

definition capabilities :: "tun_device \<Rightarrow> device_capabilities \<Rightarrow> device_capabilities" where
  "capabilities self caps = caps\<lparr>caps_medium := MediumIp, caps_mtu := MTU\<rparr>"

text \<open>The tokens: a received packet, and the permission to write one.\<close>

record tun_rx_token =
  rx_buf :: bytes

record tun_tx_token =
  tx_fd :: int

definition tun_receive :: "tun_device \<Rightarrow> tun_device \<times> (tun_rx_token \<times> tun_tx_token) option" where
  "tun_receive self =
     (case rx_queue self of
        [] \<Rightarrow> (self, None)
      | buf # rest \<Rightarrow>
          let self = self\<lparr>rx_queue := rest\<rparr>;
              rx = \<lparr>rx_buf = buf\<rparr>;
              tx = \<lparr>tx_fd = fd self\<rparr>
          in (self, Some (rx, tx)))"

definition tun_transmit :: "tun_device \<Rightarrow> tun_tx_token option" where
  "tun_transmit self = Some \<lparr>tx_fd = fd self\<rparr>"

definition rx_consume :: "tun_rx_token \<Rightarrow> (bytes \<Rightarrow> 'r) \<Rightarrow> 'r" where
  "rx_consume self f = f (rx_buf self)"

text \<open>
  The buffer of \<open>len\<close> zeros is filled by \<open>f\<close> and written; a failed write is only reported in the log.
\<close>

definition tx_consume :: "'k tun_lib \<Rightarrow> 'k \<Rightarrow> tun_tx_token \<Rightarrow> nat \<Rightarrow> (bytes \<Rightarrow> bytes \<times> 'r) \<Rightarrow> 'k \<times> 'r" where
  "tx_consume K k self len f =
     (let buf = replicate len 0 in
      case f buf of (buf, result) \<Rightarrow>
        (case sys_write K k (tx_fd self) buf of (k, n) \<Rightarrow> (k, result)))"

section \<open>Connection requests\<close>

definition parse_tcp_syn :: "bytes \<Rightarrow> panic + (ipv4 \<times> u16 \<times> ipv4 \<times> u16) option" where
  "parse_tcp_syn packet =
     (if length packet < 40 then Inr None
      else
        result_bind (index_chk packet 0) (\<lambda>p0.
        if drop_bit 4 p0 \<noteq> 4 then Inr None
        else
          let ihl = unat (p0 AND 0x0F) * 4 in
          result_bind (index_chk packet 9) (\<lambda>protocol.
          if protocol \<noteq> 6 then Inr None
          else if length packet < ihl + 20 then Inr None
          else
            result_bind (index_chk packet (ihl + 13)) (\<lambda>flags.
            if \<not> (flags AND 2 \<noteq> 0 \<and> flags AND 16 = 0) then Inr None
            else
              result_bind (result_map (index_chk packet)
                [12, 13, 14, 15, 16, 17, 18, 19, ihl, ihl + 1, ihl + 2, ihl + 3]) (\<lambda>b.
              Inr (Some (ipv4_new (b ! 0) (b ! 1) (b ! 2) (b ! 3), from_be16 (b ! 8) (b ! 9),
                         ipv4_new (b ! 4) (b ! 5) (b ! 6) (b ! 7), from_be16 (b ! 10) (b ! 11))))))))"

section \<open>Packets\<close>

text \<open>
  An IPv4 packet with a TCP header, field by field, and the four endpoints of a connection
  request.
\<close>

definition tcp_packet ::
  "u8 \<Rightarrow> bytes \<Rightarrow> bytes \<Rightarrow> ipv4 \<Rightarrow> ipv4 \<Rightarrow> bytes \<Rightarrow> u16 \<Rightarrow> u16 \<Rightarrow> bytes \<Rightarrow> u8 \<Rightarrow> bytes \<Rightarrow> bytes" where
  "tcp_packet ihl pre mid src dst opts sport dport seqs flags rest =
     [0x40 OR ihl] @ pre @ [6] @ mid @ be32 src @ be32 dst @ opts @
     be16 sport @ be16 dport @ seqs @ [flags] @ rest"

definition tcp_layout :: "u8 \<Rightarrow> bytes \<Rightarrow> bytes \<Rightarrow> bytes \<Rightarrow> bytes \<Rightarrow> bytes \<Rightarrow> bool" where
  "tcp_layout ihl pre mid opts seqs rest \<longleftrightarrow>
     5 \<le> ihl \<and> ihl \<le> 15 \<and> length pre = 8 \<and> length mid = 2 \<and> length opts = 4 * (unat ihl - 5) \<and>
     length seqs = 9 \<and> 6 \<le> length rest"

lemma index_all:
  "\<forall>i \<in> set is. i < length p \<Longrightarrow> result_map (index_chk p) is = Inr (map ((!) p) is)"
  by (induction "is") auto

lemma ihl_nibble:
  assumes "ihl \<le> (15 :: u8)"
  shows "drop_bit 4 (0x40 OR ihl) = (4 :: u8)" "(0x40 OR ihl) AND 0x0F = ihl"
proof -
  have "unat ihl < 16" using assms by (simp add: word_le_nat_alt)
  then have "take_bit 4 ihl = ihl"
    by (simp add: word_eq_iff_unsigned [where ?'a = nat] unsigned_take_bit_eq take_bit_nat_eq_self)
  then have b: "bit ihl n \<Longrightarrow> n < 4" for n
    by (metis bit_take_bit_iff)
  have m: "(0x0F :: u8) = mask 4" "(0x40 :: u8) = push_bit 6 1" "(4 :: u8) = push_bit 2 1"
    by (simp_all add: mask_eq_exp_minus_1)
  show "drop_bit 4 (0x40 OR ihl) = (4 :: u8)"
    unfolding m by (rule bit_word_eqI) (auto simp: bit_simps dest: b)
  have z: "\<not> bit (0x40 :: u8) n" if "n < 4" for n
  proof -
    from that consider "n = 0" | "n = 1" | "n = 2" | "n = 3" by linarith
    then show ?thesis by cases simp_all
  qed
  show "(0x40 OR ihl) AND 0x0F = ihl"
    unfolding m(1) by (rule bit_word_eqI) (auto simp: bit_simps dest: b z)
qed

lemma from_be_of:
  "[a, b, c, d] = be32 w \<Longrightarrow> ipv4_new a b c d = w" "[a, b] = be16 v \<Longrightarrow> from_be16 a b = v"
  by (simp_all add: be32_def be16_def)

lemma nth_append_at: "length xs = n \<Longrightarrow> (xs @ ys) ! (n + k) = ys ! k"
  by (simp add: nth_append)

lemma tcp_packet_bytes:
  assumes "tcp_layout ihl pre mid opts seqs rest"
    and p_def: "p = tcp_packet ihl pre mid src dst opts sport dport seqs flags rest"
  shows "40 \<le> length p" "p ! 0 = 0x40 OR ihl" "p ! 9 = 6" "4 * unat ihl + 20 \<le> length p"
    "[p ! 12, p ! 13, p ! 14, p ! 15] = be32 src" "[p ! 16, p ! 17, p ! 18, p ! 19] = be32 dst"
    "[p ! (4 * unat ihl), p ! (4 * unat ihl + 1)] = be16 sport"
    "[p ! (4 * unat ihl + 2), p ! (4 * unat ihl + 3)] = be16 dport"
    "p ! (4 * unat ihl + 13) = flags"
proof -
  from assms(1) have len: "length pre = 8" "length mid = 2" "length opts = 4 * (unat ihl - 5)"
    "length seqs = 9" "6 \<le> length rest" and ihl: "5 \<le> unat ihl"
    by (simp_all add: tcp_layout_def word_le_nat_alt)
  let ?ip = "[0x40 OR ihl] @ pre @ [6] @ mid @ be32 src @ be32 dst @ opts"
  have lip: "length ?ip = 4 * unat ihl" using len ihl by simp
  let ?tcp = "be16 sport @ be16 dport @ seqs @ [flags] @ rest"
  have p: "p = ?ip @ ?tcp" by (simp add: p_def tcp_packet_def)
  have at: "p ! (4 * unat ihl + k) = ?tcp ! k" for k
    unfolding p by (rule nth_append_at [OF lip])
  show "40 \<le> length p" "4 * unat ihl + 20 \<le> length p"
    using len lip ihl unfolding p length_append by simp_all
  show "p ! 0 = 0x40 OR ihl" "p ! 9 = 6"
    using len by (simp_all add: p_def tcp_packet_def nth_append)
  show "[p ! 12, p ! 13, p ! 14, p ! 15] = be32 src" "[p ! 16, p ! 17, p ! 18, p ! 19] = be32 dst"
    using len by (simp_all add: p_def tcp_packet_def nth_append be32_def)
  show "[p ! (4 * unat ihl), p ! (4 * unat ihl + 1)] = be16 sport"
    using at [of 0] at [of 1] by (simp add: be16_def)
  show "[p ! (4 * unat ihl + 2), p ! (4 * unat ihl + 3)] = be16 dport"
    using at [of 2] at [of 3] by (simp add: be16_def nth_append)
  show "p ! (4 * unat ihl + 13) = flags"
    using at [of 13] len by (simp add: be16_def nth_append)
qed

section \<open>The device as a queue\<close>

text \<open>
  What a client can do with the device: fetch a packet from the descriptor, take the next packet
  and perhaps answer it with the token that comes with it, or write a packet of its own. The calls
  are recorded: the packets the client got, and those it wanted to send.
\<close>

datatype device_call = PollRead | Receive "bytes \<Rightarrow> bytes option" | Transmit bytes

record 'k device_run =
  run_kernel :: 'k
  run_device :: tun_device
  run_got :: "bytes list"
  run_wanted :: "bytes list"

definition send_packet :: "'k tun_lib \<Rightarrow> tun_tx_token \<Rightarrow> bytes \<Rightarrow> 'k device_run \<Rightarrow> 'k device_run" where
  "send_packet K tx p r =
     r\<lparr>run_kernel := fst (tx_consume K (run_kernel r) tx (length p) (\<lambda>_. (p, ()))), run_wanted := run_wanted r @ [p]\<rparr>"

fun device_step :: "'k tun_lib \<Rightarrow> 'k device_run \<Rightarrow> device_call \<Rightarrow> 'k device_run" where
  "device_step K r PollRead =
     (case tun_poll_read K (run_kernel r) (run_device r) of (k, d, got) \<Rightarrow> r\<lparr>run_kernel := k, run_device := d\<rparr>)"
| "device_step K r (Receive reply) =
     (case tun_receive (run_device r) of
        (d, None) \<Rightarrow> r\<lparr>run_device := d\<rparr>
      | (d, Some (rx, tx)) \<Rightarrow>
          let p = rx_consume rx id;
              r = r\<lparr>run_device := d, run_got := run_got r @ [p]\<rparr>
          in case reply p of None \<Rightarrow> r | Some out \<Rightarrow> send_packet K tx out r)"
| "device_step K r (Transmit out) =
     (case tun_transmit (run_device r) of None \<Rightarrow> r | Some tx \<Rightarrow> send_packet K tx out r)"

text \<open>
  The descriptor \<open>f\<close> as the kernel documents it: a read hands over one packet in the front of the
  buffer, or none; a write passes the whole packet on, or fails. Every call of \<open>write\<close> is logged in
  \<open>writes\<close> with its result, and the packets that went out in \<open>put\<close>.
\<close>

definition packet_log ::
  "'k tun_lib \<Rightarrow> int \<Rightarrow> ('k \<Rightarrow> bytes list) \<Rightarrow> ('k \<Rightarrow> (bytes \<times> int) list) \<Rightarrow>
   ('k \<Rightarrow> bytes list) \<Rightarrow> bool" where
  "packet_log K f taken writes put \<longleftrightarrow>
     (\<forall>w n w' r buf. sys_read K w f n = (w', r, buf) \<longrightarrow> writes w' = writes w \<and> put w' = put w \<and>
        (if 0 < r then \<exists>p rest. buf = p @ rest \<and> length p = nat r \<and> nat r \<le> n \<and> taken w' = taken w @ [p]
         else taken w' = taken w)) \<and>
     (\<forall>w p w' r. sys_write K w f p = (w', r) \<longrightarrow> taken w' = taken w \<and>
        writes w' = writes w @ [(p, r)] \<and> put w' = (if r < 0 then put w else put w @ [p]))"

definition passed_on :: "(bytes \<times> int) list \<Rightarrow> bytes list" where
  "passed_on ws = map fst (filter (\<lambda>(p, r). 0 \<le> r) ws)"

lemma passed_on_simps [simp]:
  "passed_on [] = []" "passed_on ((p, r) # ws) = (if r < 0 then passed_on ws else p # passed_on ws)"
  "passed_on (ws @ ws') = passed_on ws @ passed_on ws'"
  by (auto simp: passed_on_def)

text \<open>What a sequence of calls keeps: the relation of the device with the logs.\<close>

definition queue_moves ::
  "('k \<Rightarrow> bytes list) \<Rightarrow> ('k \<Rightarrow> (bytes \<times> int) list) \<Rightarrow> ('k \<Rightarrow> bytes list) \<Rightarrow>
   bytes list \<Rightarrow> bytes list \<Rightarrow> (bytes \<times> int) list \<Rightarrow>
   'k device_run \<Rightarrow> 'k device_run \<Rightarrow> bool" where
  "queue_moves taken writes put read got ws r r' \<longleftrightarrow>
     fd (run_device r') = fd (run_device r) \<and>
     taken (run_kernel r') = taken (run_kernel r) @ read \<and> run_got r' = run_got r @ got \<and>
     got @ rx_queue (run_device r') = rx_queue (run_device r) @ read \<and>
     (\<forall>p \<in> set read. p \<noteq> [] \<and> length p \<le> MTU + 100) \<and>
     writes (run_kernel r') = writes (run_kernel r) @ ws \<and> put (run_kernel r') = put (run_kernel r) @ passed_on ws \<and>
     run_wanted r' = run_wanted r @ map fst ws"

definition queue_step ::
  "('k \<Rightarrow> bytes list) \<Rightarrow> ('k \<Rightarrow> (bytes \<times> int) list) \<Rightarrow> ('k \<Rightarrow> bytes list) \<Rightarrow> 'k device_run \<Rightarrow> 'k device_run \<Rightarrow> bool" where
  "queue_step taken writes put r r' \<longleftrightarrow> (\<exists>read got ws. queue_moves taken writes put read got ws r r')"

lemma queue_step_refl: "queue_step taken writes put r r"
  unfolding queue_step_def by (intro exI [where x = "[]"]) (simp add: queue_moves_def)

lemma queue_moves_trans:
  assumes "queue_moves taken writes put read got ws r1 r2" and "queue_moves taken writes put read' got' ws' r2 r3"
  shows "queue_moves taken writes put (read @ read') (got @ got') (ws @ ws') r1 r3"
proof -
  note 1 = assms(1) [unfolded queue_moves_def] and 2 = assms(2) [unfolded queue_moves_def]
  have "(got @ got') @ rx_queue (run_device r3) = rx_queue (run_device r1) @ read @ read'"
    using 1 2 by (metis append.assoc)
  then show ?thesis unfolding queue_moves_def using 1 2 by (intro conjI) (simp_all add: ball_Un)
qed

lemma queue_step_trans:
  "queue_step taken writes put r1 r2 \<Longrightarrow> queue_step taken writes put r2 r3 \<Longrightarrow> queue_step taken writes put r1 r3"
  unfolding queue_step_def using queue_moves_trans by metis

lemma send_packet_step:
  assumes "packet_log K (fd (run_device r)) taken writes put" and "tx_fd tx = fd (run_device r)"
  shows "queue_step taken writes put r (send_packet K tx p r)"
proof -
  obtain w' n where w: "sys_write K (run_kernel r) (fd (run_device r)) p = (w', n)" by fastforce
  with assms(1) have "taken w' = taken (run_kernel r)" "writes w' = writes (run_kernel r) @ [(p, n)]"
    "put w' = (if n < 0 then put (run_kernel r) else put (run_kernel r) @ [p])"
    unfolding packet_log_def by blast+
  then show ?thesis by (auto intro!: exI [where x = "[(p, n)]"] simp: queue_step_def queue_moves_def send_packet_def tx_consume_def assms(2) w)
qed

lemma poll_read_queue:
  assumes "packet_log K (fd (run_device r)) taken writes put"
  shows "queue_step taken writes put r (device_step K r PollRead)"
proof -
  obtain w' n buf where s: "sys_read K (run_kernel r) (fd (run_device r)) (MTU + 100) = (w', n, buf)" by (metis prod.exhaust)
  show ?thesis
  proof (cases "0 < n")
    case True
    with assms s obtain p rest where "writes w' = writes (run_kernel r)" "put w' = put (run_kernel r)" "buf = p @ rest" "length p = nat n" "nat n \<le> MTU + 100"
      "taken w' = taken (run_kernel r) @ [p]" unfolding packet_log_def by metis
    with True show ?thesis by (auto simp: queue_step_def queue_moves_def tun_poll_read_def s)
  next
    case False
    with assms s have "writes w' = writes (run_kernel r)" "put w' = put (run_kernel r)" "taken w' = taken (run_kernel r)" unfolding packet_log_def by metis+
    with False show ?thesis by (simp add: queue_step_def queue_moves_def tun_poll_read_def s)
  qed
qed

lemma receive_queue:
  assumes log: "packet_log K (fd (run_device r)) taken writes put"
  shows "queue_step taken writes put r (device_step K r (Receive reply))"
proof (cases "rx_queue (run_device r)")
  case (Cons p rest)
  let ?r = "r\<lparr>run_device := (run_device r)\<lparr>rx_queue := rest\<rparr>, run_got := run_got r @ [p]\<rparr>"
  have 1: "queue_step taken writes put r ?r" by (simp add: queue_step_def queue_moves_def Cons)
  have "queue_step taken writes put ?r (send_packet K \<lparr>tx_fd = fd (run_device r)\<rparr> out ?r)" for out
    by (rule send_packet_step) (simp_all add: log)
  from queue_step_trans [OF 1 this] 1 show ?thesis
    by (simp add: tun_receive_def Cons rx_consume_def Let_def split: option.split)
qed (simp add: tun_receive_def queue_step_refl)

lemma device_step_queue:
  assumes "packet_log K (fd (run_device r)) taken writes put"
  shows "queue_step taken writes put r (device_step K r c)"
  using poll_read_queue [OF assms] receive_queue [OF assms] send_packet_step [OF assms]
  by (cases c) (simp_all add: tun_transmit_def)

lemma device_run_queue:
  "packet_log K (fd (run_device r)) taken writes put \<Longrightarrow> queue_step taken writes put r (foldl (device_step K) r cs)"
proof (induction cs arbitrary: r)
  case (Cons c cs)
  note step = device_step_queue [OF Cons.prems, of c]
  then have "fd (run_device (device_step K r c)) = fd (run_device r)" unfolding queue_step_def queue_moves_def by blast
  with Cons.IH [of "device_step K r c"] Cons.prems queue_step_trans [OF step] show ?case by simp
qed (simp add: queue_step_refl)

section \<open>Properties\<close>

text \<open>
  C13. The device is a faithful queue between the descriptor and the stack: whatever sequence of calls
  is made on a device from its construction on, the packets the stack got, followed by those still
  queued, are exactly the packets read from the descriptor, whole and in order, so that nothing is
  lost, repeated, reordered or cut; and every packet the stack sends is written to the descriptor
  exactly once, whole and in order, and what goes out are exactly the packets whose write did not fail.
\<close>

theorem device_is_queue:
  assumes "packet_log K f taken writes put" and "tun_new K w f = (w1, Some dev)"
    and "foldl (device_step K) \<lparr>run_kernel = w1, run_device = dev, run_got = [], run_wanted = []\<rparr> cs = r"
  shows "\<exists>read ws. taken (run_kernel r) = taken w1 @ read \<and> read = run_got r @ rx_queue (run_device r) \<and>
    (\<forall>p \<in> set read. p \<noteq> [] \<and> length p \<le> MTU + 100) \<and>
    writes (run_kernel r) = writes w1 @ ws \<and> map fst ws = run_wanted r \<and>
    put (run_kernel r) = put w1 @ map fst (filter (\<lambda>(p, n). 0 \<le> n) ws) \<and> fd (run_device r) = f"
proof -
  from assms(2) have d: "dev = \<lparr>fd = f, rx_queue = []\<rparr>"
    by (auto simp: tun_new_def Let_def split: if_splits prod.splits)
  let ?r0 = "\<lparr>run_kernel = w1, run_device = dev, run_got = [], run_wanted = []\<rparr>"
  have "packet_log K (fd (run_device ?r0)) taken writes put" using assms(1) d by simp
  from device_run_queue [OF this, of cs] show ?thesis
    unfolding assms(3) queue_step_def queue_moves_def passed_on_def by (auto simp: d)
qed

text \<open>
  The recogniser of connection requests reads no byte out of bounds, whatever a program in the
  namespace sends, including header lengths that point outside the packet.
\<close>

lemma parse_tcp_syn_total: "\<exists>r. parse_tcp_syn packet = Inr r"
proof (cases "length packet < 40")
  case False
  then have "\<forall>i \<in> set [12, 13, 14, 15, 16, 17, 18, 19]. i < length packet"
    "0 < length packet" "9 < length packet" by auto
  with index_all [of _ packet] show ?thesis
    by (auto simp: parse_tcp_syn_def Let_def)
qed (simp add: parse_tcp_syn_def)

text \<open>
  C40. A TCP packet over IPv4, with any options, is recognised exactly when its flags have SYN and not
  ACK, and the endpoints returned are those of its headers.
\<close>

theorem parse_tcp_syn_endpoints:
  assumes "tcp_layout ihl pre mid opts seqs rest"
  shows "parse_tcp_syn (tcp_packet ihl pre mid src dst opts sport dport seqs flags rest) =
    Inr (if flags AND 2 \<noteq> 0 \<and> flags AND 16 = 0 then Some (src, sport, dst, dport) else None)"
proof -
  define p where "p = tcp_packet ihl pre mid src dst opts sport dport seqs flags rest"
  note b = tcp_packet_bytes [OF assms p_def]
  have ihl: "ihl \<le> 15" using assms by (simp add: tcp_layout_def)
  note nib = ihl_nibble [OF ihl]
  define n where "n = unat ihl * 4"
  have n: "4 * unat ihl = n" by (simp add: n_def)
  note b = b [unfolded n]
  have "\<forall>i \<in> set [12, 13, 14, 15, 16, 17, 18, 19, n, n + 1, n + 2, n + 3]. i < length p"
    using b(1,4) by auto
  note idx = index_all [OF this]
  have chk: "index_chk p 0 = Inr (0x40 OR ihl)" "index_chk p 9 = Inr 6" "index_chk p (n + 13) = Inr flags"
    using b(1-4,9) by (auto simp: index_chk_def)
  have len: "\<not> length p < 40" "\<not> length p < n + 20" using b(1,4) by simp_all
  have ends: "ipv4_new (p ! 12) (p ! 13) (p ! 14) (p ! 15) = src" "ipv4_new (p ! 16) (p ! 17) (p ! 18) (p ! 19) = dst"
    "from_be16 (p ! n) (p ! Suc n) = sport" "from_be16 (p ! Suc (Suc n)) (p ! (n + 3)) = dport"
    using from_be_of(1) [OF b(5)] from_be_of(1) [OF b(6)] from_be_of(2) [OF b(7)] from_be_of(2) [OF b(8)]
    by simp_all
  show ?thesis
    unfolding p_def [symmetric] parse_tcp_syn_def Let_def chk result_bind_simps nib n_def [symmetric] idx
    using ends by (simp add: len)
qed

text \<open>
  A descriptor with packets to read and a log of the writes; empty packets are refused.
\<close>

definition logging_tun :: "(bytes list \<times> bytes list \<times> (bytes \<times> int) list) tun_lib" where
  "logging_tun = \<lparr>fcntl_getfl = (\<lambda>_ _. 0), fcntl_setfl = (\<lambda>w _ _. (w, 0)), or_nonblock = id,
     sys_read = (\<lambda>(waiting, taken, writes) _ n.
       case waiting of
         [] \<Rightarrow> (([], taken, writes), -1, [])
       | p # waiting \<Rightarrow>
           if p \<noteq> [] \<and> length p \<le> n then ((waiting, taken @ [p], writes), int (length p), p @ [0])
           else ((p # waiting, taken, writes), -1, [])),
     sys_write = (\<lambda>(waiting, taken, writes) _ p.
       let n = if p = [] then -1 else int (length p) in ((waiting, taken, writes @ [(p, n)]), n))\<rparr>"

lemma logging_tun_log:
  "packet_log logging_tun f (\<lambda>(_, taken, _). taken) (\<lambda>(_, _, writes). writes) (\<lambda>(_, _, writes). passed_on writes)"
  by (auto simp: packet_log_def logging_tun_def Let_def split: list.splits if_splits)

theorem device_is_queue_witness:
  "\<exists>r. foldl (device_step logging_tun)
       \<lparr>run_kernel = ([[1], [2, 3]], [], []), run_device = \<lparr>fd = 4, rx_queue = []\<rparr>, run_got = [], run_wanted = []\<rparr>
       [PollRead, PollRead, Receive (\<lambda>p. Some [9]), Transmit []] = r \<and>
     (case run_kernel r of (_, taken, writes) \<Rightarrow>
        taken = run_got r @ rx_queue (run_device r) \<and> map fst writes = run_wanted r) \<and>
     run_got r = [[1]] \<and> run_wanted r = [[9], []]"
proof -
  let ?r0 = "\<lparr>run_kernel = ([[1], [2, 3]], [], []), run_device = \<lparr>fd = 4, rx_queue = []\<rparr>, run_got = [], run_wanted = []\<rparr>"
  let ?cs = "[PollRead, PollRead, Receive (\<lambda>p. Some [9]), Transmit []]"
  let ?r = "foldl (device_step logging_tun) ?r0 ?cs"
  have new: "tun_new logging_tun ([[1], [2, 3]], [], []) 4 = (([[1], [2, 3]], [], []), Some \<lparr>fd = 4, rx_queue = []\<rparr>)"
    by (simp add: tun_new_def logging_tun_def)
  have "run_got ?r = [[1]] \<and> run_wanted ?r = [[9], []]"
    by (simp add: tun_poll_read_def tun_receive_def tun_transmit_def logging_tun_def rx_consume_def send_packet_def
        MTU_def TUN_MTU_def)
  with device_is_queue [OF logging_tun_log new refl, of ?cs] show ?thesis by auto
qed

theorem parse_tcp_syn_endpoints_witness:
  "parse_tcp_syn (tcp_packet 6 [0, 0, 44, 0, 0, 0, 0, 64] [0, 0] 0xAC17FFFF 0xC6120001 [1, 1, 1, 1]
     40000 443 [0, 0, 0, 1, 0, 0, 0, 0, 0x50] 2 [0, 0, 0, 0, 0, 0]) =
   Inr (Some (0xAC17FFFF, 40000, 0xC6120001, 443))"
  by (subst parse_tcp_syn_endpoints) (simp_all add: tcp_layout_def)

end
