(* ===== verification/Socks5.thy ===== *)
theory Socks5
  imports Proxy_Stream
begin

text \<open>
  The SOCKS5 connector of \<open>src/src/proxy/socks5.rs\<close>: method negotiation, username/password
  authentication, the CONNECT request and its reply, over the network library of
  \<open>Proxy_Stream\<close>. The theorems state the transcript of a successful handshake on both sides,
  that a correct server always leads to success with no tunnel byte consumed, that
  credentials go out only when the server asks for them, and that requests are unambiguous.
\<close>

section \<open>Constants and errors\<close>

definition SOCKS5_VERSION :: u8 where [wire_defs]: "SOCKS5_VERSION = 5"
definition METHOD_NO_AUTH :: u8 where [wire_defs]: "METHOD_NO_AUTH = 0"
definition METHOD_USER_PASS :: u8 where [wire_defs]: "METHOD_USER_PASS = 2"
definition METHOD_NO_ACCEPTABLE :: u8 where [wire_defs]: "METHOD_NO_ACCEPTABLE = 255"
definition CMD_CONNECT :: u8 where [wire_defs]: "CMD_CONNECT = 1"
definition RSV :: u8 where [wire_defs]: "RSV = 0"
definition ATYP_IPV4 :: u8 where [wire_defs]: "ATYP_IPV4 = 1"
definition ATYP_DOMAIN :: u8 where [wire_defs]: "ATYP_DOMAIN = 3"
definition ATYP_IPV6 :: u8 where [wire_defs]: "ATYP_IPV6 = 4"
definition REP_SUCCESS :: u8 where [wire_defs]: "REP_SUCCESS = 0"
definition AUTH_VERSION :: u8 where [wire_defs]: "AUTH_VERSION = 1"
definition AUTH_SUCCESS :: u8 where [wire_defs]: "AUTH_SUCCESS = 0"

datatype socks5_error =
    ConnectFailed string
  | WriteGreeting
  | ReadMethod
  | UnexpectedVersion u8
  | AuthRequired
  | NoAcceptableMethod
  | UnknownMethod u8
  | MissingCredentials
  | UsernameTooLong
  | PasswordTooLong
  | AuthWrite
  | AuthRead
  | AuthFailed u8
  | HostnameTooLong
  | WriteRequest
  | ReadReply
  | UnexpectedReplyVersion u8
  | ReplyFailed string u8
  | SkipRead
  | UnknownAtyp u8

record socks5_connector =
  s5_server :: string
  s5_auth :: "(string \<times> string) option"

definition socks5_new :: "string \<Rightarrow> (string \<times> string) option \<Rightarrow> socks5_connector" where
  "socks5_new server auth = \<lparr>s5_server = server, s5_auth = auth\<rparr>"

section \<open>The steps of the handshake\<close>

definition greeting :: "bool \<Rightarrow> bytes" where
  "greeting has_auth =
     (let methods = (if has_auth then [METHOD_NO_AUTH, METHOD_USER_PASS] else [METHOD_NO_AUTH])
      in [SOCKS5_VERSION, of_nat (length methods)] @ methods)"

definition negotiate_method :: "'s net_lib \<Rightarrow> bool \<Rightarrow> ('s, socks5_error, u8) io" where
  "negotiate_method N has_auth =
     io_bind (io_write N WriteGreeting (greeting has_auth)) (\<lambda>_.
     io_bind (io_read N ReadMethod 2) (\<lambda>resp.
       if resp ! 0 \<noteq> SOCKS5_VERSION then io_fail (UnexpectedVersion (resp ! 0))
       else if resp ! 1 = METHOD_NO_AUTH then io_return (resp ! 1)
       else if resp ! 1 = METHOD_USER_PASS then
         (if \<not> has_auth then io_fail AuthRequired else io_return (resp ! 1))
       else if resp ! 1 = METHOD_NO_ACCEPTABLE then io_fail NoAcceptableMethod
       else io_fail (UnknownMethod (resp ! 1))))"

definition auth_request :: "string \<Rightarrow> string \<Rightarrow> bytes" where
  "auth_request user pass =
     [AUTH_VERSION] @ [of_nat (length (as_bytes user))] @ as_bytes user @
     [of_nat (length (as_bytes pass))] @ as_bytes pass"

definition authenticate :: "'s net_lib \<Rightarrow> string \<Rightarrow> string \<Rightarrow> ('s, socks5_error, unit) io" where
  "authenticate N user pass =
     (if 255 < length (as_bytes user) then io_fail UsernameTooLong
      else if 255 < length (as_bytes pass) then io_fail PasswordTooLong
      else
        io_bind (io_write N AuthWrite (auth_request user pass)) (\<lambda>_.
        io_bind (io_read N AuthRead 2) (\<lambda>resp.
          if resp ! 1 \<noteq> AUTH_SUCCESS then io_fail (AuthFailed (resp ! 1)) else io_return ())))"

fun connect_request :: "proxy_target \<Rightarrow> socks5_error + bytes" where
  "connect_request (Ip (V4 v4) port) =
     Inr ([SOCKS5_VERSION, CMD_CONNECT, RSV] @ [ATYP_IPV4] @ octets v4 @ be16 port)"
| "connect_request (Ip (V6 v6) port) =
     Inr ([SOCKS5_VERSION, CMD_CONNECT, RSV] @ [ATYP_IPV6] @ v6_octets v6 @ be16 port)"
| "connect_request (Domain host port) =
     (if 255 < length (as_bytes host) then Inl HostnameTooLong
      else Inr ([SOCKS5_VERSION, CMD_CONNECT, RSV] @ [ATYP_DOMAIN] @
        [of_nat (length (as_bytes host))] @ as_bytes host @ be16 port))"

definition skip_addr :: "'s net_lib \<Rightarrow> u8 \<Rightarrow> ('s, socks5_error, unit) io" where
  "skip_addr N atyp =
     (if atyp = ATYP_IPV4 then io_bind (io_read N SkipRead 6) (\<lambda>_. io_return ())
      else if atyp = ATYP_IPV6 then io_bind (io_read N SkipRead 18) (\<lambda>_. io_return ())
      else if atyp = ATYP_DOMAIN then
        io_bind (io_read N SkipRead 1) (\<lambda>len_buf.
        io_bind (io_read N SkipRead (unat (len_buf ! 0) + 2)) (\<lambda>_. io_return ()))
      else io_fail (UnknownAtyp atyp))"

definition socks5_reply_message :: "u8 \<Rightarrow> string" where
  "socks5_reply_message rep =
     (if rep = 1 then ''general SOCKS server failure''
      else if rep = 2 then ''connection not allowed by ruleset''
      else if rep = 3 then ''network unreachable''
      else if rep = 4 then ''host unreachable''
      else if rep = 5 then ''connection refused''
      else if rep = 6 then ''TTL expired''
      else if rep = 7 then ''command not supported''
      else if rep = 8 then ''address type not supported''
      else ''unknown error'')"

definition send_connect_request :: "'s net_lib \<Rightarrow> proxy_target \<Rightarrow> ('s, socks5_error, unit) io" where
  "send_connect_request N target =
     (case connect_request target of
        Inl e \<Rightarrow> io_fail e
      | Inr req \<Rightarrow>
          io_bind (io_write N WriteRequest req) (\<lambda>_.
          io_bind (io_read N ReadReply 4) (\<lambda>hdr.
            if hdr ! 0 \<noteq> SOCKS5_VERSION then io_fail (UnexpectedReplyVersion (hdr ! 0))
            else if hdr ! 1 \<noteq> REP_SUCCESS then
              io_fail (ReplyFailed (socks5_reply_message (hdr ! 1)) (hdr ! 1))
            else skip_addr N (hdr ! 3))))"

definition socks5_handshake ::
  "'s net_lib \<Rightarrow> (string \<times> string) option \<Rightarrow> proxy_target \<Rightarrow> ('s, socks5_error, unit) io" where
  "socks5_handshake N auth target =
     io_bind (negotiate_method N (auth \<noteq> None)) (\<lambda>meth.
     io_bind (if meth = METHOD_USER_PASS then
                (case auth of
                   None \<Rightarrow> io_fail MissingCredentials
                 | Some (user, pass) \<Rightarrow> authenticate N user pass)
              else io_return ()) (\<lambda>_.
       send_connect_request N target))"

definition socks5_connect ::
  "'s net_lib \<Rightarrow> socks5_connector \<Rightarrow> proxy_target \<Rightarrow> dial list \<Rightarrow> dial list \<times> (socks5_error + 's proxy_stream)" where
  "socks5_connect N self target dialled =
     (case dial_out N (DialServer (s5_server self)) dialled of
        (dialled, None) \<Rightarrow> (dialled, Inl (ConnectFailed (s5_server self)))
      | (dialled, Some stream) \<Rightarrow>
          (dialled,
            case socks5_handshake N (s5_auth self) target stream of
              (stream, Inl e) \<Rightarrow> Inl e
            | (stream, Inr u) \<Rightarrow> Inr (proxy_stream_new stream [])))"

section \<open>The messages of the server\<close>

definition bound_address :: "u8 \<Rightarrow> bytes \<Rightarrow> bool" where
  "bound_address atyp body \<longleftrightarrow>
     atyp = ATYP_IPV4 \<and> length body = 6 \<or> atyp = ATYP_IPV6 \<and> length body = 18 \<or>
     atyp = ATYP_DOMAIN \<and> body \<noteq> [] \<and> length body = unat (hd body) + 3"

text \<open>What a successful server sends: its choice, the status of the authentication, its reply.\<close>

definition server_script :: "bool \<Rightarrow> u8 \<Rightarrow> bytes \<Rightarrow> bool" where
  "server_script has_auth meth input \<longleftrightarrow>
     (\<exists>v rsv atyp body.
        (meth = METHOD_NO_AUTH \<or> meth = METHOD_USER_PASS \<and> has_auth) \<and>
        input = [SOCKS5_VERSION, meth] @
          (if meth = METHOD_USER_PASS then [v, AUTH_SUCCESS] else []) @
          [SOCKS5_VERSION, REP_SUCCESS, rsv, atyp] @ body \<and>
        bound_address atyp body)"

text \<open>What the client sends, when the server chooses a method.\<close>

definition client_script :: "(string \<times> string) option \<Rightarrow> u8 \<Rightarrow> bytes \<Rightarrow> bytes" where
  "client_script auth meth req =
     greeting (auth \<noteq> None) @
     (case auth of Some (user, pass) \<Rightarrow> if meth = METHOD_USER_PASS then auth_request user pass else []
      | None \<Rightarrow> []) @ req"

section \<open>Transcripts\<close>

lemma length_2: "length xs = 2 \<longleftrightarrow> (\<exists>a b. xs = [a, b])"
  by (auto simp: numeral_2_eq_2 length_Suc_conv)

lemma length_4: "length xs = 4 \<longleftrightarrow> (\<exists>a b c d. xs = [a, b, c, d])"
  by (auto simp: numeral_eq_Suc length_Suc_conv)

text \<open>\<open>logged sent taken s s' out inp\<close>: from \<open>s\<close> to \<open>s'\<close>, \<open>out\<close> was sent and \<open>inp\<close> was taken.\<close>

definition logged :: "('s \<Rightarrow> bytes) \<Rightarrow> ('s \<Rightarrow> bytes) \<Rightarrow> 's \<Rightarrow> 's \<Rightarrow> bytes \<Rightarrow> bytes \<Rightarrow> bool" where
  "logged sent taken s s' out inp \<longleftrightarrow> sent s' = sent s @ out \<and> taken s' = taken s @ inp"

lemma logged_trans:
  "logged sent taken s1 s2 o1 i1 \<Longrightarrow> logged sent taken s2 s3 o2 i2 \<Longrightarrow> logged sent taken s1 s3 (o1 @ o2) (i1 @ i2)"
  by (simp add: logged_def)

lemma negotiate_ok:
  assumes "stream_spec N sent taken" and "negotiate_method N has_auth s = (s', Inr m)"
  shows "(m = METHOD_NO_AUTH \<or> m = METHOD_USER_PASS \<and> has_auth) \<and>
    logged sent taken s s' (greeting has_auth) [SOCKS5_VERSION, m]"
proof -
  from assms(2) obtain s1 resp where w: "write_all N s (greeting has_auth) = (s1, True)"
    and r: "read_exact N s1 2 = (s', Some resp)" and v: "resp ! 0 = SOCKS5_VERSION" "m = resp ! 1"
    and m: "m = METHOD_NO_AUTH \<or> m = METHOD_USER_PASS \<and> has_auth"
    by (auto simp: negotiate_method_def io_bind_Inr split: if_splits)
  from stream_write(1) [OF assms(1) w] stream_read(1) [OF assms(1) r] v m show ?thesis
    by (auto simp: logged_def length_2)
qed

lemma authenticate_ok:
  assumes "stream_spec N sent taken" and "authenticate N user pass s = (s', Inr u)"
  shows "\<exists>v. logged sent taken s s' (auth_request user pass) [v, AUTH_SUCCESS]"
proof -
  from assms(2) obtain s1 resp where w: "write_all N s (auth_request user pass) = (s1, True)"
    and r: "read_exact N s1 2 = (s', Some resp)" and v: "resp ! 1 = AUTH_SUCCESS"
    by (auto simp: authenticate_def io_bind_Inr split: if_splits)
  from stream_write(1) [OF assms(1) w] stream_read(1) [OF assms(1) r] v show ?thesis
    by (auto simp: logged_def length_2)
qed

lemma skip_addr_ok:
  assumes "stream_spec N sent taken" and "skip_addr N atyp s = (s', Inr u)"
  shows "\<exists>body. bound_address atyp body \<and> logged sent taken s s' [] body"
proof -
  have one: "\<exists>body. length body = n \<and> logged sent taken s s' [] body"
    if "read_exact N s n = (s', Some bs)" for n bs
    using stream_read(1) [OF assms(1) that] by (auto simp: logged_def)
  consider (v4) "atyp = ATYP_IPV4" | (v6) "atyp = ATYP_IPV6" | (domain) "atyp = ATYP_DOMAIN"
    using assms(2) by (auto simp: skip_addr_def split: if_splits)
  then show ?thesis
  proof cases
    case v4
    with assms(2) one [of 6] show ?thesis
      by (auto simp: skip_addr_def io_bind_Inr bound_address_def)
  next
    case v6
    with assms(2) one [of 18] show ?thesis
      by (auto simp: skip_addr_def io_bind_Inr bound_address_def wire_defs)
  next
    case domain
    with assms(2) obtain s1 lb bs where r: "read_exact N s 1 = (s1, Some lb)"
      "read_exact N s1 (unat (lb ! 0) + 2) = (s', Some bs)"
      by (auto simp: skip_addr_def io_bind_Inr wire_defs)
    note a = stream_read(1) [OF assms(1) r(1)] and b = stream_read(1) [OF assms(1) r(2)]
    from a obtain n where n: "lb = [n]" by (auto simp: length_Suc_conv)
    with a b have "logged sent taken s s' [] (n # bs)" "length bs = unat n + 2"
      by (auto simp: logged_def)
    with domain show ?thesis
      by (intro exI [of _ "n # bs"]) (simp add: bound_address_def)
  qed
qed

lemma send_connect_ok:
  assumes "stream_spec N sent taken" and "send_connect_request N target s = (s', Inr u)"
  shows "\<exists>req rsv atyp body. connect_request target = Inr req \<and> bound_address atyp body \<and>
    logged sent taken s s' req ([SOCKS5_VERSION, REP_SUCCESS, rsv, atyp] @ body)"
proof -
  from assms(2) obtain req s1 s2 hdr where req: "connect_request target = Inr req"
    and w: "write_all N s req = (s1, True)" and r: "read_exact N s1 4 = (s2, Some hdr)"
    and h: "hdr ! 0 = SOCKS5_VERSION" "hdr ! 1 = REP_SUCCESS" "skip_addr N (hdr ! 3) s2 = (s', Inr u)"
    by (auto simp: send_connect_request_def io_bind_Inr split: if_splits sum.splits)
  from skip_addr_ok [OF assms(1) h(3)] obtain body where body: "bound_address (hdr ! 3) body"
    "logged sent taken s2 s' [] body" by blast
  have "logged sent taken s s2 req hdr" and len: "length hdr = 4"
    using stream_write(1) [OF assms(1) w] stream_read(1) [OF assms(1) r] by (simp_all add: logged_def)
  with logged_trans [OF this(1) body(2)] have "logged sent taken s s' req (hdr @ body)" by simp
  moreover from len h(1,2) have "hdr = [SOCKS5_VERSION, REP_SUCCESS, hdr ! 2, hdr ! 3]"
    by (auto simp: length_4)
  ultimately show ?thesis
    using req body(1) by metis
qed

lemma handshake_ok:
  assumes "stream_spec N sent taken" and "socks5_handshake N auth target s = (s', Inr u)"
  shows "\<exists>meth req input. connect_request target = Inr req \<and> server_script (auth \<noteq> None) meth input \<and>
    logged sent taken s s' (client_script auth meth req) input"
proof -
  from assms(2) obtain s1 s2 meth where neg: "negotiate_method N (auth \<noteq> None) s = (s1, Inr meth)"
    and au: "(if meth = METHOD_USER_PASS then
        (case auth of None \<Rightarrow> io_fail MissingCredentials | Some (user, pass) \<Rightarrow> authenticate N user pass)
        else io_return ()) s1 = (s2, Inr ())"
    and send: "send_connect_request N target s2 = (s', Inr u)"
    by (auto simp: socks5_handshake_def io_bind_Inr)
  note n = negotiate_ok [OF assms(1) neg]
  from send_connect_ok [OF assms(1) send] obtain req rsv atyp body where
    s: "connect_request target = Inr req" "bound_address atyp body"
      "logged sent taken s2 s' req ([SOCKS5_VERSION, REP_SUCCESS, rsv, atyp] @ body)" by blast
  define arep where "arep v = (if meth = METHOD_USER_PASS then [v, AUTH_SUCCESS] else [])" for v
  define areq where "areq = (case auth of
      Some (user, pass) \<Rightarrow> if meth = METHOD_USER_PASS then auth_request user pass else [] | None \<Rightarrow> [])"
  have "\<exists>v. logged sent taken s1 s2 areq (arep v)"
  proof (cases "meth = METHOD_USER_PASS")
    case True
    with au obtain user pass where "auth = Some (user, pass)" "authenticate N user pass s1 = (s2, Inr ())"
      by (cases auth) auto
    with authenticate_ok [OF assms(1)] True show ?thesis
      by (auto simp: areq_def arep_def)
  next
    case False
    with au show ?thesis
      by (auto simp: areq_def arep_def logged_def split: option.splits)
  qed
  then obtain v where "logged sent taken s1 s2 areq (arep v)" ..
  from logged_trans [OF logged_trans [OF n [THEN conjunct2] this] s(3)]
  have "logged sent taken s s' (client_script auth meth req)
      ([SOCKS5_VERSION, meth] @ arep v @ [SOCKS5_VERSION, REP_SUCCESS, rsv, atyp] @ body)"
    by (simp add: client_script_def areq_def)
  with n s(1,2) show ?thesis
    unfolding server_script_def arep_def by blast
qed

section \<open>A correct server leads to success\<close>

lemma negotiate_live:
  assumes "live_spec N pending" and "pending s = [SOCKS5_VERSION, m] @ rest"
    and "m = METHOD_NO_AUTH \<or> m = METHOD_USER_PASS \<and> has_auth"
  obtains s' where "negotiate_method N has_auth s = (s', Inr m)" "pending s' = rest"
proof -
  obtain s1 where w: "write_all N s (greeting has_auth) = (s1, True)" "pending s1 = pending s"
    using live_write [OF assms(1)] .
  obtain s2 where r: "read_exact N s1 2 = (s2, Some [SOCKS5_VERSION, m])" "pending s2 = rest"
    using live_read [OF assms(1), of s1 "[SOCKS5_VERSION, m]" rest 2] w(2) assms(2) by auto
  have "negotiate_method N has_auth s = (s2, Inr m)"
    unfolding negotiate_method_def io_bind_Inr
    using w(1) r(1) assms(3) by (auto simp: wire_defs)
  with r(2) that show thesis by blast
qed

lemma authenticate_live:
  assumes "live_spec N pending" and "pending s = [v, AUTH_SUCCESS] @ rest"
    and "length user \<le> 255" and "length pass \<le> 255"
  obtains s' where "authenticate N user pass s = (s', Inr ())" "pending s' = rest"
proof -
  obtain s1 where w: "write_all N s (auth_request user pass) = (s1, True)" "pending s1 = pending s"
    using live_write [OF assms(1)] .
  obtain s2 where r: "read_exact N s1 2 = (s2, Some [v, AUTH_SUCCESS])" "pending s2 = rest"
    using live_read [OF assms(1), of s1 "[v, AUTH_SUCCESS]" rest 2] w(2) assms(2) by auto
  have "authenticate N user pass s = (s2, Inr ())"
    using w(1) r(1) assms(3,4) by (auto simp: authenticate_def io_bind_Inr as_bytes_def)
  with r(2) that show thesis by blast
qed

lemma skip_addr_live:
  assumes "live_spec N pending" and "pending s = body @ rest" and "bound_address atyp body"
  obtains s' where "skip_addr N atyp s = (s', Inr ())" "pending s' = rest"
proof -
  consider (fixed) n where "atyp = ATYP_IPV4 \<and> n = 6 \<or> atyp = ATYP_IPV6 \<and> n = 18" "length body = n"
    | (domain) l b where "atyp = ATYP_DOMAIN" "body = [l] @ b" "length b = unat l + 2"
    using assms(3) by (cases body) (auto simp: bound_address_def)
  then show thesis
  proof cases
    case fixed
    obtain s1 where r: "read_exact N s n = (s1, Some body)" "pending s1 = rest"
      using live_read [OF assms(1,2) fixed(2)] .
    then have "skip_addr N atyp s = (s1, Inr ())"
      using fixed(1) by (auto simp: skip_addr_def io_bind_Inr wire_defs)
    with r(2) that show thesis by blast
  next
    case domain
    obtain s1 where r1: "read_exact N s 1 = (s1, Some [l])" "pending s1 = b @ rest"
      using live_read [OF assms(1), of s "[l]" "b @ rest" 1] assms(2) domain(2) by auto
    obtain s2 where r2: "read_exact N s1 (unat l + 2) = (s2, Some b)" "pending s2 = rest"
      using live_read [OF assms(1) r1(2) domain(3)] .
    have "skip_addr N atyp s = (s2, Inr ())"
      using domain(1) r1(1) r2(1) by (auto simp: skip_addr_def io_bind_Inr wire_defs)
    with r2(2) that show thesis by blast
  qed
qed

lemma send_connect_live:
  assumes "live_spec N pending" and "pending s = [SOCKS5_VERSION, REP_SUCCESS, rsv, atyp] @ body @ rest"
    and "bound_address atyp body" and "connect_request target = Inr req"
  obtains s' where "send_connect_request N target s = (s', Inr ())" "pending s' = rest"
proof -
  let ?h = "[SOCKS5_VERSION, REP_SUCCESS, rsv, atyp]"
  obtain s1 where w: "write_all N s req = (s1, True)" "pending s1 = pending s"
    using live_write [OF assms(1)] .
  obtain s2 where r: "read_exact N s1 4 = (s2, Some ?h)" "pending s2 = body @ rest"
    using live_read [OF assms(1), of s1 ?h "body @ rest" 4] w(2) assms(2) by auto
  obtain s3 where k: "skip_addr N atyp s2 = (s3, Inr ())" "pending s3 = rest"
    using skip_addr_live [OF assms(1) r(2) assms(3)] .
  have "send_connect_request N target s = (s3, Inr ())"
    using w(1) r(1) k(1) assms(4)
    by (auto simp: send_connect_request_def io_bind_Inr numeral_3_eq_3)
  with k(2) that show thesis by blast
qed

lemma handshake_live:
  assumes "live_spec N pending" and "pending s = input @ rest"
    and "server_script (auth \<noteq> None) meth input" and "connect_request target = Inr req"
    and "\<forall>user pass. auth = Some (user, pass) \<longrightarrow> length user \<le> 255 \<and> length pass \<le> 255"
  obtains s' where "socks5_handshake N auth target s = (s', Inr ())" "pending s' = rest"
proof -
  from assms(3) obtain v rsv atyp body where m: "meth = METHOD_NO_AUTH \<or> meth = METHOD_USER_PASS \<and> auth \<noteq> None"
    and inp: "input = [SOCKS5_VERSION, meth] @ (if meth = METHOD_USER_PASS then [v, AUTH_SUCCESS] else []) @
      [SOCKS5_VERSION, REP_SUCCESS, rsv, atyp] @ body" and b: "bound_address atyp body"
    unfolding server_script_def by blast
  let ?reply = "[SOCKS5_VERSION, REP_SUCCESS, rsv, atyp] @ body @ rest"
  have "pending s = [SOCKS5_VERSION, meth] @ (if meth = METHOD_USER_PASS then [v, AUTH_SUCCESS] else []) @ ?reply"
    using assms(2) inp by simp
  from negotiate_live [OF assms(1) this m] obtain s1 where s1:
    "negotiate_method N (auth \<noteq> None) s = (s1, Inr meth)"
    "pending s1 = (if meth = METHOD_USER_PASS then [v, AUTH_SUCCESS] else []) @ ?reply" .
  obtain s2 where s2: "(if meth = METHOD_USER_PASS then
      (case auth of None \<Rightarrow> io_fail MissingCredentials | Some (user, pass) \<Rightarrow> authenticate N user pass)
      else io_return ()) s1 = (s2, Inr ())" "pending s2 = ?reply"
  proof (cases "meth = METHOD_USER_PASS")
    case True
    with m obtain user pass where auth: "auth = Some (user, pass)"
      by (auto simp: wire_defs)
    have "pending s1 = [v, AUTH_SUCCESS] @ ?reply" using s1(2) True by simp
    from authenticate_live [OF assms(1) this, of user pass] assms(5) auth obtain s2 where
      "authenticate N user pass s1 = (s2, Inr ())" "pending s2 = ?reply" by blast
    with True auth that show thesis by simp
  next
    case False
    with s1(2) that [of s1] show thesis by simp
  qed
  from send_connect_live [OF assms(1) s2(2) b assms(4)] obtain s3 where
    s3: "send_connect_request N target s2 = (s3, Inr ())" "pending s3 = rest" .
  have "socks5_handshake N auth target s = (s3, Inr ())"
    unfolding socks5_handshake_def io_bind_Inr using s1(1) s2(1) s3(1) by blast
  with s3(2) that show thesis by blast
qed

section \<open>Partial transcripts\<close>

lemma write_any:
  assumes "stream_spec N sent taken" and "write_all N s b = (s', ok)"
  shows "\<exists>k. logged sent taken s s' (take k b) []"
proof (cases ok)
  case True
  with stream_write(1) [OF assms(1)] assms(2) show ?thesis
    by (intro exI [of _ "length b"]) (simp add: logged_def)
next
  case False
  with stream_write(2) [OF assms(1)] assms(2) show ?thesis
    by (auto simp: logged_def)
qed

lemma read_any:
  assumes "stream_spec N sent taken" and "read_exact N s n = (s', r)"
  shows "\<exists>inp. logged sent taken s s' [] inp"
  using stream_read(1,2) [OF assms(1)] assms(2) by (cases r) (fastforce simp: logged_def)+

lemma skip_any:
  assumes "stream_spec N sent taken" and "skip_addr N atyp s = (s', r)"
  shows "\<exists>inp. logged sent taken s s' [] inp"
proof -
  have two: "\<exists>inp. logged sent taken s s2 [] inp"
    if "read_exact N s n = (s1, r1)" "read_exact N s1 k = (s2, r2)" for n k s1 s2 r1 r2
    using logged_trans [of sent taken s s1 "[]" _ s2 "[]"] read_any [OF assms(1) that(1)]
      read_any [OF assms(1) that(2)] by fastforce
  have none: "logged sent taken s s [] []" by (simp add: logged_def)
  show ?thesis
  proof (cases r)
    case (Inl e)
    then show ?thesis
      using assms(2) read_any [OF assms(1)] two none
      by (auto simp: skip_addr_def io_bind_Inl split: if_splits)
  next
    case (Inr u)
    with skip_addr_ok [OF assms(1)] assms(2) show ?thesis by blast
  qed
qed

lemma logged_full: "logged sent taken s s' (take k b) [] \<Longrightarrow> logged sent taken s' s'' [] inp \<Longrightarrow>
    logged sent taken s s'' (take k b) inp"
  by (simp add: logged_def)

lemma write_then_read:
  assumes "stream_spec N sent taken" and "write_all N s b = (s1, ok)" and "read_exact N s1 n = (s2, r)"
  shows "\<exists>k inp. logged sent taken s s2 (take k b) inp"
proof -
  obtain k inp where "logged sent taken s s1 (take k b) []" "logged sent taken s1 s2 [] inp"
    using write_any [OF assms(1,2)] read_any [OF assms(1,3)] by blast
  from logged_full [OF this] show ?thesis by blast
qed

lemma write_then:
  assumes "stream_spec N sent taken" and "write_all N s b = (s1, ok)"
  shows "\<exists>k inp. logged sent taken s s1 (take k b) inp"
  using write_any [OF assms] by blast

lemma negotiate_any:
  assumes "stream_spec N sent taken" and "negotiate_method N has_auth s = (s', r)"
  shows "\<exists>k inp. logged sent taken s s' (take k (greeting has_auth)) inp"
proof (cases r)
  case (Inl e)
  then show ?thesis
    using assms(2) write_any [OF assms(1)] write_then_read [OF assms(1)]
    by (auto simp: negotiate_method_def io_bind_Inl split: if_splits) blast+
next
  case (Inr m)
  with negotiate_ok [OF assms(1)] assms(2) show ?thesis
    by (metis order_refl take_all_iff)
qed

lemma send_any:
  assumes "stream_spec N sent taken" and "send_connect_request N target s = (s', r)"
  shows "\<exists>k inp. logged sent taken s s' (take k (case connect_request target of Inr req \<Rightarrow> req | Inl e \<Rightarrow> [])) inp"
proof (cases "connect_request target")
  case (Inl e)
  with assms(2) show ?thesis by (auto simp: send_connect_request_def logged_def)
next
  case req: (Inr req)
  have three: "\<exists>k inp. logged sent taken s s3 (take k req) inp"
    if "write_all N s req = (s1, ok)" "read_exact N s1 n = (s2, r1)" "skip_addr N a s2 = (s3, r2)"
    for s1 s2 s3 ok n r1 a r2
  proof -
    from write_then_read [OF assms(1) that(1,2)] skip_any [OF assms(1) that(3)]
    obtain k i j where "logged sent taken s s2 (take k req) i" "logged sent taken s2 s3 [] j" by blast
    from logged_trans [OF this] show ?thesis by auto
  qed
  show ?thesis
  proof (cases r)
    case (Inl e)
    then show ?thesis
      using assms(2) req write_then [OF assms(1)] write_then_read [OF assms(1)] three
      by (auto simp: send_connect_request_def io_bind_Inl split: if_splits) (fast+)?
  next
    case (Inr u)
    then show ?thesis
      using assms(2) req three by (auto simp: send_connect_request_def io_bind_Inr split: if_splits)
  qed
qed

lemma authenticate_any:
  assumes "stream_spec N sent taken" and "authenticate N user pass s = (s', r)"
  shows "\<exists>out inp. logged sent taken s s' out inp"
proof (cases r)
  case (Inl e)
  have "logged sent taken s s [] []" by (simp add: logged_def)
  with Inl show ?thesis
    using assms(2) write_then [OF assms(1)] write_then_read [OF assms(1)]
    by (auto simp: authenticate_def io_bind_Inl split: if_splits) blast+
next
  case (Inr u)
  with authenticate_ok [OF assms(1)] assms(2) show ?thesis by blast
qed

lemma after_negotiation_any:
  assumes "stream_spec N sent taken" and "negotiate_method N (auth \<noteq> None) s = (s1, Inr METHOD_USER_PASS)"
    and "socks5_handshake N auth target s = (s', r)"
  shows "\<exists>out inp. logged sent taken s1 s' out inp"
proof -
  from negotiate_ok [OF assms(1,2)] obtain user pass where auth: "auth = Some (user, pass)"
    by (cases auth) (auto simp: wire_defs)
  obtain s2 r2 where au: "authenticate N user pass s1 = (s2, r2)" by fastforce
  from authenticate_any [OF assms(1) au] obtain o1 i1 where l1: "logged sent taken s1 s2 o1 i1" by blast
  show ?thesis
  proof (cases r2)
    case (Inl e)
    with au auth assms(2,3) l1 show ?thesis by (auto simp: socks5_handshake_def io_bind_def)
  next
    case (Inr u)
    with au auth assms(2,3) have "send_connect_request N target s2 = (s', r)"
      by (simp add: socks5_handshake_def io_bind_def)
    from send_any [OF assms(1) this] l1 show ?thesis by (blast intro: logged_trans)
  qed
qed

section \<open>Requests\<close>

lemma v6_octets_inject: "v6_octets w = v6_octets v \<Longrightarrow> w = v"
proof (rule bit_word_eqI)
  fix n assume eq: "v6_octets w = v6_octets v" and "n < LENGTH(128)"
  define i where "i = 15 - n div 8"
  have i: "i < 16" "8 * (15 - i) + n mod 8 = n" using \<open>n < LENGTH(128)\<close> by (simp_all add: i_def)
  from eq have "v6_octets w ! i = v6_octets v ! i" by simp
  with i have "(ucast (drop_bit (8 * (15 - i)) w) :: u8) = ucast (drop_bit (8 * (15 - i)) v)"
    by (simp add: v6_octets_def del: upt_Suc)
  from arg_cong [OF this, of "\<lambda>x. bit x (n mod 8)"] i(2) show "bit w n = bit v n"
    by (simp add: bit_simps)
qed

lemma be32_eq_iff [simp]: "be32 a = be32 b \<longleftrightarrow> a = b"
proof
  assume eq: "be32 a = be32 b"
  have "from_be32 (be32 w ! 0) (be32 w ! 1) (be32 w ! 2) (be32 w ! 3) = w" for w
    by (simp add: be32_def)
  from this [of a] this [of b] show "a = b" by (simp add: eq)
qed simp

lemma be16_eq_iff [simp]: "be16 a = be16 b \<longleftrightarrow> a = b"
proof
  assume eq: "be16 a = be16 b"
  have "from_be16 (be16 w ! 0) (be16 w ! 1) = w" for w
    by (simp add: be16_def)
  from this [of a] this [of b] show "a = b" by (simp add: eq)
qed simp

lemma v6_octets_eq_iff [simp]: "v6_octets a = v6_octets b \<longleftrightarrow> a = b"
  using v6_octets_inject by blast

lemma length_v6_octets [simp]: "length (v6_octets w) = 16"
  by (simp add: v6_octets_def)

lemma of_nat_byte_inject:
  assumes "m \<le> 255" and "n \<le> 255" and "(of_nat m :: u8) = of_nat n"
  shows "m = n"
proof -
  have unat: "unat (of_nat k :: u8) = k" if "k \<le> 255" for k
    unfolding unat_of_nat using that by (intro mod_less) simp
  have "m = unat (of_nat m :: u8)" by (rule unat [OF assms(1), symmetric])
  also have "\<dots> = unat (of_nat n :: u8)" by (rule arg_cong [OF assms(3)])
  also have "\<dots> = n" by (rule unat [OF assms(2)])
  finally show ?thesis .
qed

lemma domain_request_unique:
  assumes "length h \<le> 255" and "length h' \<le> 255"
    and eq: "(of_nat (length h) :: u8) # as_bytes h @ be16 p @ x = of_nat (length h') # as_bytes h' @ be16 p' @ y"
  shows "h = h' \<and> p = p' \<and> x = y"
proof -
  from eq have "(of_nat (length h) :: u8) = of_nat (length h')" by (simp only: list.inject)
  with of_nat_byte_inject [OF assms(1,2)] have len: "length (as_bytes h) = length (as_bytes h')"
    by (simp add: as_bytes_def)
  from eq have "as_bytes h @ be16 p @ x = as_bytes h' @ be16 p' @ y" by (simp only: list.inject)
  with len have "as_bytes h = as_bytes h'" "p = p'" "x = y" by simp_all
  then show ?thesis by (metis of_bytes_as_bytes)
qed

lemmas socks5_consts = SOCKS5_VERSION_def METHOD_NO_AUTH_def METHOD_USER_PASS_def
  METHOD_NO_ACCEPTABLE_def CMD_CONNECT_def RSV_def ATYP_IPV4_def ATYP_DOMAIN_def ATYP_IPV6_def
  REP_SUCCESS_def AUTH_VERSION_def AUTH_SUCCESS_def

lemma connect_request_unique:
  assumes "connect_request t = Inr r" and "connect_request t' = Inr r'" and eq: "r @ x = r' @ y"
  shows "t = t' \<and> x = y"
proof (cases t rule: connect_request.cases)
  case (3 h p)
  show ?thesis
  proof (cases t' rule: connect_request.cases)
    case (3 h' p')
    from \<open>t = Domain h p\<close> 3 assms(1,2) have len: "length h \<le> 255" "length h' \<le> 255"
      by (auto simp: as_bytes_def split: if_splits)
    with \<open>t = Domain h p\<close> 3 assms domain_request_unique [OF len, of p x p' y] show ?thesis
      by (auto simp: as_bytes_def split: if_splits)
  qed (use \<open>t = Domain h p\<close> assms in \<open>auto simp: socks5_consts split: if_splits\<close>)
qed (cases t' rule: connect_request.cases; use assms in \<open>auto simp: socks5_consts split: if_splits\<close>)+

lemma socks5_connect_exchange:
  assumes "stream_spec N sent taken" and "socks5_connect N self target dialled = (dialled', Inr ps)"
  shows "\<exists>s meth req input. tcp_connect N dialled (DialServer (s5_server self)) = Some s \<and>
    connect_request target = Inr req \<and> server_script (s5_auth self \<noteq> None) meth input \<and>
    sent (inner ps) = sent s @ client_script (s5_auth self) meth req \<and>
    taken (inner ps) = taken s @ input \<and> unread ps = []"
proof -
  from assms(2) obtain s s' u where c: "tcp_connect N dialled (DialServer (s5_server self)) = Some s"
    "socks5_handshake N (s5_auth self) target s = (s', Inr u)" "ps = proxy_stream_new s' []"
    by (auto simp: socks5_connect_def dial_out_def split: option.splits prod.splits sum.splits)
  from handshake_ok [OF assms(1) c(2)] c(1,3) show ?thesis
    by (fastforce simp: logged_def)
qed

section \<open>Properties\<close>

text \<open>
  C30. The transcript of a successful connection: a stream is returned only after the client sent the
  greeting, the credentials exactly when the server chose that method, and one CONNECT
  request for the target, and after the server sent a choice the client had offered, a
  successful authentication status if there was one, and a success reply with a complete
  bound address; the stream holds no buffered bytes.
\<close>

theorem socks5_connect_transcript:
  assumes "stream_spec N sent taken" and "socks5_connect N self target dialled = (dialled', Inr ps)"
  shows "\<exists>s meth req input. tcp_connect N dialled (DialServer (s5_server self)) = Some s \<and>
    connect_request target = Inr req \<and> server_script (s5_auth self \<noteq> None) meth input \<and>
    sent (inner ps) = sent s @ client_script (s5_auth self) meth req \<and>
    taken (inner ps) = taken s @ input \<and> unread ps = []"
  using assms by (rule socks5_connect_exchange)

text \<open>
  C31. A correct server leads to a tunnel: if the server connects, chooses an offered method,
  accepts the credentials and replies with success, and the credentials and the host name fit
  their length bytes, then the connection succeeds, and the bytes the server sends after its
  reply are all still to be read from the stream.
\<close>

theorem socks5_connect_succeeds:
  assumes "live_spec N pending" and "tcp_connect N dialled (DialServer server) = Some s"
    and "pending s = input @ rest" and "server_script (auth \<noteq> None) meth input"
    and "\<forall>user pass. auth = Some (user, pass) \<longrightarrow> length user \<le> 255 \<and> length pass \<le> 255"
    and "\<forall>host port. target = Domain host port \<longrightarrow> length host \<le> 255"
  shows "\<exists>ps. socks5_connect N (socks5_new server auth) target dialled = (dialled @ [DialServer server], Inr ps) \<and>
    unread ps = [] \<and> pending (inner ps) = rest"
proof -
  obtain req where "connect_request target = Inr req"
    using assms(6) by (cases target rule: connect_request.cases) (auto simp: as_bytes_def)
  from handshake_live [OF assms(1,3,4) this assms(5)] obtain s' where
    "socks5_handshake N auth target s = (s', Inr ())" "pending s' = rest" .
  with assms(2) show ?thesis
    by (auto simp: socks5_connect_def socks5_new_def dial_out_def)
qed

text \<open>
  C32. Credentials are sent only on demand: in every outcome of the handshake, success or error,
  either the server's first two bytes chose username/password authentication, or everything
  sent is a prefix of the greeting followed by the CONNECT request, which do not depend on
  the credentials.
\<close>

theorem socks5_credentials_on_demand:
  assumes "stream_spec N sent taken" and "socks5_handshake N auth target s = (s', r)"
  shows "\<exists>out input. sent s' = sent s @ out \<and> taken s' = taken s @ input \<and>
    (take 2 input = [SOCKS5_VERSION, METHOD_USER_PASS] \<and> auth \<noteq> None \<or>
     (\<exists>k. out = take k (greeting (auth \<noteq> None) @
        (case connect_request target of Inr req \<Rightarrow> req | Inl e \<Rightarrow> []))))"
proof -
  obtain s1 r1 where neg: "negotiate_method N (auth \<noteq> None) s = (s1, r1)" by fastforce
  show ?thesis
  proof (cases r1)
    case (Inl e)
    with assms(2) neg have "s' = s1" by (simp add: socks5_handshake_def)
    moreover obtain k inp where "logged sent taken s s1 (take k (greeting (auth \<noteq> None))) inp"
      using negotiate_any [OF assms(1) neg] by blast
    moreover have "\<exists>k'. take k (greeting (auth \<noteq> None)) = take k' (greeting (auth \<noteq> None) @ req)" for req
      by (rule exI [of _ "min k (length (greeting (auth \<noteq> None)))"]) (simp add: min_def)
    ultimately show ?thesis unfolding logged_def by blast
  next
    case (Inr meth)
    note n = negotiate_ok [OF assms(1) neg [unfolded Inr]]
    show ?thesis
    proof (cases "meth = METHOD_USER_PASS")
      case True
      with n have auth: "auth \<noteq> None" by (auto simp: wire_defs)
      from after_negotiation_any [OF assms(1) neg [unfolded Inr True] assms(2)] obtain out inp where
        "logged sent taken s1 s' out inp" by blast
      from logged_trans [OF conjunct2 [OF n] this] True auth show ?thesis
        unfolding logged_def by (intro exI conjI) (assumption | simp)+
    next
      case False
      with assms(2) neg Inr have "send_connect_request N target s1 = (s', r)"
        by (simp add: socks5_handshake_def io_bind_def io_return_def)
      from send_any [OF assms(1) this] obtain k inp where
        "logged sent taken s1 s' (take k (case connect_request target of Inr req \<Rightarrow> req | Inl e \<Rightarrow> [])) inp"
        by blast
      from logged_trans [OF conjunct2 [OF n] this] show ?thesis
        unfolding logged_def
        by (metis (no_types, lifting) diff_add_inverse take_all_iff le_add1 take_append)
    qed
  qed
qed

text \<open>
  C33. Requests are unambiguous: a request is refused only for a host name of more than 255 bytes,
  and from the bytes of a request, whatever follows them, the server can recover the target;
  no length byte ever wraps around.
\<close>

theorem connect_request_unambiguous:
  "((\<exists>e. connect_request t = Inl e) \<longleftrightarrow> (\<exists>host port. t = Domain host port \<and> 255 < length host)) \<and>
   (connect_request t = Inr r \<longrightarrow> connect_request t' = Inr r' \<longrightarrow> r @ x = r' @ y \<longrightarrow> t = t' \<and> x = y)"
proof
  show "(\<exists>e. connect_request t = Inl e) \<longleftrightarrow> (\<exists>host port. t = Domain host port \<and> 255 < length host)"
    by (cases t rule: connect_request.cases) (auto simp: as_bytes_def)
  show "connect_request t = Inr r \<longrightarrow> connect_request t' = Inr r' \<longrightarrow> r @ x = r' @ y \<longrightarrow> t = t' \<and> x = y"
    using connect_request_unique by blast
qed

section \<open>Witnesses\<close>

definition sample_reply :: bytes where
  "sample_reply = [5, 0, 5, 0, 0, 1, 0, 0, 0, 0, 0, 0]"

lemma sample_reply_script: "server_script False 0 sample_reply"
  by (auto simp: server_script_def sample_reply_def socks5_consts bound_address_def)

lemma sample_connects: "tcp_connect (script_lib input) dialled d = Some \<lparr>script_in = input, script_sent = [], script_taken = []\<rparr>"
  by (simp add: script_lib_def)

lemma sample_result:
  "\<exists>ps. socks5_connect (script_lib (sample_reply @ [9])) (socks5_new ''p:1'' None) (Domain ''a'' 80) [] = ([DialServer ''p:1''], Inr ps)"
proof -
  let ?N = "script_lib (sample_reply @ [9])" and ?s = "\<lparr>script_in = sample_reply @ [9], script_sent = [], script_taken = []\<rparr>"
  obtain req where req: "connect_request (Domain ''a'' 80) = Inr req" by (simp add: as_bytes_def)
  have "script_in ?s = sample_reply @ [9]" "server_script (None \<noteq> None) 0 sample_reply"
    using sample_reply_script by simp_all
  from handshake_live [OF script_lib_live this req, of "sample_reply @ [9]"] obtain s' where
    "socks5_handshake ?N None (Domain ''a'' 80) ?s = (s', Inr ())" by auto
  then show ?thesis
    by (simp add: socks5_connect_def socks5_new_def dial_out_def sample_connects)
qed

theorem socks5_connect_transcript_witness:
  "\<exists>ps. socks5_connect (script_lib (sample_reply @ [9])) (socks5_new ''p:1'' None) (Domain ''a'' 80) [] = ([DialServer ''p:1''], Inr ps) \<and>
     script_sent (inner ps) = [5, 1, 0, 5, 1, 0, 3, 1, 97, 0, 80]"
proof -
  obtain ps where ps: "socks5_connect (script_lib (sample_reply @ [9])) (socks5_new ''p:1'' None) (Domain ''a'' 80) [] = ([DialServer ''p:1''], Inr ps)"
    using sample_result by blast
  from socks5_connect_transcript [OF script_lib_spec ps]
  have "script_sent (inner ps) = [5, 1, 0, 5, 1, 0, 3, 1, 97, 0, 80]"
    by (auto simp: sample_connects client_script_def socks5_new_def greeting_def socks5_consts
        as_bytes_def byte_of_char_def be16_def)
  with ps show ?thesis by blast
qed

theorem socks5_connect_succeeds_witness:
  "\<exists>ps. socks5_connect (script_lib (sample_reply @ [9])) (socks5_new ''p:1'' None) (Domain ''a'' 80) [] = ([DialServer ''p:1''], Inr ps) \<and>
     unread ps = [] \<and> script_in (inner ps) = [9]"
  by (rule socks5_connect_succeeds [where dialled = "[]", simplified append_Nil, OF script_lib_live sample_connects, where input = sample_reply and meth = 0])
    (use sample_reply_script in simp_all)

theorem socks5_credentials_on_demand_witness:
  "\<exists>s' r out. socks5_handshake (script_lib [5, 255]) (Some (''u'', ''p'')) (Domain ''a'' 80)
       \<lparr>script_in = [5, 255], script_sent = [], script_taken = []\<rparr> = (s', r) \<and>
     script_sent s' = out \<and> (\<exists>k. out = take k (greeting True @ [5, 1, 0, 3, 1, 97, 0, 80]))"
proof -
  let ?s = "\<lparr>script_in = [5, 255], script_sent = [], script_taken = []\<rparr>"
  obtain s' r where h: "socks5_handshake (script_lib [5, 255]) (Some (''u'', ''p'')) (Domain ''a'' 80) ?s = (s', r)"
    by fastforce
  then have "script_taken s' = [5, 255]"
    by (auto simp: socks5_handshake_def negotiate_method_def io_bind_def io_write_def io_read_def
        script_lib_def script_take_def script_write_def socks5_consts io_fail_def)
  with socks5_credentials_on_demand [OF script_lib_spec h]
  have "\<exists>k. script_sent s' = take k (greeting True @ [5, 1, 0, 3, 1, 97, 0, 80])"
    by (simp add: socks5_consts as_bytes_def byte_of_char_def be16_def)
  with h show ?thesis by blast
qed

theorem connect_request_unambiguous_witness:
  "connect_request (Domain ''a'' 80) = Inr [5, 1, 0, 3, 1, 97, 0, 80] \<and>
   {t. connect_request t = Inr [5, 1, 0, 3, 1, 97, 0, 80]} = {Domain ''a'' 80}"
proof -
  have r: "connect_request (Domain ''a'' 80) = Inr [5, 1, 0, 3, 1, 97, 0, 80]"
    by (simp add: socks5_consts as_bytes_def byte_of_char_def be16_def)
  with connect_request_unambiguous show ?thesis by blast
qed

end
