(* ===== verification/Base64.thy ===== *)
theory Base64
  imports Rust_Str
begin

text \<open>
  The inlined base64 encoder of \<open>src/src/proxy/http.rs\<close> (\<open>B64_ALPHABET\<close>, \<open>base64_encode\<close>), with a
  decoder as the reference that its output is compared against.
\<close>

unbundle bit_operations_syntax

definition B64_ALPHABET :: string where
  "B64_ALPHABET = ''ABCDEFGHIJKLMNOPQRSTUVWXYZabcdefghijklmnopqrstuvwxyz0123456789+/''"

text \<open>\<open>slice::chunks(3)\<close>\<close>

fun chunks3 :: "'a list \<Rightarrow> 'a list list" where
  "chunks3 [] = []"
| "chunks3 (a # b # c # xs) = [a, b, c] # chunks3 xs"
| "chunks3 xs = [xs]"

definition combined :: "bytes \<Rightarrow> u32" where
  "combined chunk =
     (let b0 = ucast (chunk ! 0);
          b1 = (if 1 < length chunk then ucast (chunk ! 1) else 0);
          b2 = (if 2 < length chunk then ucast (chunk ! 2) else 0)
      in push_bit 16 b0 OR push_bit 8 b1 OR b2)"

definition sextet :: "u32 \<Rightarrow> nat \<Rightarrow> nat" where
  "sextet w k = unat (drop_bit k w AND 0x3F)"

definition encode_chunk :: "bytes \<Rightarrow> string" where
  "encode_chunk chunk =
     (let w = combined chunk in
      [B64_ALPHABET ! sextet w 18, B64_ALPHABET ! sextet w 12] @
      (if 1 < length chunk then [B64_ALPHABET ! sextet w 6] else ''='') @
      (if 2 < length chunk then [B64_ALPHABET ! sextet w 0] else ''=''))"

definition base64_encode :: "bytes \<Rightarrow> string" where
  "base64_encode input = concat (map encode_chunk (chunks3 input))"

section \<open>The reference decoder\<close>

definition b64_value :: "char \<Rightarrow> u32 option" where
  "b64_value c =
     (let n = of_char c :: nat in
      if 65 \<le> n \<and> n \<le> 90 then Some (of_nat (n - 65))
      else if 97 \<le> n \<and> n \<le> 122 then Some (of_nat (n - 71))
      else if 48 \<le> n \<and> n \<le> 57 then Some (of_nat (n + 4))
      else if n = 43 then Some 62
      else if n = 47 then Some 63
      else None)"

definition join4 :: "u32 \<Rightarrow> u32 \<Rightarrow> u32 \<Rightarrow> u32 \<Rightarrow> bytes" where
  "join4 a b c d =
     (let w = push_bit 18 a OR push_bit 12 b OR push_bit 6 c OR d
      in [ucast (drop_bit 16 w), ucast (drop_bit 8 w), ucast w])"

fun b64_decode :: "string \<Rightarrow> bytes option" where
  "b64_decode [] = Some []"
| "b64_decode (c0 # c1 # c2 # c3 # rest) =
     (case (b64_value c0, b64_value c1) of
        (Some a, Some b) \<Rightarrow>
          if c2 = CHR ''='' then (if c3 = CHR ''='' \<and> rest = [] then Some (take 1 (join4 a b 0 0)) else None)
          else if c3 = CHR ''='' then
            (if rest = [] then map_option (\<lambda>c. take 2 (join4 a b c 0)) (b64_value c2) else None)
          else (case (b64_value c2, b64_value c3, b64_decode rest) of
              (Some c, Some d, Some bs) \<Rightarrow> Some (join4 a b c d @ bs)
            | _ \<Rightarrow> None)
      | _ \<Rightarrow> None)"
| "b64_decode _ = None"

section \<open>Correctness\<close>

lemma length_alphabet: "length B64_ALPHABET = 64"
  by (simp add: B64_ALPHABET_def)

lemma alphabet_value:
  assumes "i < 64"
  shows "b64_value (B64_ALPHABET ! i) = Some (of_nat i)"
proof -
  have "map b64_value B64_ALPHABET = map (\<lambda>i. Some (of_nat i)) [0..<64]"
    by (simp add: B64_ALPHABET_def b64_value_def upt_rec)
  then have "map b64_value B64_ALPHABET ! i = map (\<lambda>i. Some (of_nat i)) [0..<64] ! i" by simp
  with assms show ?thesis by (simp add: length_alphabet)
qed

lemma mask6: "(0x3F :: u32) = mask 6"
  by (simp add: mask_eq_exp_minus_1)

lemma sextet_bound [simp]: "sextet w k < 64"
proof -
  have "sextet w k = take_bit 6 (unat (drop_bit k w))"
    unfolding sextet_def mask6 by (simp add: unsigned_take_bit_eq flip: take_bit_eq_mask)
  then show ?thesis by (simp add: take_bit_eq_mod)
qed

lemma sextet_value [simp]: "b64_value (B64_ALPHABET ! sextet w k) = Some (drop_bit k w AND 0x3F)"
  by (simp add: alphabet_value) (simp add: sextet_def)

lemma sextet_not_pad [simp]: "B64_ALPHABET ! sextet w k \<noteq> CHR ''=''"
proof
  assume "B64_ALPHABET ! sextet w k = CHR ''=''"
  then have "b64_value CHR ''='' = Some (drop_bit k w AND 0x3F)" by (metis sextet_value)
  then show False by (simp add: b64_value_def)
qed

lemma low_bytes:
  fixes u w :: u32
  assumes "\<And>n. n < 24 \<Longrightarrow> bit u n \<longleftrightarrow> bit w n"
  shows "(ucast (drop_bit 16 u) :: u8) = ucast (drop_bit 16 w)"
    "(ucast (drop_bit 8 u) :: u8) = ucast (drop_bit 8 w)" "(ucast u :: u8) = ucast w"
  using assms by (auto intro!: bit_word_eqI simp: bit_ucast_iff bit_drop_bit_eq)

lemma join4_sextets:
  "join4 (drop_bit 18 w AND 0x3F) (drop_bit 12 w AND 0x3F) (drop_bit 6 w AND 0x3F) (drop_bit 0 w AND 0x3F) =
     [ucast (drop_bit 16 w), ucast (drop_bit 8 w), ucast w]"
proof -
  have "bit (push_bit 18 (drop_bit 18 w AND mask 6) OR push_bit 12 (drop_bit 12 w AND mask 6) OR
      push_bit 6 (drop_bit 6 w AND mask 6) OR (drop_bit 0 w AND mask 6)) n \<longleftrightarrow> bit w n"
    if n: "n < 24" for n
  proof -
    from n consider "n < 6" | "6 \<le> n" "n < 12" | "12 \<le> n" "n < 18" | "18 \<le> n" by linarith
    then show ?thesis using n by cases (auto simp: bit_simps)
  qed
  from low_bytes [OF this] show ?thesis
    unfolding mask6 join4_def Let_def by (simp only: refl)
qed

lemma combined_bytes:
  "[ucast (drop_bit 16 (combined [a, b, c])), ucast (drop_bit 8 (combined [a, b, c])), ucast (combined [a, b, c])] = [a, b, c]"
  by (auto simp: combined_def Let_def intro!: bit_word_eqI simp: bit_simps)
    (auto dest!: bit_imp_le_length)

lemma combined_short: "combined [a, b] = combined [a, b, 0]" "combined [a] = combined [a, 0, 0]"
  by (simp_all add: combined_def)

lemma combined_zero:
  "drop_bit 0 (combined [a, b, 0]) AND 0x3F = 0"
  "drop_bit 0 (combined [a, 0, 0]) AND 0x3F = 0" "drop_bit 6 (combined [a, 0, 0]) AND 0x3F = 0"
  unfolding mask6 by (auto simp: combined_def intro!: bit_word_eqI simp: bit_simps)

lemma encode_chunk_simps:
  "encode_chunk [a, b, c] = (let w = combined [a, b, c] in
     [B64_ALPHABET ! sextet w 18, B64_ALPHABET ! sextet w 12, B64_ALPHABET ! sextet w 6, B64_ALPHABET ! sextet w 0])"
  "encode_chunk [a, b] = (let w = combined [a, b, 0] in
     [B64_ALPHABET ! sextet w 18, B64_ALPHABET ! sextet w 12, B64_ALPHABET ! sextet w 6, CHR ''=''])"
  "encode_chunk [a] = (let w = combined [a, 0, 0] in
     [B64_ALPHABET ! sextet w 18, B64_ALPHABET ! sextet w 12, CHR ''='', CHR ''=''])"
  by (simp_all add: encode_chunk_def combined_short Let_def)

lemma join4_combined:
  "join4 (drop_bit 18 (combined [a, b, c]) AND 0x3F) (drop_bit 12 (combined [a, b, c]) AND 0x3F)
     (drop_bit 6 (combined [a, b, c]) AND 0x3F) (drop_bit 0 (combined [a, b, c]) AND 0x3F) = [a, b, c]"
  by (simp only: join4_sextets combined_bytes)

lemma decode_encode: "b64_decode (base64_encode xs) = Some xs"
proof (induction xs rule: chunks3.induct, goal_cases)
  case 1
  then show ?case by (simp add: base64_encode_def)
next
  case (2 a b c xs)
  then show ?case
    using join4_combined [of a b c]
    by (simp add: base64_encode_def encode_chunk_simps Let_def del: drop_bit_0)
next
  case (3 a)
  then show ?case
    using join4_combined [of a 0 0, unfolded combined_zero]
    by (simp add: base64_encode_def encode_chunk_simps Let_def)
next
  case (4 a b)
  then show ?case
    using join4_combined [of a b 0, unfolded combined_zero]
    by (simp add: base64_encode_def encode_chunk_simps Let_def)
qed

lemma encode_chunk_chars: "set (encode_chunk chunk) \<subseteq> set B64_ALPHABET \<union> {CHR ''=''}"
proof -
  have "B64_ALPHABET ! sextet w k \<in> set B64_ALPHABET" for w k
    using nth_mem [of "sextet w k" B64_ALPHABET] by (simp add: length_alphabet)
  then show ?thesis by (simp add: encode_chunk_def Let_def)
qed

lemma length_encode_chunk [simp]: "length (encode_chunk chunk) = 4"
  by (simp add: encode_chunk_def Let_def)

lemma length_base64: "length (base64_encode xs) = 4 * ((length xs + 2) div 3)"
proof (induction xs rule: chunks3.induct)
  case (2 a b c xs)
  have "(length xs + 5) div 3 = Suc ((length xs + 2) div 3)" by presburger
  with 2 show ?case by (simp add: base64_encode_def add.commute)
qed (simp_all add: base64_encode_def)

section \<open>Properties\<close>

text \<open>
  C36. The encoder is correct base64: for every input, decoding its output gives the input back,
  the output has four characters for every started group of three bytes, and it consists of
  the 64 characters of the alphabet and the padding character only, so every index into the
  alphabet is in range and no output can end a header line.
\<close>

theorem base64_encode_correct:
  "b64_decode (base64_encode input) = Some input \<and>
   length (base64_encode input) = 4 * ((length input + 2) div 3) \<and>
   set (base64_encode input) \<subseteq> set B64_ALPHABET \<union> {CHR ''=''}"
  using decode_encode length_base64 encode_chunk_chars
  by (auto simp: base64_encode_def dest: subsetD)

end
