(* ===== verification/Http_Connect.thy ===== *)
theory Http_Connect
  imports Proxy_Stream Base64
begin

text \<open>
  The HTTP CONNECT connector of \<open>src/src/proxy/http.rs\<close>: the request, the status line, the loop
  that drains the response headers and the stream that keeps what the buffered reader has
  already fetched of the tunnel. The buffered reader belongs to \<open>tokio\<close>: it is the parameter
  \<open>buf_lib\<close>, with its documented behaviour as \<open>buf_spec\<close> (what a line takes from the buffer and
  the socket) and \<open>lines_spec\<close> (a connection that does not fail). The loop may run for ever when
  the proxy never stops sending headers, so it is a partial function.
\<close>

section \<open>The buffered reader as a parameter\<close>

record ('s, 'b) buf_lib =
  buf_new :: "'s \<Rightarrow> 'b"
  buf_write_all :: "'b \<Rightarrow> bytes \<Rightarrow> 'b \<times> bool"
  buf_read_line :: "'b \<Rightarrow> 'b \<times> string option"
  buf_buffer :: "'b \<Rightarrow> bytes"
  buf_into_inner :: "'b \<Rightarrow> 's"

definition buf_spec :: "('s, 'b) buf_lib \<Rightarrow> ('s \<Rightarrow> bytes) \<Rightarrow> ('s \<Rightarrow> bytes) \<Rightarrow> bool" where
  "buf_spec B sent taken \<longleftrightarrow>
     (\<forall>s. buf_buffer B (buf_new B s) = [] \<and> buf_into_inner B (buf_new B s) = s) \<and>
     (\<forall>b bs b'. buf_write_all B b bs = (b', True) \<longrightarrow>
        sent (buf_into_inner B b') = sent (buf_into_inner B b) @ bs \<and>
        taken (buf_into_inner B b') = taken (buf_into_inner B b) \<and> buf_buffer B b' = buf_buffer B b) \<and>
     (\<forall>b b' line. buf_read_line B b = (b', Some line) \<longrightarrow>
        sent (buf_into_inner B b') = sent (buf_into_inner B b) \<and>
        (\<exists>got. taken (buf_into_inner B b') = taken (buf_into_inner B b) @ got \<and>
           buf_buffer B b @ got = as_bytes line @ buf_buffer B b'))"

section \<open>The connector\<close>

definition CR :: char where "CR = CHR 0x0D"
definition LF :: char where "LF = CHR 0x0A"

datatype http_error =
    HttpConnectFailed string
  | HttpWriteRequest
  | HttpReadStatus
  | NotHttp string
  | MalformedStatus string
  | InvalidStatusCode string
  | HttpFailed string u16
  | HttpReadHeader

record http_connector =
  ht_server :: string
  ht_auth :: "(string \<times> string) option"

definition http_new :: "string \<Rightarrow> (string \<times> string) option \<Rightarrow> http_connector" where
  "http_new server auth = \<lparr>ht_server = server, ht_auth = auth\<rparr>"

definition http_request :: "proxy_target \<Rightarrow> (string \<times> string) option \<Rightarrow> string" where
  "http_request target auth =
     (let target_str = show_target target;
          request = ''CONNECT '' @ target_str @ '' HTTP/1.1'' @ [CR, LF] @ ''Host: '' @ target_str @ [CR, LF]
      in request @
         (case auth of
            None \<Rightarrow> []
          | Some (user, pass) \<Rightarrow>
              ''Proxy-Authorization: Basic '' @ base64_encode (as_bytes (user @ '':'' @ pass)) @ [CR, LF]) @
         [CR, LF])"

definition parse_status_code :: "string \<Rightarrow> http_error + u16" where
  "parse_status_code status_line =
     (let parts = splitn 3 CHR '' '' status_line;
          version = (case parts of [] \<Rightarrow> [] | v # _ \<Rightarrow> v)
      in if \<not> starts_with ''HTTP/'' version then Inl (NotHttp status_line)
         else (case tl parts of
             [] \<Rightarrow> Inl (MalformedStatus status_line)
           | code_str # _ \<Rightarrow> or_err (InvalidStatusCode code_str) (parse_u16 code_str)))"

partial_function (option) drain_headers :: "('s, 'b) buf_lib \<Rightarrow> 'b \<Rightarrow> ('b \<times> (http_error + unit)) option" where
  "drain_headers B b =
     (case buf_read_line B b of
        (b, None) \<Rightarrow> Some (b, Inl HttpReadHeader)
      | (b, Some line) \<Rightarrow>
          if trim_end_matches [CR, LF] line = [] then Some (b, Inr ()) else drain_headers B b)"

definition do_connect ::
  "('s, 'b) buf_lib \<Rightarrow> 's \<Rightarrow> proxy_target \<Rightarrow> (string \<times> string) option \<Rightarrow> (http_error + 's proxy_stream) option" where
  "do_connect B stream target auth =
     (case buf_write_all B (buf_new B stream) (as_bytes (http_request target auth)) of
        (b, False) \<Rightarrow> Some (Inl HttpWriteRequest)
      | (b, True) \<Rightarrow>
          (case buf_read_line B b of
             (b, None) \<Rightarrow> Some (Inl HttpReadStatus)
           | (b, Some status_line) \<Rightarrow>
               (case parse_status_code (trim_end_matches [CR, LF] status_line) of
                  Inl e \<Rightarrow> Some (Inl e)
                | Inr status_code \<Rightarrow>
                    if status_code \<noteq> 200 then Some (Inl (HttpFailed (show_target target) status_code))
                    else (case drain_headers B b of
                        None \<Rightarrow> None
                      | Some (b, Inl e) \<Rightarrow> Some (Inl e)
                      | Some (b, Inr u) \<Rightarrow>
                          Some (Inr (proxy_stream_new (buf_into_inner B b) (buf_buffer B b)))))))"

definition http_connect ::
  "'s net_lib \<Rightarrow> ('s, 'b) buf_lib \<Rightarrow> http_connector \<Rightarrow> proxy_target \<Rightarrow> dial list \<Rightarrow>
   dial list \<times> (http_error + 's proxy_stream) option" where
  "http_connect N B self target dialled =
     (case dial_out N (DialServer (ht_server self)) dialled of
        (dialled, None) \<Rightarrow> (dialled, Some (Inl (HttpConnectFailed (ht_server self))))
      | (dialled, Some stream) \<Rightarrow> (dialled, do_connect B stream target (ht_auth self)))"

section \<open>The response, line by line\<close>

definition blank :: "string \<Rightarrow> bool" where
  "blank line \<longleftrightarrow> trim_end_matches [CR, LF] line = []"

lemma blank_iff: "blank line \<longleftrightarrow> set line \<subseteq> {CR, LF}"
  by (auto simp: blank_def trim_end_matches_def)

definition response_lines :: "string list \<Rightarrow> bool" where
  "response_lines ls \<longleftrightarrow>
     (\<exists>status headers end_line. ls = status # headers @ [end_line] \<and>
        parse_status_code (trim_end_matches [CR, LF] status) = Inr 200 \<and>
        (\<forall>h \<in> set headers. \<not> blank h) \<and> blank end_line)"

text \<open>\<open>lines_taken B sent taken b b' ls\<close>: reading the lines \<open>ls\<close> leads from \<open>b\<close> to \<open>b'\<close>.\<close>

definition lines_taken ::
  "('s, 'b) buf_lib \<Rightarrow> ('s \<Rightarrow> bytes) \<Rightarrow> ('s \<Rightarrow> bytes) \<Rightarrow> 'b \<Rightarrow> 'b \<Rightarrow> string list \<Rightarrow> bool" where
  "lines_taken B sent taken b b' ls \<longleftrightarrow>
     sent (buf_into_inner B b') = sent (buf_into_inner B b) \<and>
     (\<exists>got. taken (buf_into_inner B b') = taken (buf_into_inner B b) @ got \<and>
        buf_buffer B b @ got = as_bytes (concat ls) @ buf_buffer B b')"

lemma lines_taken_one:
  assumes "buf_spec B sent taken" and "buf_read_line B b = (b', Some line)"
  shows "lines_taken B sent taken b b' [line]"
  using assms unfolding buf_spec_def lines_taken_def by auto

lemma lines_taken_trans:
  assumes "lines_taken B sent taken b b' ls" and "lines_taken B sent taken b' b'' ks"
  shows "lines_taken B sent taken b b'' (ls @ ks)"
proof -
  from assms obtain g h where "sent (buf_into_inner B b'') = sent (buf_into_inner B b)"
    "taken (buf_into_inner B b') = taken (buf_into_inner B b) @ g"
    "buf_buffer B b @ g = as_bytes (concat ls) @ buf_buffer B b'"
    "taken (buf_into_inner B b'') = taken (buf_into_inner B b') @ h"
    "buf_buffer B b' @ h = as_bytes (concat ks) @ buf_buffer B b''"
    unfolding lines_taken_def by auto
  then show ?thesis
    unfolding lines_taken_def by (intro conjI exI [of _ "g @ h"]) (simp_all add: append_assoc [symmetric]
      del: append_assoc, simp)
qed

lemma drain_headers_lines:
  assumes "buf_spec B sent taken" and "drain_headers B b = Some (b', Inr u)"
  shows "\<exists>headers end_line. (\<forall>h \<in> set headers. \<not> blank h) \<and> blank end_line \<and>
    (\<exists>b''. buf_read_line B b'' = (b', Some end_line)) \<and> lines_taken B sent taken b b' (headers @ [end_line])"
proof -
  let ?Q = "\<lambda>B b (y :: _ \<times> (http_error + unit)). buf_spec B sent taken \<longrightarrow> (\<forall>b' u. y = (b', Inr u) \<longrightarrow>
    (\<exists>headers end_line. (\<forall>h \<in> set headers. \<not> blank h) \<and> blank end_line \<and>
      (\<exists>b''. buf_read_line B b'' = (b', Some end_line)) \<and> lines_taken B sent taken b b' (headers @ [end_line])))"
  have "?Q B b (b', Inr u)"
  proof (rule drain_headers.raw_induct [where P = ?Q, OF _ assms(2)], intro impI allI)
    fix drain B b y b' u
    assume IH: "\<And>B b y. drain B b = Some y \<Longrightarrow> ?Q B b y" and spec: "buf_spec B sent taken"
      and eq: "(case buf_read_line B b of (b, None) \<Rightarrow> Some (b, Inl HttpReadHeader)
        | (b, Some line) \<Rightarrow> if trim_end_matches [CR, LF] line = [] then Some (b, Inr ()) else drain B b) = Some y"
      and y: "y = (b', Inr u)"
    from eq y obtain b1 line where rl: "buf_read_line B b = (b1, Some line)"
      by (auto split: prod.splits option.splits)
    note one = lines_taken_one [OF spec rl]
    show "\<exists>headers end_line. (\<forall>h \<in> set headers. \<not> blank h) \<and> blank end_line \<and>
        (\<exists>b''. buf_read_line B b'' = (b', Some end_line)) \<and> lines_taken B sent taken b b' (headers @ [end_line])"
    proof (cases "blank line")
      case True
      with eq rl y one show ?thesis
        by (intro exI [of _ "[]"] exI [of _ line]) (auto simp: blank_def)
    next
      case False
      with eq rl have "drain B b1 = Some y" by (simp add: blank_def)
      with IH spec y obtain headers end_line where h: "\<forall>h \<in> set headers. \<not> blank h" "blank end_line"
        "lines_taken B sent taken b1 b' (headers @ [end_line])" "\<exists>b''. buf_read_line B b'' = (b', Some end_line)" by blast
      with False lines_taken_trans [OF one h(3)] show ?thesis
        by (intro exI [of _ "line # headers"] exI [of _ end_line]) simp
    qed
  qed
  with assms(1) show ?thesis by blast
qed

section \<open>A connection that does not fail\<close>

definition next_line :: "bytes \<Rightarrow> bytes" where
  "next_line bs = takeWhile (\<lambda>b. b \<noteq> 10) bs @ take 1 (dropWhile (\<lambda>b. b \<noteq> 10) bs)"

definition rest_lines :: "bytes \<Rightarrow> bytes" where
  "rest_lines bs = drop 1 (dropWhile (\<lambda>b. b \<noteq> 10) bs)"

text \<open>
  The peer sends \<open>pending\<close> and closes: each line read is the next one of what is buffered and
  pending, the last one possibly without its end; it is an error if it is not UTF-8.
\<close>

definition lines_spec :: "('s, 'b) buf_lib \<Rightarrow> ('s \<Rightarrow> bytes) \<Rightarrow> bool" where
  "lines_spec B pending \<longleftrightarrow>
     (\<forall>s. buf_buffer B (buf_new B s) = [] \<and> buf_into_inner B (buf_new B s) = s) \<and>
     (\<forall>b bs. \<exists>b'. buf_write_all B b bs = (b', True) \<and>
        buf_buffer B b' @ pending (buf_into_inner B b') = buf_buffer B b @ pending (buf_into_inner B b)) \<and>
     (\<forall>b. \<exists>b'. buf_read_line B b = (b', from_utf8 (next_line (buf_buffer B b @ pending (buf_into_inner B b)))) \<and>
        buf_buffer B b' @ pending (buf_into_inner B b') =
          rest_lines (buf_buffer B b @ pending (buf_into_inner B b)))"

abbreviation avail :: "('s, 'b) buf_lib \<Rightarrow> ('s \<Rightarrow> bytes) \<Rightarrow> 'b \<Rightarrow> bytes" where
  "avail B pending b \<equiv> buf_buffer B b @ pending (buf_into_inner B b)"

lemma lines_write:
  assumes "lines_spec B pending"
  obtains b' where "buf_write_all B b bs = (b', True)" "avail B pending b' = avail B pending b"
  using assms unfolding lines_spec_def by blast

lemma lines_read:
  assumes "lines_spec B pending"
  obtains b' where "buf_read_line B b = (b', from_utf8 (next_line (avail B pending b)))"
    "avail B pending b' = rest_lines (avail B pending b)"
  using assms unfolding lines_spec_def by blast

lemma lines_new: "lines_spec B pending \<Longrightarrow> avail B pending (buf_new B s) = pending s"
  unfolding lines_spec_def by simp

lemma next_rest: "next_line bs @ rest_lines bs = bs"
  by (simp add: next_line_def rest_lines_def)

lemma drain_headers_step:
  "buf_read_line B b = (b1, Some line) \<Longrightarrow>
   drain_headers B b = (if blank line then Some (b1, Inr ()) else drain_headers B b1)"
  by (subst drain_headers.simps) (simp add: blank_def)

lemma drain_headers_fail:
  "buf_read_line B b = (b1, None) \<Longrightarrow> drain_headers B b = Some (b1, Inl HttpReadHeader)"
  by (subst drain_headers.simps) simp

lemma drain_headers_returns:
  assumes "lines_spec B pending"
  shows "\<exists>y. drain_headers B b = Some y"
proof (induction "length (avail B pending b)" arbitrary: b rule: less_induct)
  case less
  obtain b' where r: "buf_read_line B b = (b', from_utf8 (next_line (avail B pending b)))"
    "avail B pending b' = rest_lines (avail B pending b)"
    using lines_read [OF assms] .
  show ?case
  proof (cases "from_utf8 (next_line (avail B pending b))")
    case None
    with r(1) drain_headers_fail show ?thesis by metis
  next
    case (Some line)
    show ?thesis
    proof (cases "blank line")
      case True
      with r(1) Some drain_headers_step show ?thesis by metis
    next
      case False
      then have "line \<noteq> []" by (auto simp: blank_def trim_end_matches_def)
      with Some have "next_line (avail B pending b) \<noteq> []"
        by (auto simp: from_utf8_def split: if_splits)
      with r(2) next_rest [of "avail B pending b"] have "length (avail B pending b') < length (avail B pending b)"
        by (metis length_append less_add_same_cancel2 length_greater_0_conv)
      from less [OF this] False r(1) Some show ?thesis
        by (simp add: drain_headers_step)
    qed
  qed
qed

definition full_line :: "string \<Rightarrow> bool" where
  "full_line l \<longleftrightarrow> (\<exists>body. l = body @ [LF] \<and> LF \<notin> set body) \<and> valid_str l"

lemma byte_LF: "byte_of_char c = 10 \<longleftrightarrow> c = LF"
proof -
  have "byte_of_char LF = 10" by (simp add: LF_def byte_of_char_def)
  then show ?thesis by (metis byte_of_char_inject)
qed

lemma full_line_next:
  assumes "full_line l"
  shows "next_line (as_bytes l @ rest) = as_bytes l" "rest_lines (as_bytes l @ rest) = rest"
    "from_utf8 (as_bytes l) = Some l"
proof -
  from assms obtain body where l: "l = body @ [LF]" "LF \<notin> set body" "valid_str l"
    by (auto simp: full_line_def)
  have no: "\<forall>b \<in> set (as_bytes body). b \<noteq> 10"
    using l(2) by (auto simp: as_bytes_def byte_LF)
  have lf: "as_bytes [LF] = [10]" by (simp add: as_bytes_def byte_LF)
  show "next_line (as_bytes l @ rest) = as_bytes l" "rest_lines (as_bytes l @ rest) = rest"
    using no by (simp_all add: l(1) lf next_line_def rest_lines_def takeWhile_append2 dropWhile_append2)
  show "from_utf8 (as_bytes l) = Some l"
    using l(3) by (simp add: from_utf8_as_bytes)
qed

lemma read_full_line:
  assumes "lines_spec B pending" and "full_line l" and "avail B pending b = as_bytes l @ rest"
  obtains b' where "buf_read_line B b = (b', Some l)" "avail B pending b' = rest"
  using lines_read [OF assms(1), of b] full_line_next(1,2) [OF assms(2), of rest]
    full_line_next(3) [OF assms(2)] assms(3) by metis

lemma drain_headers_succeeds:
  assumes "lines_spec B pending" and "\<forall>h \<in> set headers. full_line h \<and> \<not> blank h"
    and "full_line end_line" and "blank end_line"
    and "avail B pending b = as_bytes (concat headers @ end_line) @ rest"
  shows "\<exists>b'. drain_headers B b = Some (b', Inr ()) \<and> avail B pending b' = rest"
  using assms(2,5)
proof (induction headers arbitrary: b)
  case Nil
  obtain b' where "buf_read_line B b = (b', Some end_line)" "avail B pending b' = rest"
    using read_full_line [OF assms(1,3), of b rest] Nil by auto
  with assms(4) show ?case by (auto simp: drain_headers_step)
next
  case (Cons h headers)
  obtain b' where b': "buf_read_line B b = (b', Some h)"
    "avail B pending b' = as_bytes (concat headers @ end_line) @ rest"
    using read_full_line [OF assms(1), of h b "as_bytes (concat headers @ end_line) @ rest"] Cons.prems
    by auto
  from Cons.IH [OF _ b'(2)] Cons.prems b'(1) show ?case
    by (simp add: drain_headers_step)
qed

section \<open>Status lines and requests\<close>

lemma splitn_3: "splitn 3 c s = (case split_once c s of None \<Rightarrow> [s]
    | Some (a, r) \<Rightarrow> a # (case split_once c r of None \<Rightarrow> [r] | Some (b, r') \<Rightarrow> [b, r']))"
  by (simp add: numeral_3_eq_3 del: split_once_eq_None split: option.splits prod.splits)

lemma str_split_LF_line [simp]: "LF \<notin> set a \<Longrightarrow> str_split LF (a @ LF # b) = a # str_split LF b"
  by simp

lemma status_code_parts:
  assumes "CHR '' '' \<notin> set v" and "CHR '' '' \<notin> set code" and "starts_with ''HTTP/'' v"
  shows "parse_status_code (v @ CHR '' '' # code) = or_err (InvalidStatusCode code) (parse_u16 code)"
    and "parse_status_code (v @ CHR '' '' # code @ CHR '' '' # reason) =
      or_err (InvalidStatusCode code) (parse_u16 code)"
  using assms by (simp_all add: parse_status_code_def splitn_3)

lemma set_str_join: "set (str_join c ls) \<subseteq> insert c (\<Union> (set ` set ls))"
  by (induction c ls rule: str_join.induct) auto

lemma hex_char_LF: "d < 16 \<Longrightarrow> hex_char d \<noteq> LF"
proof
  assume "d < 16" "hex_char d = LF"
  then have "of_char (hex_char d) = (10 :: nat)" by (simp add: LF_def)
  with \<open>d < 16\<close> show False by (simp add: hex_char_def split: if_splits)
qed

lemma show_hex_LF: "LF \<notin> set (show_hex n)"
proof (induction n rule: show_hex.induct)
  case (1 n)
  then show ?case
    using hex_char_LF [of n] hex_char_LF [of "n mod 16"] by (subst show_hex.simps) auto
qed

lemma join_hex_LF: "LF \<notin> set (str_join CHR '':'' (map show_hex xs))"
  using set_str_join [of "CHR '':''" "map show_hex xs"] show_hex_LF by (auto simp: LF_def)

lemma show_ip_addr_LF: "LF \<notin> set (show_ip_addr a)"
proof (cases a)
  case (V4 x)
  then show ?thesis by (simp add: LF_def show_ipv4_chars)
next
  case (V6 x)
  have "LF \<notin> set (show_ipv4 y)" "LF \<noteq> CHR '':''" "LF \<notin> set ''::ffff:''" for y
    by (simp_all add: LF_def show_ipv4_chars)
  then show ?thesis
    by (simp add: V6 show_ipv6_def Let_def join_hex_LF split: prod.splits)
qed

lemma show_target_LF:
  assumes "\<forall>host port. target = Domain host port \<longrightarrow> LF \<notin> set host"
  shows "LF \<notin> set (show_target target)"
proof -
  have "LF \<notin> set (show_nat n)" "LF \<noteq> CHR '':''" for n
    by (simp_all add: LF_def show_nat_no_sep)
  with assms show_ip_addr_LF show ?thesis by (cases target) auto
qed

lemma base64_no_line_end: "LF \<notin> set (base64_encode bs)"
proof -
  have "LF \<notin> set B64_ALPHABET \<union> {CHR ''=''}"
    by (simp add: LF_def B64_ALPHABET_def)
  then show ?thesis
    using encode_chunk_chars by (auto simp: base64_encode_def)
qed

text \<open>A line without its end is the last one: nothing is left to be read after it.\<close>

lemma unfinished_line_last:
  assumes "lines_spec B pending" and "buf_read_line B b = (b', Some line)" and "LF \<notin> set line"
  shows "avail B pending b' = []"
proof -
  obtain b1 where "buf_read_line B b = (b1, from_utf8 (next_line (avail B pending b)))"
    "avail B pending b1 = rest_lines (avail B pending b)" by (rule lines_read [OF assms(1)])
  with assms(2) have l: "from_utf8 (next_line (avail B pending b)) = Some line"
    "avail B pending b' = rest_lines (avail B pending b)" by simp_all
  from from_utf8_Some [OF l(1)] have line: "line = map char_of_byte (next_line (avail B pending b))"
    by (simp add: of_bytes_def)
  have lf: "char_of_byte 10 = LF" unfolding byte_LF [symmetric] by (simp add: word_unat_eq_iff)
  have no10: "10 \<notin> set (next_line (avail B pending b))"
  proof
    assume "10 \<in> set (next_line (avail B pending b))"
    then have "char_of_byte 10 \<in> set line" unfolding line by simp
    with assms(3) lf show False by simp
  qed
  have "dropWhile (\<lambda>b. b \<noteq> 10) (avail B pending b) = []"
  proof (cases "dropWhile (\<lambda>b. b \<noteq> 10) (avail B pending b)")
    case (Cons x xs)
    then have "x = 10" by (simp add: dropWhile_eq_Cons_conv)
    with Cons no10 show ?thesis by (simp add: next_line_def)
  qed
  with l(2) show ?thesis by (simp add: rest_lines_def)
qed

lemma http_connect_exchange:
  assumes "buf_spec B sent taken" and "http_connect N B self target dialled = (dialled', Some (Inr ps))"
  shows "\<exists>s status headers end_line. tcp_connect N dialled (DialServer (ht_server self)) = Some s \<and>
    parse_status_code (trim_end_matches [CR, LF] status) = Inr 200 \<and> (\<forall>h \<in> set headers. \<not> blank h) \<and> blank end_line \<and>
    (\<forall>pending. lines_spec B pending \<longrightarrow> LF \<in> set end_line \<or> unread ps @ pending (inner ps) = []) \<and>
    sent (inner ps) = sent s @ as_bytes (http_request target (ht_auth self)) \<and>
    taken (inner ps) = taken s @ as_bytes (concat (status # headers @ [end_line])) @ unread ps"
proof -
  from assms(2) obtain s b1 b2 b3 status where c: "tcp_connect N dialled (DialServer (ht_server self)) = Some s"
    "buf_write_all B (buf_new B s) (as_bytes (http_request target (ht_auth self))) = (b1, True)"
    "buf_read_line B b1 = (b2, Some status)"
    "parse_status_code (trim_end_matches [CR, LF] status) = Inr 200"
    "drain_headers B b2 = Some (b3, Inr ())"
    "ps = proxy_stream_new (buf_into_inner B b3) (buf_buffer B b3)"
    by (auto simp: http_connect_def do_connect_def dial_out_def
        split: option.splits prod.splits bool.splits sum.splits if_splits)
  from drain_headers_lines [OF assms(1) c(5)] obtain headers end_line where
    h: "\<forall>h \<in> set headers. \<not> blank h" "blank end_line" "lines_taken B sent taken b2 b3 (headers @ [end_line])"
      "\<exists>b. buf_read_line B b = (b3, Some end_line)"
    by blast
  let ?ls = "status # headers @ [end_line]"
  have "lines_taken B sent taken b1 b3 ?ls"
    using lines_taken_trans [OF lines_taken_one [OF assms(1) c(3)] h(3)] by simp
  moreover have "sent (buf_into_inner B b1) = sent s @ as_bytes (http_request target (ht_auth self))"
    "taken (buf_into_inner B b1) = taken s" "buf_buffer B b1 = []"
    using assms(1) c(2) unfolding buf_spec_def by auto
  ultimately have "sent (inner ps) = sent s @ as_bytes (http_request target (ht_auth self))"
    "taken (inner ps) = taken s @ as_bytes (concat ?ls) @ unread ps"
    by (auto simp: lines_taken_def c(6))
  moreover have "LF \<in> set end_line \<or> unread ps @ pending (inner ps) = []" if "lines_spec B pending" for pending
    using unfinished_line_last [OF that] h(4) c(6) by auto
  ultimately show ?thesis using c(1,4) h(1,2) by blast
qed

section \<open>Properties\<close>

text \<open>
  C34. What a returned tunnel was preceded by: the request for the target was sent, and what was taken
  from the proxy is a status line of code 200, header lines that are not blank and one line of
  carriage returns and line feeds only, followed exactly by the bytes buffered in the returned
  stream, so that no byte of the tunnel is lost or read twice. The last line is the blank line that
  ends the headers, with its line feed, or the proxy has sent nothing more: the end of the input
  before the blank line is taken for it (see \<open>truncated_response_accepted\<close>).
\<close>

theorem http_connect_transcript:
  assumes "buf_spec B sent taken" and "http_connect N B self target dialled = (dialled', Some (Inr ps))"
  shows "\<exists>s status headers end_line. tcp_connect N dialled (DialServer (ht_server self)) = Some s \<and>
    parse_status_code (trim_end_matches [CR, LF] status) = Inr 200 \<and> (\<forall>h \<in> set headers. \<not> blank h) \<and>
    set end_line \<subseteq> {CR, LF} \<and>
    (\<forall>pending. lines_spec B pending \<longrightarrow> LF \<in> set end_line \<or> unread ps @ pending (inner ps) = []) \<and>
    sent (inner ps) = sent s @ as_bytes (http_request target (ht_auth self)) \<and>
    taken (inner ps) = taken s @ as_bytes (concat (status # headers @ [end_line])) @ unread ps"
  using http_connect_exchange [OF assms] unfolding blank_iff .

text \<open>
  C35. A correct proxy leads to a tunnel: when the connection does not fail and the proxy answers
  with a status line of code 200, any header lines and a blank line, the connection succeeds,
  and exactly the bytes after the blank line are still to be read.
\<close>

theorem http_connect_succeeds:
  assumes "lines_spec B pending" and "tcp_connect N dialled (DialServer server) = Some s"
    and "pending s = as_bytes (status @ concat headers @ end_line) @ rest"
    and "full_line status" and "parse_status_code (trim_end_matches [CR, LF] status) = Inr 200"
    and "\<forall>h \<in> set headers. full_line h \<and> \<not> blank h" and "full_line end_line" and "blank end_line"
  shows "\<exists>ps. http_connect N B (http_new server auth) target dialled = (dialled @ [DialServer server], Some (Inr ps)) \<and>
    unread ps @ pending (inner ps) = rest"
proof -
  obtain b1 where b1: "buf_write_all B (buf_new B s) (as_bytes (http_request target auth)) = (b1, True)"
    "avail B pending b1 = pending s"
    using lines_write [OF assms(1)] lines_new [OF assms(1)] by metis
  obtain b2 where b2: "buf_read_line B b1 = (b2, Some status)"
    "avail B pending b2 = as_bytes (concat headers @ end_line) @ rest"
    using read_full_line [OF assms(1,4), of b1 "as_bytes (concat headers @ end_line) @ rest"] b1(2) assms(3)
    by auto
  obtain b3 where b3: "drain_headers B b2 = Some (b3, Inr ())" "avail B pending b3 = rest"
    using drain_headers_succeeds [OF assms(1,6-8) b2(2)] by blast
  show ?thesis
    using assms(2,5) b1(1) b2(1) b3
    by (simp add: http_connect_def http_new_def do_connect_def dial_out_def)
qed

text \<open>
  The connection attempt always returns: whatever bytes the proxy sends before it closes the
  connection, the loop over the response headers ends.
\<close>

lemma http_connect_returns:
  assumes "lines_spec B pending"
  shows "\<exists>r. http_connect N B self target dialled = (dialled @ [DialServer (ht_server self)], Some r)"
  using drain_headers_returns [OF assms]
  by (auto simp: http_connect_def do_connect_def dial_out_def split: option.splits prod.splits bool.splits sum.splits)
    (metis option.distinct(1))

text \<open>
  The request has the lines it should have and no others: for a target whose host name has no
  line feed, splitting the request at line feeds gives the CONNECT line, the Host line, the
  Proxy-Authorization line exactly when there are credentials, the blank line, and nothing more.
\<close>

lemma http_request_lines:
  assumes "\<forall>host port. target = Domain host port \<longrightarrow> LF \<notin> set host"
  shows "str_split LF (http_request target auth) =
    [''CONNECT '' @ show_target target @ '' HTTP/1.1'' @ [CR], ''Host: '' @ show_target target @ [CR]] @
    (case auth of None \<Rightarrow> []
     | Some (user, pass) \<Rightarrow> [''Proxy-Authorization: Basic '' @ base64_encode (as_bytes (user @ '':'' @ pass)) @ [CR]]) @
    [[CR], []]"
proof -
  note t = show_target_LF [OF assms]
  have l1: "LF \<notin> set (''CONNECT '' @ show_target target @ '' HTTP/1.1'' @ [CR])"
    and l2: "LF \<notin> set (''Host: '' @ show_target target @ [CR])"
    and l3: "LF \<notin> set (''Proxy-Authorization: Basic '' @ base64_encode bs @ [CR])" for bs
    using t base64_no_line_end by (auto simp: CR_def LF_def)
  have l4: "str_split LF [CR, LF] = [[CR], []]"
    by (simp add: CR_def LF_def)
  have req: "http_request target auth =
      (''CONNECT '' @ show_target target @ '' HTTP/1.1'' @ [CR]) @ LF # (''Host: '' @ show_target target @ [CR]) @ LF #
      ((case auth of None \<Rightarrow> []
        | Some (user, pass) \<Rightarrow> (''Proxy-Authorization: Basic '' @ base64_encode (as_bytes (user @ '':'' @ pass)) @ [CR]) @ [LF]) @
       [CR, LF])"
    by (simp add: http_request_def Let_def split: option.splits)
  have tail: "str_split LF ((case auth of None \<Rightarrow> []
        | Some (user, pass) \<Rightarrow> (''Proxy-Authorization: Basic '' @ base64_encode (as_bytes (user @ '':'' @ pass)) @ [CR]) @ [LF]) @
       [CR, LF]) =
    (case auth of None \<Rightarrow> []
     | Some (user, pass) \<Rightarrow> [''Proxy-Authorization: Basic '' @ base64_encode (as_bytes (user @ '':'' @ pass)) @ [CR]]) @
    [[CR], []]"
  proof (cases auth)
    case (Some up)
    with str_split_LF_line [OF l3, of _ "[CR, LF]"] l4 show ?thesis by (cases up) simp
  qed (use l4 in simp)
  show ?thesis
    unfolding req str_split_LF_line [OF l1] str_split_LF_line [OF l2] tail by simp
qed

text \<open>
  Status lines: a response line yields a status code exactly when its first word starts with
  HTTP/ and its second word, up to the next space, is that number.
\<close>

lemma parse_status_code_iff:
  "parse_status_code line = Inr code \<longleftrightarrow>
     (\<exists>version word. starts_with ''HTTP/'' version \<and> CHR '' '' \<notin> set version \<and> CHR '' '' \<notin> set word \<and>
        parse_u16 word = Some code \<and>
        (line = version @ CHR '' '' # word \<or> (\<exists>reason. line = version @ CHR '' '' # word @ CHR '' '' # reason)))"
  (is "?l \<longleftrightarrow> ?r")
proof
  assume ?l
  then obtain v r where vr: "split_once CHR '' '' line = Some (v, r)" "starts_with ''HTTP/'' v"
    by (auto simp: parse_status_code_def splitn_3 Let_def split: option.splits if_splits list.splits)
  then have line: "line = v @ CHR '' '' # r" "CHR '' '' \<notin> set v" by (simp_all add: split_once_eq_Some)
  show ?r
  proof (cases "split_once CHR '' '' r")
    case None
    with line vr \<open>?l\<close> have "CHR '' '' \<notin> set r" "parse_u16 r = Some code"
      by (simp_all add: parse_status_code_def splitn_3)
    with line vr(2) show ?thesis by blast
  next
    case (Some wr)
    then obtain w t where w: "r = w @ CHR '' '' # t" "CHR '' '' \<notin> set w"
      by (cases wr) (auto simp: split_once_eq_Some)
    with line vr \<open>?l\<close> have "parse_u16 w = Some code"
      by (simp add: parse_status_code_def splitn_3)
    with line vr(2) w show ?thesis by blast
  qed
next
  assume ?r
  then show ?l using status_code_parts by fastforce
qed

text \<open>
  A truncated response is taken for a complete one: when the proxy sends a status line of code
  200 and closes the connection before the blank line that ends the headers, the read at the
  end of the input returns an empty line, and the connection is reported as an open tunnel.
\<close>

lemma truncated_response_accepted:
  assumes "lines_spec B pending" and "tcp_connect N dialled (DialServer server) = Some s"
    and "pending s = as_bytes status" and "full_line status"
    and "parse_status_code (trim_end_matches [CR, LF] status) = Inr 200"
  shows "\<exists>ps. http_connect N B (http_new server auth) target dialled = (dialled @ [DialServer server], Some (Inr ps)) \<and>
    unread ps @ pending (inner ps) = []"
proof -
  obtain b1 where b1: "buf_write_all B (buf_new B s) (as_bytes (http_request target auth)) = (b1, True)"
    "avail B pending b1 = pending s"
    using lines_write [OF assms(1)] lines_new [OF assms(1)] by metis
  obtain b2 where b2: "buf_read_line B b1 = (b2, Some status)" "avail B pending b2 = []"
    using read_full_line [OF assms(1,4), of b1 "[]"] b1(2) assms(3) by auto
  obtain b3 where b3: "buf_read_line B b2 = (b3, from_utf8 (next_line []))" "avail B pending b3 = rest_lines []"
    using lines_read [OF assms(1), of b2] unfolding b2(2) by blast
  have "from_utf8 (next_line []) = Some []" "rest_lines [] = []"
    by (simp_all add: from_utf8_def next_line_def rest_lines_def utf8_chars.simps of_bytes_def)
  with b3 have "drain_headers B b2 = Some (b3, Inr ())" "avail B pending b3 = []"
    by (simp_all add: drain_headers_step blank_def trim_end_matches_def)
  then show ?thesis
    using assms(2,5) b1(1) b2(1) by (simp add: http_connect_def http_new_def do_connect_def dial_out_def)
qed

section \<open>Witnesses\<close>

text \<open>A buffered reader over a scripted socket that fetches everything at its first read.\<close>

definition script_buf :: "(script, script \<times> bytes) buf_lib" where
  "script_buf = \<lparr>
     buf_new = (\<lambda>s. (s, [])),
     buf_write_all = (\<lambda>(s, buf) bs. ((script_write s bs, buf), True)),
     buf_read_line = (\<lambda>(s, buf).
       ((script_take s (length (script_in s)), rest_lines (buf @ script_in s)),
        from_utf8 (next_line (buf @ script_in s)))),
     buf_buffer = snd,
     buf_into_inner = fst\<rparr>"

lemma script_buf_spec: "buf_spec script_buf script_sent script_taken"
  by (auto simp: buf_spec_def script_buf_def next_rest dest!: from_utf8_Some)

lemma script_buf_lines: "lines_spec script_buf script_in"
  by (auto simp: lines_spec_def script_buf_def)

definition ok_line :: string where
  "ok_line = ''HTTP/1.1 200 OK'' @ [CR, LF]"

definition header_line :: string where
  "header_line = ''Via: x'' @ [CR, LF]"

lemma sample_lines:
  "full_line ok_line" "full_line header_line" "full_line [CR, LF]"
  "blank [CR, LF]" "\<not> blank header_line"
  "parse_status_code (trim_end_matches [CR, LF] ok_line) = Inr 200"
proof -
  show "full_line ok_line" unfolding full_line_def
    by (intro conjI exI [of _ "''HTTP/1.1 200 OK'' @ [CR]"] ascii_valid_str)
      (simp_all add: ok_line_def CR_def LF_def is_ascii_def)
  show "full_line header_line" unfolding full_line_def
    by (intro conjI exI [of _ "''Via: x'' @ [CR]"] ascii_valid_str)
      (simp_all add: header_line_def CR_def LF_def is_ascii_def)
  show "full_line [CR, LF]" unfolding full_line_def
    by (intro conjI exI [of _ "[CR]"] ascii_valid_str) (simp_all add: CR_def LF_def is_ascii_def)
  show "blank [CR, LF]" "\<not> blank header_line"
    by (simp_all add: blank_def header_line_def CR_def LF_def trim_end_matches_def)
  have "trim_end_matches [CR, LF] ok_line = ''HTTP/1.1 200 OK''"
    by (simp add: ok_line_def CR_def LF_def trim_end_matches_def)
  then show "parse_status_code (trim_end_matches [CR, LF] ok_line) = Inr 200"
    by (simp add: parse_status_code_def splitn_3 starts_with_def parse_u16_def parse_uint_def digit_val_def)
qed

definition sample_response :: bytes where
  "sample_response = as_bytes (ok_line @ concat [header_line] @ [CR, LF]) @ [7, 8]"

lemma script_connects: "tcp_connect (script_lib input) dialled d = Some \<lparr>script_in = input, script_sent = [], script_taken = []\<rparr>"
  by (simp add: script_lib_def)

theorem http_connect_succeeds_witness:
  "\<exists>ps. http_connect (script_lib sample_response) script_buf (http_new ''p:1'' None) (Domain ''a'' 80) [] = ([DialServer ''p:1''], Some (Inr ps)) \<and>
     unread ps @ script_in (inner ps) = [7, 8]"
  by (rule http_connect_succeeds [where dialled = "[]", simplified append_Nil, OF script_buf_lines script_connects _ sample_lines(1,6) _ sample_lines(3,4),
        where headers = "[header_line]"])
    (simp_all add: sample_response_def sample_lines)

theorem http_connect_transcript_witness:
  "\<exists>ps. http_connect (script_lib (as_bytes (ok_line @ [CR, LF]))) script_buf (http_new ''p:1'' None) (Domain ''a'' 80) [] =
       ([DialServer ''p:1''], Some (Inr ps)) \<and>
     script_sent (inner ps) = as_bytes (http_request (Domain ''a'' 80) None)"
proof -
  let ?N = "script_lib (as_bytes (ok_line @ [CR, LF]))"
  let ?s = "\<lparr>script_in = as_bytes (ok_line @ [CR, LF]), script_sent = [], script_taken = []\<rparr>"
  obtain b1 where b1: "buf_write_all script_buf (buf_new script_buf ?s) (as_bytes (http_request (Domain ''a'' 80) None)) = (b1, True)"
    "avail script_buf script_in b1 = script_in ?s"
    using lines_write [OF script_buf_lines] lines_new [OF script_buf_lines] by metis
  obtain b2 where b2: "buf_read_line script_buf b1 = (b2, Some ok_line)" "avail script_buf script_in b2 = as_bytes [CR, LF]"
    using read_full_line [OF script_buf_lines sample_lines(1), of b1 "as_bytes [CR, LF]"] b1(2) by auto
  have "avail script_buf script_in b2 = as_bytes [CR, LF] @ []" using b2(2) by simp
  from read_full_line [OF script_buf_lines sample_lines(3) this] obtain b3 where
    b3: "buf_read_line script_buf b2 = (b3, Some [CR, LF])" .
  have "\<exists>ps. http_connect ?N script_buf (http_new ''p:1'' None) (Domain ''a'' 80) [] = ([DialServer ''p:1''], Some (Inr ps))"
    using b1(1) b2(1) b3 sample_lines(4,6)
    by (simp add: http_connect_def http_new_def do_connect_def dial_out_def script_connects drain_headers_step)
  then obtain ps where ps: "http_connect ?N script_buf (http_new ''p:1'' None) (Domain ''a'' 80) [] = ([DialServer ''p:1''], Some (Inr ps))" ..
  from http_connect_transcript [OF script_buf_spec ps] ps show ?thesis
    by (auto simp: script_connects http_new_def)
qed

end
