(* ===== verification/Connector.thy ===== *)
theory Connector
  imports Socks5 Http_Connect
begin

text \<open>
  The connectors behind a route: the direct connector of \<open>src/src/proxy/direct.rs\<close>, and
  \<open>ProxyConfig::connect\<close> of \<open>src/src/proxy/mod.rs\<close>, which picks the connector of the route and
  limits the attempt in time, so that it always has a result. The trait \<open>ProxyConnector\<close> is the locale \<open>proxy_connector\<close>: the
  contract that the returned stream starts exactly behind the handshake. It is interpreted for
  the direct, the SOCKS5 and the HTTP connector and for the route as a whole.
\<close>

section \<open>Direct connections and routes\<close>

datatype connect_error =
    DirectFailed proxy_target
  | Socks5Failed socks5_error
  | HttpError http_error
  | TimedOut

definition direct_connect ::
  "'s net_lib \<Rightarrow> proxy_target \<Rightarrow> dial list \<Rightarrow> dial list \<times> (connect_error + 's proxy_stream)" where
  "direct_connect N target dialled =
     (case target of
        Ip addr port \<Rightarrow>
          (case dial_out N (DialIp addr port) dialled of
             (dialled, None) \<Rightarrow> (dialled, Inl (DirectFailed target))
           | (dialled, Some stream) \<Rightarrow> (dialled, Inr (proxy_stream_new stream [])))
      | Domain host port \<Rightarrow>
          (case dial_out N (DialHost host port) dialled of
             (dialled, None) \<Rightarrow> (dialled, Inl (DirectFailed target))
           | (dialled, Some stream) \<Rightarrow> (dialled, Inr (proxy_stream_new stream []))))"

type_synonym ('s, 'b) connector =
  "'s net_lib \<Rightarrow> ('s, 'b) buf_lib \<Rightarrow> proxy_target \<Rightarrow> dial list \<Rightarrow> dial list \<times> (connect_error + 's proxy_stream) option"

fun connect_inner :: "proxy_config \<Rightarrow> ('s, 'b) connector" where
  "connect_inner Direct N B target dialled = map_prod id Some (direct_connect N target dialled)"
| "connect_inner (Socks5 addr auth) N B target dialled =
     map_prod id (\<lambda>r. Some (map_sum Socks5Failed id r)) (socks5_connect N (socks5_new addr auth) target dialled)"
| "connect_inner (Http addr auth) N B target dialled =
     map_prod id (map_option (map_sum HttpError id)) (http_connect N B (http_new addr auth) target dialled)"

text \<open>
  The attempt runs under a timer. \<open>took\<close> is the time in nanoseconds after which the attempt has its
  result: a result that is there when the timer runs out still counts, a later one is dropped, and
  an attempt that never ends (the headers of a response that never end) runs into the timer.
\<close>

definition CONNECT_TIMEOUT :: nat where
  "CONNECT_TIMEOUT = from_secs 32"

definition connect ::
  "nat \<Rightarrow> proxy_config \<Rightarrow> 's net_lib \<Rightarrow> ('s, 'b) buf_lib \<Rightarrow> proxy_target \<Rightarrow> dial list \<Rightarrow>
   dial list \<times> (connect_error + 's proxy_stream)" where
  "connect took cfg N B target dialled =
     (case connect_inner cfg N B target dialled of
        (dialled, None) \<Rightarrow> (dialled, Inl TimedOut)
      | (dialled, Some result) \<Rightarrow> (dialled, if took \<le> CONNECT_TIMEOUT then result else Inl TimedOut))"

lemma connect_ok_inner:
  assumes "connect took cfg N B target dialled = (dialled', Inr ps)"
  shows "connect_inner cfg N B target dialled = (dialled', Some (Inr ps))"
  using assms by (simp add: connect_def split: prod.splits option.splits if_splits)

section \<open>The contract of a connector\<close>

locale proxy_connector =
  fixes connect_to :: "('s, 'b) connector"
    and endpoint :: "proxy_target \<Rightarrow> dial"
    and hello :: "proxy_target \<Rightarrow> bytes \<Rightarrow> bool"
    and answer :: "proxy_target \<Rightarrow> bytes \<Rightarrow> bool"
  assumes connect_to_ok:
    "stream_spec N sent taken \<Longrightarrow> buf_spec B sent taken \<Longrightarrow> connect_to N B target dialled = (dialled', Some (Inr ps)) \<Longrightarrow>
     \<exists>s out inp. tcp_connect N dialled (endpoint target) = Some s \<and> hello target out \<and> answer target inp \<and>
       sent (inner ps) = sent s @ out \<and> taken (inner ps) = taken s @ inp @ unread ps"
    and connect_to_dials: "fst (connect_to N B target dialled) = dialled @ [endpoint target]"
begin

text \<open>The tunnel is transparent: the bytes read are those that follow the handshake's answer.\<close>

lemma tunnel_reads:
  assumes "stream_spec N sent taken" and "buf_spec B sent taken"
    and "connect_to N B target dialled = (dialled', Some (Inr ps))" and "read_calls N ps cs = (ps', out)"
  shows "\<exists>s inp. tcp_connect N dialled (endpoint target) = Some s \<and> answer target inp \<and>
    taken (inner ps') = taken s @ inp @ out @ unread ps'"
proof -
  from connect_to_ok [OF assms(1-3)] obtain s o1 inp where
    c: "tcp_connect N dialled (endpoint target) = Some s" "answer target inp"
      "taken (inner ps) = taken s @ inp @ unread ps" by blast
  from read_calls_step [OF assms(1,4)] obtain got where
    "taken (inner ps') = taken (inner ps) @ got" "out @ unread ps' = unread ps @ got"
    unfolding read_step_def by blast
  with c show ?thesis by auto
qed

end

fun route_dial :: "proxy_config \<Rightarrow> proxy_target \<Rightarrow> dial" where
  "route_dial Direct (Ip addr port) = DialIp addr port"
| "route_dial Direct (Domain host port) = DialHost host port"
| "route_dial (Socks5 addr auth) target = DialServer addr"
| "route_dial (Http addr auth) target = DialServer addr"

text \<open>What a route sends, and what it accepts as the answer, before the tunnel starts.\<close>

fun route_hello :: "proxy_config \<Rightarrow> proxy_target \<Rightarrow> bytes \<Rightarrow> bool" where
  "route_hello Direct target out \<longleftrightarrow> out = []"
| "route_hello (Socks5 addr auth) target out \<longleftrightarrow>
     (\<exists>meth req. connect_request target = Inr req \<and> out = client_script auth meth req)"
| "route_hello (Http addr auth) target out \<longleftrightarrow> out = as_bytes (http_request target auth)"

fun route_answer :: "proxy_config \<Rightarrow> proxy_target \<Rightarrow> bytes \<Rightarrow> bool" where
  "route_answer Direct target inp \<longleftrightarrow> inp = []"
| "route_answer (Socks5 addr auth) target inp \<longleftrightarrow> (\<exists>meth. server_script (auth \<noteq> None) meth inp)"
| "route_answer (Http addr auth) target inp \<longleftrightarrow> (\<exists>ls. response_lines ls \<and> inp = as_bytes (concat ls))"

interpretation direct: proxy_connector "\<lambda>N B target dialled. map_prod id Some (direct_connect N target dialled)"
  "route_dial Direct" "route_hello Direct" "route_answer Direct"
  by unfold_locales
    (auto simp: direct_connect_def dial_out_def map_prod_def split: proxy_target.splits option.splits)

interpretation s5: proxy_connector
  "\<lambda>N B target dialled.
     map_prod id (\<lambda>r. Some (map_sum Socks5Failed id r)) (socks5_connect N (socks5_new addr auth) target dialled)"
  "route_dial (Socks5 addr auth)" "route_hello (Socks5 addr auth)" "route_answer (Socks5 addr auth)"
  for addr auth
proof unfold_locales
  fix N :: "'s net_lib" and sent taken and B :: "('s, 'b) buf_lib" and target dialled dialled' and ps
  assume spec: "stream_spec N sent taken"
    and eq: "map_prod id (\<lambda>r. Some (map_sum Socks5Failed id r)) (socks5_connect N (socks5_new addr auth) target dialled) =
      (dialled', Some (Inr ps))"
  obtain d r where dr: "socks5_connect N (socks5_new addr auth) target dialled = (d, r)" by fastforce
  with eq have "r = Inr ps" by (cases r) simp_all
  from socks5_connect_exchange [OF spec dr [unfolded this]]
  show "\<exists>s out inp. tcp_connect N dialled (route_dial (Socks5 addr auth) target) = Some s \<and>
      route_hello (Socks5 addr auth) target out \<and> route_answer (Socks5 addr auth) target inp \<and>
      sent (inner ps) = sent s @ out \<and> taken (inner ps) = taken s @ inp @ unread ps"
    by (fastforce simp: socks5_new_def)
qed (simp add: socks5_connect_def socks5_new_def dial_out_def split: option.splits)

interpretation ht: proxy_connector
  "\<lambda>N B target dialled.
     map_prod id (map_option (map_sum HttpError id)) (http_connect N B (http_new addr auth) target dialled)"
  "route_dial (Http addr auth)" "route_hello (Http addr auth)" "route_answer (Http addr auth)"
  for addr auth
proof unfold_locales
  fix N :: "'s net_lib" and sent taken and B :: "('s, 'b) buf_lib" and target dialled dialled' and ps
  assume spec: "buf_spec B sent taken"
    and eq: "map_prod id (map_option (map_sum HttpError id)) (http_connect N B (http_new addr auth) target dialled) =
      (dialled', Some (Inr ps))"
  obtain d r where dr: "http_connect N B (http_new addr auth) target dialled = (d, r)" by fastforce
  with eq obtain x where "r = Some x" "map_sum HttpError id x = Inr ps" by auto
  then have "r = Some (Inr ps)" by (cases x) simp_all
  from http_connect_exchange [OF spec dr [unfolded this]] obtain s status headers end_line where
    h: "tcp_connect N dialled (DialServer addr) = Some s" "sent (inner ps) = sent s @ as_bytes (http_request target auth)"
      "taken (inner ps) = taken s @ as_bytes (concat (status # headers @ [end_line])) @ unread ps"
      "parse_status_code (trim_end_matches [CR, LF] status) = Inr 200" "\<forall>h \<in> set headers. \<not> blank h" "blank end_line"
    by (auto simp: http_new_def)
  then have "response_lines (status # headers @ [end_line])" unfolding response_lines_def by blast
  with h show "\<exists>s out inp. tcp_connect N dialled (route_dial (Http addr auth) target) = Some s \<and>
      route_hello (Http addr auth) target out \<and> route_answer (Http addr auth) target inp \<and>
      sent (inner ps) = sent s @ out \<and> taken (inner ps) = taken s @ inp @ unread ps"
    unfolding route_dial.simps route_hello.simps route_answer.simps by blast
qed (simp add: http_connect_def http_new_def dial_out_def split: option.splits)

lemma connect_inner_eqs:
  "connect_inner Direct = (\<lambda>N B target dialled. map_prod id Some (direct_connect N target dialled))"
  "connect_inner (Socks5 addr auth) = (\<lambda>N B target dialled.
     map_prod id (\<lambda>r. Some (map_sum Socks5Failed id r)) (socks5_connect N (socks5_new addr auth) target dialled))"
  "connect_inner (Http addr auth) = (\<lambda>N B target dialled.
     map_prod id (map_option (map_sum HttpError id)) (http_connect N B (http_new addr auth) target dialled))"
  by (simp_all add: fun_eq_iff)

interpretation route: proxy_connector "connect_inner cfg" "route_dial cfg" "route_hello cfg" "route_answer cfg"
  for cfg
proof (cases cfg)
  case Direct
  show "proxy_connector (connect_inner cfg) (route_dial cfg) (route_hello cfg) (route_answer cfg)"
    unfolding Direct connect_inner_eqs by (rule direct.proxy_connector_axioms)
next
  case (Socks5 addr auth)
  show "proxy_connector (connect_inner cfg) (route_dial cfg) (route_hello cfg) (route_answer cfg)"
    unfolding Socks5 connect_inner_eqs by (rule s5.proxy_connector_axioms)
next
  case (Http addr auth)
  show "proxy_connector (connect_inner cfg) (route_dial cfg) (route_hello cfg) (route_answer cfg)"
    unfolding Http connect_inner_eqs by (rule ht.proxy_connector_axioms)
qed

lemma handshake_ignores_dial:
  "socks5_handshake (N\<lparr>tcp_connect := h\<rparr>) = socks5_handshake N"
proof -
  have io: "io_write (N\<lparr>tcp_connect := h\<rparr>) = io_write N" "io_read (N\<lparr>tcp_connect := h\<rparr>) = io_read N"
    by (simp_all add: io_write_def io_read_def fun_eq_iff)
  show ?thesis
    unfolding fun_eq_iff socks5_handshake_def negotiate_method_def authenticate_def
      send_connect_request_def skip_addr_def io by blast
qed

section \<open>Properties\<close>

text \<open>
  The tunnel is transparent for every route: once a connection is established, the bytes the
  event loop reads are, in order, exactly those the upstream sent after its handshake answer,
  up to what is still buffered, and the handshake itself is the one of the route.
\<close>

lemma connect_tunnel_transparent:
  assumes "stream_spec N sent taken" and "buf_spec B sent taken"
    and "connect took cfg N B target dialled = (dialled', Inr ps)" and "read_calls N ps cs = (ps', out)"
  shows "\<exists>s inp. tcp_connect N dialled (route_dial cfg target) = Some s \<and> route_answer cfg target inp \<and>
    taken (inner ps') = taken s @ inp @ out @ unread ps'"
  by (rule route.tunnel_reads [OF assms(1,2) connect_ok_inner [OF assms(3)] assms(4)])

text \<open>
  C29. No leak of names or addresses to the host: in every outcome, an attempt to connect dials exactly
  once, the configured server for a SOCKS5 or HTTP route and the target for a direct one, and nothing
  else, in particular no name of a target that goes through a proxy; and the network has an influence
  on the outcome only by what this one dial yields.
\<close>

theorem connect_dials_route_only:
  assumes "f dialled (route_dial cfg target) = g dialled (route_dial cfg target)"
  shows "fst (connect took cfg N B target dialled) = dialled @ [route_dial cfg target] \<and>
    connect took cfg (N\<lparr>tcp_connect := f\<rparr>) B target dialled = connect took cfg (N\<lparr>tcp_connect := g\<rparr>) B target dialled"
proof
  show "fst (connect took cfg N B target dialled) = dialled @ [route_dial cfg target]"
    using route.connect_to_dials [of cfg N B target dialled]
    by (cases "connect_inner cfg N B target dialled") (simp add: connect_def split: option.splits)
  show "connect took cfg (N\<lparr>tcp_connect := f\<rparr>) B target dialled = connect took cfg (N\<lparr>tcp_connect := g\<rparr>) B target dialled"
  proof (cases cfg)
    case Direct
    with assms show ?thesis by (cases target) (simp_all add: connect_def direct_connect_def dial_out_def)
  next
    case (Socks5 addr auth)
    with assms show ?thesis
      by (simp add: connect_def socks5_connect_def socks5_new_def dial_out_def handshake_ignores_dial)
  next
    case (Http addr auth)
    with assms show ?thesis
      by (simp add: connect_def http_connect_def http_new_def dial_out_def)
  qed
qed

section \<open>Witnesses\<close>

theorem connect_dials_route_only_witness:
  "fst (connect 0 (Http ''p:1'' None) (script_lib []) script_buf (Domain ''a'' 80) []) = [DialServer ''p:1''] \<and>
   connect 0 (Http ''p:1'' None) (script_lib []\<lparr>tcp_connect := (\<lambda>_ d. if d = DialServer ''p:1'' then None
       else Some \<lparr>script_in = [], script_sent = [], script_taken = []\<rparr>)\<rparr>)
     script_buf (Domain ''a'' 80) [] =
   connect 0 (Http ''p:1'' None) (script_lib []\<lparr>tcp_connect := (\<lambda>_ d. None)\<rparr>) script_buf (Domain ''a'' 80) []"
  using connect_dials_route_only [where cfg = "Http ''p:1'' None" and target = "Domain ''a'' 80" and dialled = "[]"
      and f = "\<lambda>_ d. if d = DialServer ''p:1'' then None
       else Some \<lparr>script_in = [], script_sent = [], script_taken = []\<rparr>" and g = "\<lambda>_ d. None"]
  by simp

end
