(* ===== verification/Outbound_Tcp.thy ===== *)
theory Outbound_Tcp
  imports Shuttle Dns_Interceptor Tun Connector
begin

text \<open>
  Connections from the namespace to the outside, \<open>src/src/event_loop/outbound.rs\<close>: a listening
  socket for every connection request seen on the TUN device, a task that connects the upstream
  once the handshake is complete, the shuttling of bytes in both directions and the removal of
  closed sockets. The component is an owner of sockets in the sense of \<open>socket_owner\<close>.
\<close>

section \<open>State\<close>

type_synonym endpoint_key = "ipv4 \<times> u16 \<times> ipv4 \<times> u16"

datatype proxy_read_state = Open | Eof | Failed

record 's forward_context =
  stream :: "'s proxy_stream"
  proxy_to_app :: bytes
  proxy_read_state :: proxy_read_state

datatype ('k, 's) ob_state =
    Listening instant
  | Connecting 'k
  | Established "'s forward_context"
  | Closing

record ('k, 's) outbound_tcp =
  ob_states :: "handle \<rightharpoonup> ('k, 's) ob_state"
  listening_endpoints :: "endpoint_key set"
  handle_to_endpoint :: "handle \<rightharpoonup> endpoint_key"

text \<open>
  The task runtime (\<open>tokio\<close>): \<open>spawn_connect\<close> starts \<open>proxy.connect(&target)\<close>; polling a task gives
  nothing yet, the result of the connection attempt, or the news that the task panicked
  (\<open>Inl ()\<close>).
\<close>

record ('r, 'k, 's) task_lib =
  spawn_connect :: "'r \<Rightarrow> proxy_config \<Rightarrow> proxy_target \<Rightarrow> 'r \<times> 'k"
  task_poll :: "'r \<Rightarrow> 'k \<Rightarrow> 'r \<times> (unit + (connect_error + 's proxy_stream)) poll"
  task_abort :: "'r \<Rightarrow> 'k \<Rightarrow> 'r"

definition ob_new :: "('k, 's) outbound_tcp" where
  "ob_new = \<lparr>ob_states = Map.empty, listening_endpoints = {}, handle_to_endpoint = Map.empty\<rparr>"

definition set_state :: "handle \<Rightarrow> ('k, 's) ob_state \<Rightarrow> ('k, 's) outbound_tcp \<Rightarrow> ('k, 's) outbound_tcp" where
  "set_state h st self = self\<lparr>ob_states := (ob_states self)(h \<mapsto> st)\<rparr>"

section \<open>Connection requests\<close>

definition observe_syn ::
  "('t, 'i) tcp_lib \<Rightarrow> ('t, 'u) alloc \<Rightarrow> clock \<Rightarrow> bytes \<Rightarrow>
   ('k, 's) outbound_tcp \<times> ('t, 'u) socket_set \<Rightarrow> panic + (('k, 's) outbound_tcp \<times> ('t, 'u) socket_set)" where
  "observe_syn T alloc now packet = (\<lambda>(self, ss).
     result_bind (parse_tcp_syn packet) (\<lambda>syn.
     case syn of
       None \<Rightarrow> Inr (self, ss)
     | Some (src_ip, src_port, dst_ip, dst_port) \<Rightarrow>
         let key = (src_ip, src_port, dst_ip, dst_port) in
         if key \<in> listening_endpoints self then Inr (self, ss)
         else (case t_listen T (new_tcp_socket T) None dst_port of
             None \<Rightarrow> Inr (self, ss)
           | Some sock \<Rightarrow>
               (case ss_add alloc ss (Tcp sock) of
                  (ss, h) \<Rightarrow>
                    Inr (\<lparr>ob_states = (ob_states self)(h \<mapsto> Listening (now h)),
                          listening_endpoints = insert key (listening_endpoints self),
                          handle_to_endpoint = (handle_to_endpoint self)(h \<mapsto> key)\<rparr>, ss)))))"

definition observe_syns ::
  "('t, 'i) tcp_lib \<Rightarrow> ('t, 'u) alloc \<Rightarrow> clock \<Rightarrow> tun_device \<Rightarrow>
   ('k, 's) outbound_tcp \<Rightarrow> ('t, 'u) socket_set \<Rightarrow> panic + (('k, 's) outbound_tcp \<times> ('t, 'u) socket_set)" where
  "observe_syns T alloc now device self ss =
     fold_handles (observe_syn T alloc now) (rx_queue device) (self, ss)"

section \<open>Listeners\<close>

text \<open>Logging only, but it looks every listening socket up.\<close>

definition log_listener_transitions ::
  "order \<Rightarrow> ('k, 's) outbound_tcp \<Rightarrow> ('t, 'u) socket_set \<Rightarrow> panic + unit" where
  "log_listener_transitions ord self ss =
     fold_handles (\<lambda>h u.
       case ob_states self h of
         Some (Listening created) \<Rightarrow> result_bind (get_tcp ss h) (\<lambda>sock. Inr ())
       | _ \<Rightarrow> Inr ()) (ord (dom (ob_states self))) ()"

definition update_listener ::
  "('t, 'i) tcp_lib \<Rightarrow> ('r, 'k, 's) task_lib \<Rightarrow> 'rs regex_lib \<Rightarrow> clock \<Rightarrow> dns_interceptor \<Rightarrow> 'rs app_config \<Rightarrow> handle \<Rightarrow>
   ('k, 's) outbound_tcp \<times> ('t, 'u) socket_set \<times> 'r \<Rightarrow>
   panic + (('k, 's) outbound_tcp \<times> ('t, 'u) socket_set \<times> 'r)" where
  "update_listener T X R now dns config h = (\<lambda>(self, ss, rt).
     case ob_states self h of
       None \<Rightarrow> Inl Panic
     | Some (Listening created) \<Rightarrow>
         result_bind (get_tcp ss h) (\<lambda>sock.
         if t_state T sock \<in> {TEstablished, TCloseWait} then
           (case t_local T sock of
              None \<Rightarrow> Inr (self, ss, rt)
            | Some (dst_ip, port) \<Rightarrow>
                let target = target_for dns dst_ip port in
                result_bind (proxy_for R config target) (\<lambda>route.
                case spawn_connect X rt route target of
                  (rt, task) \<Rightarrow> Inr (set_state h (Connecting task) self, ss, rt)))
         else if t_state T sock \<in> {TClosed, TTimeWait} then Inr (set_state h Closing self, ss, rt)
         else if elapsed (now h) created \<ge> TCP_HANDSHAKE_TIMEOUT then
           Inr (set_state h Closing self, ss(h \<mapsto> Tcp (t_abort T sock)), rt)
         else Inr (self, ss, rt))
     | _ \<Rightarrow> Inr (self, ss, rt))"

definition update_listeners ::
  "('t, 'i) tcp_lib \<Rightarrow> ('r, 'k, 's) task_lib \<Rightarrow> 'rs regex_lib \<Rightarrow> order \<Rightarrow> clock \<Rightarrow> dns_interceptor \<Rightarrow> 'rs app_config \<Rightarrow>
   ('k, 's) outbound_tcp \<Rightarrow> ('t, 'u) socket_set \<Rightarrow> 'r \<Rightarrow>
   panic + (('k, 's) outbound_tcp \<times> ('t, 'u) socket_set \<times> 'r)" where
  "update_listeners T X R ord now dns config self ss rt =
     fold_handles (update_listener T X R now dns config) (ord (dom (ob_states self))) (self, ss, rt)"

section \<open>Upstream connections\<close>

definition client_gone :: "tcp_state \<Rightarrow> bool" where
  "client_gone st \<longleftrightarrow> st \<in> {TClosed, TClosing, TTimeWait, TFinWait1, TFinWait2, TLastAck}"

definition new_context :: "'s proxy_stream \<Rightarrow> 's forward_context" where
  "new_context st = \<lparr>stream = st, proxy_to_app = [], proxy_read_state = Open\<rparr>"

definition poll_connecting_one ::
  "('t, 'i) tcp_lib \<Rightarrow> ('r, 'k, 's) task_lib \<Rightarrow> handle \<Rightarrow>
   ('k, 's) outbound_tcp \<times> ('t, 'u) socket_set \<times> 'r \<times> bool \<Rightarrow>
   panic + (('k, 's) outbound_tcp \<times> ('t, 'u) socket_set \<times> 'r \<times> bool)" where
  "poll_connecting_one T X h = (\<lambda>(self, ss, rt, ready).
     case ob_states self h of
       Some (Connecting task) \<Rightarrow>
         let self = self\<lparr>ob_states := (ob_states self)(h := None)\<rparr> in
         (case task_poll X rt task of
            (rt, Ready (Inr (Inr st))) \<Rightarrow> Inr (set_state h (Established (new_context st)) self, ss, rt, True)
          | (rt, Ready (Inr (Inl error))) \<Rightarrow>
              result_bind (get_tcp ss h) (\<lambda>sock.
                Inr (set_state h Closing self, ss(h \<mapsto> Tcp (t_abort T sock)), rt, True))
          | (rt, Ready (Inl error)) \<Rightarrow>
              result_bind (get_tcp ss h) (\<lambda>sock.
                Inr (set_state h Closing self, ss(h \<mapsto> Tcp (t_abort T sock)), rt, True))
          | (rt, Pending) \<Rightarrow>
              result_bind (get_tcp ss h) (\<lambda>sock.
                if client_gone (t_state T sock) then
                  Inr (set_state h Closing self, ss(h \<mapsto> Tcp (t_abort T sock)), task_abort X rt task, True)
                else Inr (set_state h (Connecting task) self, ss, rt, ready)))
     | _ \<Rightarrow> Inl Panic)"

definition is_connecting :: "('k, 's) ob_state option \<Rightarrow> bool" where
  "is_connecting st \<longleftrightarrow> (case st of Some (Connecting task) \<Rightarrow> True | _ \<Rightarrow> False)"

definition is_established :: "('k, 's) ob_state option \<Rightarrow> bool" where
  "is_established st \<longleftrightarrow> (case st of Some (Established ctx) \<Rightarrow> True | _ \<Rightarrow> False)"

definition ob_poll_connecting ::
  "('t, 'i) tcp_lib \<Rightarrow> ('r, 'k, 's) task_lib \<Rightarrow> order \<Rightarrow> ('k, 's) outbound_tcp \<Rightarrow> ('t, 'u) socket_set \<Rightarrow> 'r \<Rightarrow>
   panic + (('k, 's) outbound_tcp \<times> ('t, 'u) socket_set \<times> 'r \<times> bool)" where
  "ob_poll_connecting T X ord self ss rt =
     fold_handles (poll_connecting_one T X)
       (filter (\<lambda>h. is_connecting (ob_states self h)) (ord (dom (ob_states self)))) (self, ss, rt, False)"

text \<open>Whether one connection can make progress.\<close>

definition ob_ready_one ::
  "'s net_lib \<Rightarrow> ('t, 'i) tcp_lib \<Rightarrow> ('k, 's) outbound_tcp \<Rightarrow> ('t, 'u) socket_set \<Rightarrow> handle \<Rightarrow> bool \<Rightarrow> panic + bool" where
  "ob_ready_one N T self ss h ready =
     (case ob_states self h of
        Some (Established ctx) \<Rightarrow>
          result_bind (get_tcp ss h) (\<lambda>sock.
            Inr (ready \<or>
              (proxy_read_state ctx = Open \<and> length (proxy_to_app ctx) < TCP_BUF_SIZE \<and>
                 poll_read_ready N (stream ctx) \<noteq> Pending) \<or>
              (t_can_recv T sock \<and> sock_write_ready N (inner (stream ctx)) \<noteq> Pending)))
      | _ \<Rightarrow> Inr ready)"

definition ob_poll_ready ::
  "'s net_lib \<Rightarrow> ('t, 'i) tcp_lib \<Rightarrow> ('r, 'k, 's) task_lib \<Rightarrow> order \<Rightarrow> order \<Rightarrow>
   ('k, 's) outbound_tcp \<Rightarrow> ('t, 'u) socket_set \<Rightarrow> 'r \<Rightarrow>
   panic + (('k, 's) outbound_tcp \<times> ('t, 'u) socket_set \<times> 'r \<times> bool)" where
  "ob_poll_ready N T X ord1 ord2 self ss rt =
     result_bind (ob_poll_connecting T X ord1 self ss rt) (\<lambda>(self, ss, rt, ready).
     result_bind (fold_handles (ob_ready_one N T self ss) (ord2 (dom (ob_states self))) ready) (\<lambda>ready.
       Inr (self, ss, rt, ready)))"

section \<open>Shuttling\<close>

definition abort_if :: "('t, 'i) tcp_lib \<Rightarrow> bool \<Rightarrow> 't \<Rightarrow> 't" where
  "abort_if T c sock = (if c then t_abort T sock else sock)"

definition ob_upload ::
  "'s net_lib \<Rightarrow> ('t, 'i) tcp_lib \<Rightarrow> 's forward_context \<Rightarrow> 't \<Rightarrow> 's forward_context \<times> 't" where
  "ob_upload N T ctx sock =
     (if t_may_recv T sock \<and> t_can_recv T sock then
        (case recv_to_stream N T sock (inner (stream ctx)) of
           (sock, s, failed) \<Rightarrow> (ctx\<lparr>stream := (stream ctx)\<lparr>inner := s\<rparr>\<rparr>, abort_if T failed sock))
      else (ctx, sock))"

definition ob_read_proxy ::
  "'s net_lib \<Rightarrow> ('t, 'i) tcp_lib \<Rightarrow> 's forward_context \<Rightarrow> 't \<Rightarrow> 's forward_context \<times> 't" where
  "ob_read_proxy N T ctx sock =
     (if proxy_read_state ctx = Open \<and> length (proxy_to_app ctx) < TCP_BUF_SIZE then
        let space = TCP_BUF_SIZE - length (proxy_to_app ctx) in
        (case try_read N (stream ctx) space of
           (st, Inr bs) \<Rightarrow>
             if bs = [] then (ctx\<lparr>stream := st, proxy_read_state := Eof\<rparr>, sock)
             else (ctx\<lparr>stream := st, proxy_to_app := proxy_to_app ctx @ bs\<rparr>, sock)
         | (st, Inl WouldBlock) \<Rightarrow> (ctx\<lparr>stream := st\<rparr>, sock)
         | (st, Inl IoError) \<Rightarrow> (ctx\<lparr>stream := st, proxy_read_state := Failed\<rparr>, t_abort T sock))
      else (ctx, sock))"

definition ob_send_app ::
  "('t, 'i) tcp_lib \<Rightarrow> 's forward_context \<Rightarrow> 't \<Rightarrow> panic + ('s forward_context \<times> 't)" where
  "ob_send_app T ctx sock =
     result_bind (send_front T sock (proxy_to_app ctx)) (\<lambda>(sock, buf, failed).
       Inr (ctx\<lparr>proxy_to_app := buf\<rparr>, abort_if T failed sock))"

text \<open>The end of a pass over one connection: the flag says that it goes to \<open>Closing\<close>.\<close>

definition ob_finish :: "('t, 'i) tcp_lib \<Rightarrow> 's forward_context \<Rightarrow> 't \<Rightarrow> 't \<times> bool" where
  "ob_finish T ctx sock =
     (let drained_after_eof =
            proxy_read_state ctx = Eof \<and> proxy_to_app ctx = [] \<and> t_send_queue T sock = 0 \<and> t_may_send T sock;
          sock = abort_if T drained_after_eof sock;
          close = (\<not> t_may_recv T sock \<or> \<not> t_may_send T sock)
      in (abort_if T close sock, close))"

definition ob_shuttle_one ::
  "'s net_lib \<Rightarrow> ('t, 'i) tcp_lib \<Rightarrow> 's forward_context \<Rightarrow> 't \<Rightarrow> panic + ('s forward_context \<times> 't \<times> bool)" where
  "ob_shuttle_one N T ctx sock =
     (case ob_upload N T ctx sock of (ctx, sock) \<Rightarrow>
      case ob_read_proxy N T ctx sock of (ctx, sock) \<Rightarrow>
      result_bind (ob_send_app T ctx sock) (\<lambda>(ctx, sock).
      case ob_finish T ctx sock of (sock, close) \<Rightarrow> Inr (ctx, sock, close)))"

definition shuttle_handle ::
  "'s net_lib \<Rightarrow> ('t, 'i) tcp_lib \<Rightarrow> handle \<Rightarrow> ('k, 's) outbound_tcp \<times> ('t, 'u) socket_set \<Rightarrow>
   panic + (('k, 's) outbound_tcp \<times> ('t, 'u) socket_set)" where
  "shuttle_handle N T h = (\<lambda>(self, ss).
     case ob_states self h of
       None \<Rightarrow> Inl Panic
     | Some (Established ctx) \<Rightarrow>
         result_bind (get_tcp ss h) (\<lambda>sock.
         result_bind (ob_shuttle_one N T ctx sock) (\<lambda>(ctx, sock, close).
           Inr (set_state h (if close then Closing else Established ctx) self, ss(h \<mapsto> Tcp sock))))
     | _ \<Rightarrow> Inr (self, ss))"

definition ob_shuttle_established ::
  "'s net_lib \<Rightarrow> ('t, 'i) tcp_lib \<Rightarrow> order \<Rightarrow> ('k, 's) outbound_tcp \<Rightarrow> ('t, 'u) socket_set \<Rightarrow>
   panic + (('k, 's) outbound_tcp \<times> ('t, 'u) socket_set)" where
  "ob_shuttle_established N T ord self ss =
     fold_handles (shuttle_handle N T)
       (filter (\<lambda>h. is_established (ob_states self h)) (ord (dom (ob_states self)))) (self, ss)"

text \<open>One pass; the three loops may each iterate in an order of their own.\<close>

definition ob_process ::
  "'s net_lib \<Rightarrow> ('t, 'i) tcp_lib \<Rightarrow> ('r, 'k, 's) task_lib \<Rightarrow> 'rs regex_lib \<Rightarrow> order \<Rightarrow> order \<Rightarrow> order \<Rightarrow> clock \<Rightarrow>
   dns_interceptor \<Rightarrow> 'rs app_config \<Rightarrow> ('k, 's) outbound_tcp \<Rightarrow> ('t, 'u) socket_set \<Rightarrow> 'r \<Rightarrow>
   panic + (('k, 's) outbound_tcp \<times> ('t, 'u) socket_set \<times> 'r)" where
  "ob_process N T X R ord1 ord2 ord3 now dns config self ss rt =
     result_bind (log_listener_transitions ord1 self ss) (\<lambda>_.
     result_bind (update_listeners T X R ord2 now dns config self ss rt) (\<lambda>(self, ss, rt).
     result_bind (ob_shuttle_established N T ord3 self ss) (\<lambda>(self, ss).
       Inr (self, ss, rt))))"

section \<open>Cleanup\<close>

definition is_closing :: "('k, 's) ob_state option \<Rightarrow> bool" where
  "is_closing st \<longleftrightarrow> (case st of Some Closing \<Rightarrow> True | _ \<Rightarrow> False)"

definition cleanup_one ::
  "handle \<Rightarrow> ('k, 's) outbound_tcp \<times> ('t, 'u) socket_set \<Rightarrow>
   panic + (('k, 's) outbound_tcp \<times> ('t, 'u) socket_set)" where
  "cleanup_one h = (\<lambda>(self, ss).
     let self = (case handle_to_endpoint self h of
           Some endpoint \<Rightarrow>
             self\<lparr>handle_to_endpoint := (handle_to_endpoint self)(h := None),
                  listening_endpoints := listening_endpoints self - {endpoint}\<rparr>
         | None \<Rightarrow> self);
         self = self\<lparr>ob_states := (ob_states self)(h := None)\<rparr>
     in result_bind (ss_remove ss h) (\<lambda>ss. Inr (self, ss)))"

definition ob_cleanup ::
  "order \<Rightarrow> ('k, 's) outbound_tcp \<Rightarrow> ('t, 'u) socket_set \<Rightarrow>
   panic + (('k, 's) outbound_tcp \<times> ('t, 'u) socket_set)" where
  "ob_cleanup ord self ss =
     fold_handles cleanup_one
       (filter (\<lambda>h. is_closing (ob_states self h)) (ord (dom (ob_states self)))) (self, ss)"

text \<open>\<open>Drop\<close>: the tasks that still connect are aborted.\<close>

definition ob_drop :: "('r, 'k, 's) task_lib \<Rightarrow> order \<Rightarrow> ('k, 's) outbound_tcp \<Rightarrow> 'r \<Rightarrow> 'r" where
  "ob_drop X ord self rt =
     foldl (\<lambda>rt h. case ob_states self h of Some (Connecting task) \<Rightarrow> task_abort X rt task | _ \<Rightarrow> rt)
       rt (ord (dom (ob_states self)))"

section \<open>The invariant\<close>

text \<open>
  What a proof about the component knows of its environment: the logs of streams and sockets, the
  local endpoint of a socket's connection, and the connection attempt behind a task.
\<close>

record ('s, 't, 'k) ob_logs =
  lg_sent :: "'s \<Rightarrow> bytes"
  lg_taken :: "'s \<Rightarrow> bytes"
  lg_queued :: "'t \<Rightarrow> bytes"
  lg_removed :: "'t \<Rightarrow> bytes"
  lg_local :: "'t \<Rightarrow> (ipv4 \<times> u16) option"
  lg_job :: "'k \<Rightarrow> proxy_config \<times> proxy_target"

definition task_spec ::
  "('r, 'k, 's) task_lib \<Rightarrow> 's net_lib \<Rightarrow> ('s, 'b) buf_lib \<Rightarrow> ('k \<Rightarrow> proxy_config \<times> proxy_target) \<Rightarrow> bool" where
  "task_spec X N B job \<longleftrightarrow>
     (\<forall>rt p t rt' k. spawn_connect X rt p t = (rt', k) \<longrightarrow> job k = (p, t)) \<and>
     (\<forall>rt k rt' ps. task_poll X rt k = (rt', Ready (Inr (Inr ps))) \<longrightarrow>
        (\<exists>took dialled dialled'. connect took (fst (job k)) N B (snd (job k)) dialled = (dialled', Inr ps)))"

definition ob_env ::
  "'s net_lib \<Rightarrow> ('s, 'b) buf_lib \<Rightarrow> ('t, 'i) tcp_lib \<Rightarrow> ('r, 'k, 's) task_lib \<Rightarrow> ('s, 't, 'k) ob_logs \<Rightarrow> bool" where
  "ob_env N B T X L \<longleftrightarrow>
     stream_spec N (lg_sent L) (lg_taken L) \<and> buf_spec B (lg_sent L) (lg_taken L) \<and>
     tcp_spec T (lg_queued L) (lg_removed L) \<and> fresh_spec T (lg_queued L) (lg_removed L) \<and>
     task_spec X N B (lg_job L) \<and> conn_spec T (lg_local L)"

text \<open>
  The target that belongs to the socket of a connection: the name that the interceptor finds in its
  pool for the local address of the connection, that is, the address the application connected to,
  or that address itself, with its port. \<open>past\<close> are the pools that the interceptor has had so far.
\<close>

definition aimed :: "('s, 't, 'k) ob_logs \<Rightarrow> fake_dns set \<Rightarrow> 't \<Rightarrow> proxy_target \<Rightarrow> bool" where
  "aimed L past t target \<longleftrightarrow>
     (\<exists>ip port dns. lg_local L t = Some (ip, port) \<and> dns_pool dns \<in> past \<and> target = target_for dns ip port)"

text \<open>
  A forwarded connection is a tunnel: the upstream was dialled by the route that the rules give
  for the target that belongs to the application's socket, it was sent the route's handshake
  followed by exactly the bytes removed from the application's socket, and what it sent after its
  answer is, in order, what was queued to the application, what waits in the buffer and what waits
  in the stream.
\<close>

definition tunnel ::
  "'rs regex_lib \<Rightarrow> 'rs app_config \<Rightarrow> 's net_lib \<Rightarrow> ('s, 't, 'k) ob_logs \<Rightarrow> fake_dns set \<Rightarrow>
   's forward_context \<Rightarrow> 't \<Rightarrow> bool" where
  "tunnel R config N L past ctx t \<longleftrightarrow>
     (\<exists>target route dialled s out inp. aimed L past t target \<and> proxy_for R config target = Inr route \<and>
        tcp_connect N dialled (route_dial route target) = Some s \<and>
        route_hello route target out \<and> route_answer route target inp \<and>
        lg_sent L (inner (stream ctx)) = lg_sent L s @ out @ lg_removed L t \<and>
        lg_taken L (inner (stream ctx)) =
          lg_taken L s @ inp @ lg_queued L t @ proxy_to_app ctx @ unread (stream ctx))"

definition state_ok ::
  "'rs regex_lib \<Rightarrow> 'rs app_config \<Rightarrow> 's net_lib \<Rightarrow> ('s, 't, 'k) ob_logs \<Rightarrow> fake_dns set \<Rightarrow>
   ('k, 's) ob_state \<Rightarrow> 't \<Rightarrow> bool" where
  "state_ok R config N L past st t \<longleftrightarrow>
     (case st of
        Listening created \<Rightarrow> lg_queued L t = [] \<and> lg_removed L t = []
      | Connecting task \<Rightarrow> lg_queued L t = [] \<and> lg_removed L t = [] \<and>
          aimed L past t (snd (lg_job L task)) \<and> proxy_for R config (snd (lg_job L task)) = Inr (fst (lg_job L task))
      | Established ctx \<Rightarrow> tunnel R config N L past ctx t \<and> length (proxy_to_app ctx) \<le> TCP_BUF_SIZE
      | Closing \<Rightarrow> True)"

definition ob_inv ::
  "'rs regex_lib \<Rightarrow> 'rs app_config \<Rightarrow> 's net_lib \<Rightarrow> ('s, 't, 'k) ob_logs \<Rightarrow> fake_dns set \<Rightarrow>
   ('k, 's) outbound_tcp \<Rightarrow> ('t, 'u) socket_set \<Rightarrow> bool" where
  "ob_inv R config N L past self ss \<longleftrightarrow>
     finite (dom (ob_states self)) \<and>
     (\<forall>h st. ob_states self h = Some st \<longrightarrow> (\<exists>t. ss h = Some (Tcp t) \<and> state_ok R config N L past st t)) \<and>
     dom (handle_to_endpoint self) = dom (ob_states self) \<and>
     inj_on (handle_to_endpoint self) (dom (handle_to_endpoint self)) \<and>
     listening_endpoints self = ran (handle_to_endpoint self)"

definition ob_handles :: "('k, 's) outbound_tcp \<Rightarrow> handle set" where
  "ob_handles self = dom (ob_states self)"

lemma ob_inv_state:
  assumes "ob_inv R config N L past self ss" and "ob_states self h = Some st"
  obtains t where "ss h = Some (Tcp t)" "get_tcp ss h = Inr t" "state_ok R config N L past st t"
proof -
  from assms(1) have "\<forall>h st. ob_states self h = Some st \<longrightarrow> (\<exists>t. ss h = Some (Tcp t) \<and> state_ok R config N L past st t)"
    unfolding ob_inv_def by blast
  with assms(2) obtain t where "ss h = Some (Tcp t)" "state_ok R config N L past st t" by blast
  with that [of t] show thesis by (simp add: get_tcp_Inr)
qed

lemma ob_inv_finite: "ob_inv R config N L past self ss \<Longrightarrow> finite (dom (ob_states self))"
  by (simp add: ob_inv_def)

lemma aimed_keep:
  "aimed L past t target \<Longrightarrow> (\<And>e. lg_local L t = Some e \<Longrightarrow> lg_local L t' = Some e) \<Longrightarrow> past \<subseteq> past' \<Longrightarrow>
   aimed L past' t' target"
  unfolding aimed_def by blast

lemma state_ok_logs:
  assumes "state_ok R config N L past st t" and "lg_queued L t' = lg_queued L t" and "lg_removed L t' = lg_removed L t"
    and "\<And>e. lg_local L t = Some e \<Longrightarrow> lg_local L t' = Some e" and "past \<subseteq> past'"
  shows "state_ok R config N L past' st t'"
  using assms aimed_keep [OF _ assms(4,5)] by (cases st) (fastforce simp: state_ok_def tunnel_def)+

lemma ob_inv_mono:
  assumes "ob_inv R config N L past self ss" and "past \<subseteq> past'"
  shows "ob_inv R config N L past' self ss"
proof -
  have "state_ok R config N L past' st t" if "state_ok R config N L past st t" for st t
    by (rule state_ok_logs [OF that _ _ _ assms(2)]) simp_all
  with assms(1) show ?thesis unfolding ob_inv_def by blast
qed

interpretation ob: socket_owner "ob_inv R config N L past" ob_handles "same_logs (lg_queued L) (lg_removed L) (lg_local L)"
  for R :: "'rs regex_lib" and config N and L :: "('s, 't, 'k) ob_logs" and past
proof unfold_locales
  fix c :: "('k, 's) outbound_tcp" and ss ss' :: "('t, 'u) socket_set"
  assume inv: "ob_inv R config N L past c ss"
  show "ob_handles c \<subseteq> dom ss"
    using ob_inv_state [OF inv] by (force simp: ob_handles_def)
  assume same: "\<And>h. h \<in> ob_handles c \<Longrightarrow> same_logs (lg_queued L) (lg_removed L) (lg_local L) (ss h) (ss' h)"
  have "\<exists>t. ss' h = Some (Tcp t) \<and> state_ok R config N L past st t" if st: "ob_states c h = Some st" for h st
  proof -
    from ob_inv_state [OF inv st] obtain t where t: "ss h = Some (Tcp t)" "state_ok R config N L past st t" by blast
    have "h \<in> ob_handles c" using st by (auto simp: ob_handles_def)
    with same [of h] t(1) same_logs_Tcp obtain t' where
      t': "ss' h = Some (Tcp t')" "lg_queued L t' = lg_queued L t" "lg_removed L t' = lg_removed L t"
      "\<And>e. lg_local L t = Some e \<Longrightarrow> lg_local L t' = Some e" by metis
    with state_ok_logs [OF t(2) t'(2-4) subset_refl] show ?thesis by blast
  qed
  with inv show "ob_inv R config N L past c ss'"
    unfolding ob_inv_def by blast
qed (rule same_logs_refl)

interpretation obt: state_table "ob_inv R config N L past" ob_handles ob_states
  for R config N L past
  by unfold_locales (simp add: ob_inv_finite)

abbreviation ob_step ::
  "'rs regex_lib \<Rightarrow> 'rs app_config \<Rightarrow> 's net_lib \<Rightarrow> ('s, 't, 'k) ob_logs \<Rightarrow> fake_dns set \<Rightarrow>
   ('k, 's) outbound_tcp \<times> ('t, 'u) socket_set \<Rightarrow> ('k, 's) outbound_tcp \<times> ('t, 'u) socket_set \<Rightarrow> bool" where
  "ob_step R config N L past \<equiv> owner_step (ob_inv R config N L past) ob_handles"

abbreviation ob_view ::
  "handle \<Rightarrow> ('k, 's) outbound_tcp \<times> ('t, 'u) socket_set \<Rightarrow> ('k, 's) ob_state option \<times> ('t, 'u) socket option" where
  "ob_view \<equiv> table_view ob_states"

abbreviation ob_handle_step ::
  "'rs regex_lib \<Rightarrow> 'rs app_config \<Rightarrow> 's net_lib \<Rightarrow> ('s, 't, 'k) ob_logs \<Rightarrow> fake_dns set \<Rightarrow> handle \<Rightarrow>
   ('k, 's) outbound_tcp \<times> ('t, 'u) socket_set \<Rightarrow> ('k, 's) outbound_tcp \<times> ('t, 'u) socket_set \<Rightarrow> bool" where
  "ob_handle_step R config N L past \<equiv> handle_step (ob_inv R config N L past) ob_handles ob_states"

lemma set_state_simps [simp]:
  "ob_states (set_state h st self) = (ob_states self)(h \<mapsto> st)"
  "listening_endpoints (set_state h st self) = listening_endpoints self"
  "handle_to_endpoint (set_state h st self) = handle_to_endpoint self"
  "set_state h st (self\<lparr>ob_states := (ob_states self)(h := None)\<rparr>) = set_state h st self"
  by (simp_all add: set_state_def)

text \<open>The state and the socket of one handle change.\<close>

lemma ob_step_set:
  assumes "ob_inv R config N L past self ss" and "ob_states self h \<noteq> None" and "state_ok R config N L past st t"
  shows "ob_step R config N L past (self, ss) (set_state h st self, ss(h \<mapsto> Tcp t))"
proof -
  from assms(2) have h: "h \<in> dom (ob_states self)" by auto
  have "ob_inv R config N L past (set_state h st self) (ss(h \<mapsto> Tcp t))"
    using assms(1,3) h unfolding ob_inv_def by (auto simp: insert_absorb)
  moreover have "keeps_others (ob_handles self) ss (ob_handles (set_state h st self)) (ss(h \<mapsto> Tcp t))"
    using h by (auto simp: keeps_others_def ob_handles_def)
  ultimately show ?thesis by (simp add: owner_step_def)
qed

lemma ob_step_set_state:
  assumes "ob_inv R config N L past self ss" and "ob_states self h \<noteq> None" and "ss h = Some (Tcp t)"
    and "state_ok R config N L past st t"
  shows "ob_step R config N L past (self, ss) (set_state h st self, ss)"
proof -
  have "ss(h \<mapsto> Tcp t) = ss" using assms(3) by auto
  with ob_step_set [OF assms(1,2,4)] show ?thesis by simp
qed

section \<open>Every operation keeps it\<close>

lemma ob_envD:
  assumes "ob_env N B T X L"
  shows "stream_spec N (lg_sent L) (lg_taken L)" "buf_spec B (lg_sent L) (lg_taken L)"
    "tcp_spec T (lg_queued L) (lg_removed L)" "fresh_spec T (lg_queued L) (lg_removed L)"
    "task_spec X N B (lg_job L)" "conn_spec T (lg_local L)"
  using assms by (simp_all add: ob_env_def)

lemma ob_inv_new: "ob_inv R config N L past ob_new ss"
  by (simp add: ob_inv_def ob_new_def)

lemma observe_syn_step:
  assumes "ob_env N B T X L" and "alloc_spec alloc" and "ob_inv R config N L past self ss" and "finite (dom ss)"
  shows "\<exists>self' ss'. observe_syn T alloc now packet (self, ss) = Inr (self', ss') \<and>
    ob_step R config N L past (self, ss) (self', ss')"
proof -
  obtain syn where syn: "parse_tcp_syn packet = Inr syn" using parse_tcp_syn_total by blast
  have same: ?thesis if "observe_syn T alloc now packet (self, ss) = Inr (self, ss)"
    using that obt.step_refl [OF assms(3)] by blast
  show ?thesis
  proof (cases syn)
    case None
    with syn have "observe_syn T alloc now packet (self, ss) = Inr (self, ss)" by (simp add: observe_syn_def)
    then show ?thesis by (rule same)
  next
    case (Some key)
    obtain a b c p where key: "key = (a, b, c, p)" by (cases key)
    show ?thesis
    proof (cases "key \<in> listening_endpoints self \<or> t_listen T (new_tcp_socket T) None p = None")
      case True
      with syn Some key have "observe_syn T alloc now packet (self, ss) = Inr (self, ss)"
        by (auto simp: observe_syn_def Let_def split: option.splits)
      then show ?thesis by (rule same)
    next
      case False
      then obtain t where t: "t_listen T (new_tcp_socket T) None p = Some t" by blast
      define h where "h = alloc ss"
      have h: "h \<notin> dom ss" using assms(2,4) by (simp add: alloc_spec_def h_def)
      with ob.handles_live [OF assms(3)] have h': "h \<notin> dom (ob_states self)" by (auto simp: ob_handles_def)
      let ?self = "\<lparr>ob_states = (ob_states self)(h \<mapsto> Listening (now h)),
        listening_endpoints = insert key (listening_endpoints self),
        handle_to_endpoint = (handle_to_endpoint self)(h \<mapsto> key)\<rparr>"
      have eq: "observe_syn T alloc now packet (self, ss) = Inr (?self, ss(h \<mapsto> Tcp t))"
        using syn Some key False t by (simp add: observe_syn_def ss_add_def h_def Let_def)
      have ok: "state_ok R config N L past (Listening (now h)) t"
        using fresh_listen [OF ob_envD(4) [OF assms(1)] t] by (simp add: state_ok_def)
      have m: "h \<notin> dom (handle_to_endpoint self)" "key \<notin> ran (handle_to_endpoint self)"
        "inj_on (handle_to_endpoint self) (dom (handle_to_endpoint self))"
        using assms(3) h' False by (auto simp: ob_inv_def)
      have "ob_inv R config N L past ?self (ss(h \<mapsto> Tcp t))"
        using assms(3) h' ok inj_on_upd [OF m(3,2), of h] ran_upd_new [OF m(1), of key]
        unfolding ob_inv_def by auto
      moreover have "keeps_others (ob_handles self) ss (ob_handles ?self) (ss(h \<mapsto> Tcp t))"
        using h h' by (auto simp: keeps_others_def ob_handles_def)
      ultimately show ?thesis using eq by (auto simp: owner_step_def)
    qed
  qed
qed

lemma observe_syns_step:
  assumes "ob_env N B T X L" and "alloc_spec alloc" and "ob_inv R config N L past self ss" and "finite (dom ss)"
  shows "\<exists>self' ss'. observe_syns T alloc now device self ss = Inr (self', ss') \<and>
    ob_step R config N L past (self, ss) (self', ss')"
proof -
  have "\<exists>s'. fold_handles (observe_syn T alloc now) (rx_queue device) (self, ss) = Inr s' \<and>
      ob_step R config N L past (id (self, ss)) (id s')"
    by (rule obt.loop) (use assms(3,4) observe_syn_step [OF assms(1,2)] in auto)
  then show ?thesis by (auto simp: observe_syns_def)
qed

lemma ob_handle_step_refl: "ob_inv R config N L past self ss \<Longrightarrow> ob_handle_step R config N L past h (self, ss) (self, ss)"
  by (simp add: handle_step_def obt.step_refl)

lemma ob_handle_step_set:
  assumes "ob_inv R config N L past self ss" and "ob_states self h \<noteq> None" and "state_ok R config N L past st t"
  shows "ob_handle_step R config N L past h (self, ss) (set_state h st self, ss(h \<mapsto> Tcp t))"
  using ob_step_set [OF assms] by (simp add: handle_step_def table_view_def)

lemma ob_handle_step_set_state:
  assumes "ob_inv R config N L past self ss" and "ob_states self h \<noteq> None" and "ss h = Some (Tcp t)"
    and "state_ok R config N L past st t"
  shows "ob_handle_step R config N L past h (self, ss) (set_state h st self, ss)"
  using ob_step_set_state [OF assms] by (simp add: handle_step_def table_view_def)

lemma state_ok_Closing [simp]: "state_ok R config N L past Closing t"
  by (simp add: state_ok_def)

text \<open>The life of a listener in one pass.\<close>

inductive listener_edge ::
  "('t, 'i) tcp_lib \<Rightarrow> 'rs regex_lib \<Rightarrow> 'rs app_config \<Rightarrow> dns_interceptor \<Rightarrow> ('k \<Rightarrow> proxy_config \<times> proxy_target) \<Rightarrow>
   clock \<Rightarrow> handle \<Rightarrow> ('k, 's) ob_state option \<times> ('t, 'u) socket option \<Rightarrow>
   ('k, 's) ob_state option \<times> ('t, 'u) socket option \<Rightarrow> bool"
  for T R config dns job now h where
  le_other: "(\<forall>c. st \<noteq> Listening c) \<Longrightarrow> listener_edge T R config dns job now h (Some st, so) (Some st, so)"
| le_connect: "t_state T t \<in> {TEstablished, TCloseWait} \<Longrightarrow> t_local T t = Some (ip, port) \<Longrightarrow>
    job task = (route, target_for dns ip port) \<Longrightarrow> proxy_for R config (target_for dns ip port) = Inr route \<Longrightarrow>
    listener_edge T R config dns job now h (Some (Listening c), Some (Tcp t)) (Some (Connecting task), Some (Tcp t))"
| le_nowhere: "t_state T t \<in> {TEstablished, TCloseWait} \<Longrightarrow> t_local T t = None \<Longrightarrow>
    listener_edge T R config dns job now h (Some (Listening c), Some (Tcp t)) (Some (Listening c), Some (Tcp t))"
| le_closed: "t_state T t \<in> {TClosed, TTimeWait} \<Longrightarrow>
    listener_edge T R config dns job now h (Some (Listening c), Some (Tcp t)) (Some Closing, Some (Tcp t))"
| le_timeout: "t_state T t \<notin> {TEstablished, TCloseWait, TClosed, TTimeWait} \<Longrightarrow>
    TCP_HANDSHAKE_TIMEOUT \<le> elapsed (now h) c \<Longrightarrow>
    listener_edge T R config dns job now h (Some (Listening c), Some (Tcp t)) (Some Closing, Some (Tcp (t_abort T t)))"
| le_wait: "t_state T t \<notin> {TEstablished, TCloseWait, TClosed, TTimeWait} \<Longrightarrow>
    elapsed (now h) c < TCP_HANDSHAKE_TIMEOUT \<Longrightarrow>
    listener_edge T R config dns job now h (Some (Listening c), Some (Tcp t)) (Some (Listening c), Some (Tcp t))"

text \<open>A listener whose handshake has completed.\<close>

lemma update_listener_up:
  assumes env: "ob_env N B T X L" and routes: "\<And>target. \<exists>p. proxy_for R config target = Inr p"
    and inv: "ob_inv R config N L past self ss" and st: "ob_states self h = Some (Listening c)"
    and t: "ss h = Some (Tcp t)" "get_tcp ss h = Inr t" "state_ok R config N L past (Listening c) t"
    and up: "t_state T t \<in> {TEstablished, TCloseWait}" and seen: "dns_pool dns \<in> past"
  shows "\<exists>self' ss' rt'. update_listener T X R now dns config h (self, ss, rt) = Inr (self', ss', rt') \<and>
    ob_handle_step R config N L past h (self, ss) (self', ss') \<and>
    listener_edge T R config dns (lg_job L) now h (ob_view h (self, ss)) (ob_view h (self', ss'))"
proof (cases "t_local T t")
  case None
  with up st t(2) have "update_listener T X R now dns config h (self, ss, rt) = Inr (self, ss, rt)"
    by (simp add: update_listener_def)
  moreover have "listener_edge T R config dns (lg_job L) now h (ob_view h (self, ss)) (ob_view h (self, ss))"
    by (simp add: table_view_def st t(1) le_nowhere [OF up None])
  ultimately show ?thesis using ob_handle_step_refl [OF inv] by blast
next
  case (Some loc)
  from st have st': "ob_states self h \<noteq> None" by simp
  obtain ip port where loc: "loc = (ip, port)" by (cases loc)
  from routes obtain p where p: "proxy_for R config (target_for dns ip port) = Inr p" by blast
  obtain rt' k where k: "spawn_connect X rt p (target_for dns ip port) = (rt', k)" by fastforce
  with ob_envD(5) [OF env] have job: "lg_job L k = (p, target_for dns ip port)"
    unfolding task_spec_def by blast
  have "update_listener T X R now dns config h (self, ss, rt) = Inr (set_state h (Connecting k) self, ss, rt')"
    using up st t(2) Some loc p k by (simp add: update_listener_def Let_def)
  moreover have "state_ok R config N L past (Connecting k) t"
    using t(3) job p seen conn_specD(1) [OF ob_envD(6) [OF env] up Some] loc by (auto simp: state_ok_def aimed_def)
  moreover have "listener_edge T R config dns (lg_job L) now h (ob_view h (self, ss))
      (ob_view h (set_state h (Connecting k) self, ss))"
    using le_connect [of T t ip port "lg_job L" k, OF up Some [unfolded loc] job p] st t(1) by (simp add: table_view_def)
  ultimately show ?thesis using ob_handle_step_set_state [OF inv st' t(1)] by blast
qed

lemma update_listener_step:
  assumes env: "ob_env N B T X L" and routes: "\<And>target. \<exists>p. proxy_for R config target = Inr p"
    and inv: "ob_inv R config N L past self ss" and st: "ob_states self h = Some st" and seen: "dns_pool dns \<in> past"
  shows "\<exists>self' ss' rt'. update_listener T X R now dns config h (self, ss, rt) = Inr (self', ss', rt') \<and>
    ob_handle_step R config N L past h (self, ss) (self', ss') \<and>
    listener_edge T R config dns (lg_job L) now h (ob_view h (self, ss)) (ob_view h (self', ss'))"
proof -
  from ob_inv_state [OF inv st] obtain t where
    t: "ss h = Some (Tcp t)" "get_tcp ss h = Inr t" "state_ok R config N L past st t" by blast
  have same: ?thesis
    if "update_listener T X R now dns config h (self, ss, rt) = Inr (self, ss, rt)"
      "listener_edge T R config dns (lg_job L) now h (ob_view h (self, ss)) (ob_view h (self, ss))"
    using that ob_handle_step_refl [OF inv] by blast
  show ?thesis
  proof (cases "\<exists>c. st = Listening c")
    case False
    with st have "update_listener T X R now dns config h (self, ss, rt) = Inr (self, ss, rt)"
      by (simp add: update_listener_def split: ob_state.splits)
    with False show ?thesis by (intro same) (auto simp: table_view_def st intro: le_other)
  next
    case True
    then obtain c where c: "st = Listening c" by blast
    with st have st': "ob_states self h = Some (Listening c)" "ob_states self h \<noteq> None" by simp_all
    show ?thesis
    proof (cases rule: handshake_cases [where T = T and t = t and now = "now h" and c = c])
      case up
      from update_listener_up [OF env routes inv st'(1) t(1,2) t(3) [unfolded c] up seen] show ?thesis .
    next
      case closed
      then have "update_listener T X R now dns config h (self, ss, rt) = Inr (set_state h Closing self, ss, rt)"
        using st' t(2) by (auto simp: update_listener_def)
      moreover have "listener_edge T R config dns (lg_job L) now h (ob_view h (self, ss))
          (ob_view h (set_state h Closing self, ss))"
        using le_closed [OF closed] st' t(1) by (simp add: table_view_def)
      ultimately show ?thesis using ob_handle_step_set_state [OF inv st'(2) t(1) state_ok_Closing] by blast
    next
      case timeout
      then have "update_listener T X R now dns config h (self, ss, rt) =
          Inr (set_state h Closing self, ss(h \<mapsto> Tcp (t_abort T t)), rt)"
        using st' t(2) by (simp add: update_listener_def)
      moreover have "listener_edge T R config dns (lg_job L) now h (ob_view h (self, ss))
          (ob_view h (set_state h Closing self, ss(h \<mapsto> Tcp (t_abort T t))))"
        using le_timeout [of T t now h c, OF timeout] st' t(1) by (simp add: table_view_def)
      ultimately show ?thesis using ob_handle_step_set [OF inv st'(2) state_ok_Closing] by blast
    next
      case wait
      then have "update_listener T X R now dns config h (self, ss, rt) = Inr (self, ss, rt)"
        using st' t(2) by (simp add: update_listener_def)
      then show ?thesis by (rule same) (simp add: table_view_def st' t(1) le_wait [of T t now h c, OF wait])
    qed
  qed
qed

lemma update_listeners_step:
  fixes X :: "('r, 'k, 's) task_lib" and ss :: "('t, 'u) socket_set"
  assumes "ob_env N B T X L" and "\<And>target. \<exists>p. proxy_for R config target = Inr p"
    and "ob_inv R config N L past self ss" and "order_spec ord" and "dns_pool dns \<in> past"
  shows "\<exists>self' ss' rt'. update_listeners T X R ord now dns config self ss rt = Inr (self', ss', rt') \<and>
    ob_step R config N L past (self, ss) (self', ss') \<and>
    (\<forall>h. ob_states self h \<noteq> None \<longrightarrow>
       listener_edge T R config dns (lg_job L) now h (ob_view h (self, ss)) (ob_view h (self', ss'))) \<and>
    (\<forall>h. ob_states self h = None \<longrightarrow> ob_view h (self', ss') = ob_view h (self, ss))"
proof -
  have "\<exists>s'. fold_handles (update_listener T X R now dns config) (ord (dom (ob_states self))) (self, ss, rt) = Inr s' \<and>
      ob_step R config N L past (pr2 (self, ss, rt)) (pr2 s') \<and>
      (\<forall>h. ob_states (fst (pr2 (self, ss, rt))) h \<noteq> None \<longrightarrow> True \<longrightarrow>
         listener_edge T R config dns (lg_job L) now h (ob_view h (pr2 (self, ss, rt))) (ob_view h (pr2 s'))) \<and>
      (\<forall>h. \<not> (ob_states (fst (pr2 (self, ss, rt))) h \<noteq> None \<and> True) \<longrightarrow>
         ob_view h (pr2 s') = ob_view h (pr2 (self, ss, rt)))"
  proof (rule obt.loop_views [OF _ assms(4), where P = "\<lambda>_. True"])
    fix h and s :: "('k, 's) outbound_tcp \<times> ('t, 'u) socket_set \<times> 'r"
    assume "ob_inv R config N L past (fst (pr2 s)) (snd (pr2 s))" "ob_states (fst (pr2 s)) h \<noteq> None"
    then show "\<exists>s'. update_listener T X R now dns config h s = Inr s' \<and> ob_handle_step R config N L past h (pr2 s) (pr2 s') \<and>
        listener_edge T R config dns (lg_job L) now h (ob_view h (pr2 s)) (ob_view h (pr2 s'))"
      using update_listener_step [OF assms(1,2) _ _ assms(5)] by (cases s) fastforce
  qed (use assms(3) in simp_all)
  then show ?thesis by (auto simp: update_listeners_def)
qed

text \<open>What one poll does to a connection that is being made.\<close>

inductive connect_edge ::
  "('t, 'i) tcp_lib \<Rightarrow> ('k, 's) ob_state option \<times> ('t, 'u) socket option \<Rightarrow>
   ('k, 's) ob_state option \<times> ('t, 'u) socket option \<Rightarrow> bool"
  for T where
  ce_done: "connect_edge T (Some (Connecting k), so) (Some (Established (new_context ps)), so)"
| ce_failed: "connect_edge T (Some (Connecting k), Some (Tcp t)) (Some Closing, Some (Tcp (t_abort T t)))"
| ce_wait: "\<not> client_gone (t_state T t) \<Longrightarrow>
    connect_edge T (Some (Connecting k), Some (Tcp t)) (Some (Connecting k), Some (Tcp t))"

lemma connected_tunnel:
  assumes env: "ob_env N B T X L" and poll: "task_poll X rt k = (rt', Ready (Inr (Inr ps)))"
    and ok: "state_ok R config N L past (Connecting k) t"
  shows "state_ok R config N L past (Established (new_context ps)) t"
proof -
  from ob_envD(5) [OF env] poll obtain took dialled dialled' where
    "connect took (fst (lg_job L k)) N B (snd (lg_job L k)) dialled = (dialled', Inr ps)"
    unfolding task_spec_def by blast
  from route.connect_to_ok [OF ob_envD(1,2) [OF env] connect_ok_inner [OF this]] ok show ?thesis
    by (fastforce simp: state_ok_def tunnel_def new_context_def)
qed

text \<open>What polling one attempt does, by the outcome of its task and the state of its client.\<close>

lemma poll_connecting_cases:
  assumes "ob_states self h = Some (Connecting k)" and "get_tcp ss h = Inr t" and "task_poll X rt k = (rt', r)"
  obtains (finished) ps where "r = Ready (Inr (Inr ps))"
      "poll_connecting_one T X h (self, ss, rt, ready) = Inr (set_state h (Established (new_context ps)) self, ss, rt', True)"
    | (closing) rt'' where
      "poll_connecting_one T X h (self, ss, rt, ready) = Inr (set_state h Closing self, ss(h \<mapsto> Tcp (t_abort T t)), rt'', True)"
    | (wait) "\<not> client_gone (t_state T t)"
      "poll_connecting_one T X h (self, ss, rt, ready) = Inr (set_state h (Connecting k) self, ss, rt', ready)"
proof (cases r)
  case (Ready r1)
  then show ?thesis
    using assms finished closing by (cases r1; cases "projr r1") (auto simp: poll_connecting_one_def Let_def)
next
  case Pending
  then show ?thesis
    using assms closing wait by (cases "client_gone (t_state T t)") (auto simp: poll_connecting_one_def Let_def)
qed

lemma poll_connecting_step:
  assumes env: "ob_env N B T X L" and inv: "ob_inv R config N L past self ss" and st: "ob_states self h = Some (Connecting k)"
  shows "\<exists>self' ss' rt' ready'. poll_connecting_one T X h (self, ss, rt, ready) = Inr (self', ss', rt', ready') \<and>
    ob_handle_step R config N L past h (self, ss) (self', ss') \<and> connect_edge T (ob_view h (self, ss)) (ob_view h (self', ss'))"
proof -
  from ob_inv_state [OF inv st] obtain t where
    t: "ss h = Some (Tcp t)" "get_tcp ss h = Inr t" "state_ok R config N L past (Connecting k) t" by blast
  have st': "ob_states self h \<noteq> None" using st by simp
  obtain rt' r where r: "task_poll X rt k = (rt', r)" by fastforce
  from st t(2) r show ?thesis
  proof (cases rule: poll_connecting_cases [where T = T and ready = ready])
    case (finished ps)
    let ?est = "set_state h (Established (new_context ps)) self"
    have "ob_handle_step R config N L past h (self, ss) (?est, ss)"
      using connected_tunnel [OF env r [unfolded finished(1)] t(3)] by (rule ob_handle_step_set_state [OF inv st' t(1)])
    moreover have "connect_edge T (ob_view h (self, ss)) (ob_view h (?est, ss))"
      using st by (simp add: table_view_def ce_done)
    ultimately show ?thesis using finished(2) by blast
  next
    case (closing rt'')
    moreover have "connect_edge T (ob_view h (self, ss)) (ob_view h (set_state h Closing self, ss(h \<mapsto> Tcp (t_abort T t))))"
      using st t(1) by (simp add: table_view_def ce_failed)
    ultimately show ?thesis using ob_handle_step_set [OF inv st' state_ok_Closing] by blast
  next
    case wait
    moreover have "connect_edge T (ob_view h (self, ss)) (ob_view h (set_state h (Connecting k) self, ss))"
      using st t(1) wait(1) by (simp add: table_view_def ce_wait)
    ultimately show ?thesis using ob_handle_step_set_state [OF inv st' t(1) t(3)] by blast
  qed
qed

lemma is_connecting_iff: "is_connecting st \<longleftrightarrow> (\<exists>k. st = Some (Connecting k))"
  and is_established_iff: "is_established st \<longleftrightarrow> (\<exists>ctx. st = Some (Established ctx))"
  and is_closing_iff: "is_closing st \<longleftrightarrow> st = Some Closing"
  by (auto simp: is_connecting_def is_established_def is_closing_def split: option.splits ob_state.splits)

lemma ob_poll_connecting_step:
  fixes X :: "('r, 'k, 's) task_lib" and ss :: "('t, 'u) socket_set"
  assumes "ob_env N B T X L" and "ob_inv R config N L past self ss" and "order_spec ord"
  shows "\<exists>self' ss' rt' ready. ob_poll_connecting T X ord self ss rt = Inr (self', ss', rt', ready) \<and>
    ob_step R config N L past (self, ss) (self', ss') \<and>
    (\<forall>h. is_connecting (ob_states self h) \<longrightarrow> connect_edge T (ob_view h (self, ss)) (ob_view h (self', ss'))) \<and>
    (\<forall>h. \<not> is_connecting (ob_states self h) \<longrightarrow> ob_view h (self', ss') = ob_view h (self, ss))"
proof -
  let ?s = "(self, ss, rt, False)"
  have "\<exists>s'. fold_handles (poll_connecting_one T X)
        (filter (\<lambda>h. is_connecting (ob_states self h)) (ord (dom (ob_states self)))) ?s = Inr s' \<and>
      ob_step R config N L past (pr2 ?s) (pr2 s') \<and>
      (\<forall>h. ob_states (fst (pr2 ?s)) h \<noteq> None \<longrightarrow> is_connecting (ob_states (fst (pr2 ?s)) h) \<longrightarrow>
         connect_edge T (ob_view h (pr2 ?s)) (ob_view h (pr2 s'))) \<and>
      (\<forall>h. \<not> (ob_states (fst (pr2 ?s)) h \<noteq> None \<and> is_connecting (ob_states (fst (pr2 ?s)) h)) \<longrightarrow>
         ob_view h (pr2 s') = ob_view h (pr2 ?s))"
  proof (rule obt.loop_views [OF _ assms(3), where P = is_connecting])
    fix h and s :: "('k, 's) outbound_tcp \<times> ('t, 'u) socket_set \<times> 'r \<times> bool"
    assume "ob_inv R config N L past (fst (pr2 s)) (snd (pr2 s))" "is_connecting (ob_states (fst (pr2 s)) h)"
    then show "\<exists>s'. poll_connecting_one T X h s = Inr s' \<and> ob_handle_step R config N L past h (pr2 s) (pr2 s') \<and>
        connect_edge T (ob_view h (pr2 s)) (ob_view h (pr2 s'))"
      using poll_connecting_step [OF assms(1)] by (cases s) (fastforce simp: is_connecting_iff)
  qed (use assms(2) in simp_all)
  then show ?thesis by (auto simp: ob_poll_connecting_def is_connecting_iff)
qed

lemma ob_ready_total:
  assumes "ob_inv R config N L past self ss"
  shows "\<exists>b. fold_handles (ob_ready_one N' T self ss) hs ready = Inr b"
proof -
  have "\<exists>b. ob_ready_one N' T self ss h r = Inr b" for h r
  proof (cases "ob_states self h")
    case (Some st)
    from ob_inv_state [OF assms Some] obtain t where t: "get_tcp ss h = Inr t" by blast
    show ?thesis by (cases st) (simp_all add: ob_ready_one_def Some t)
  qed (simp add: ob_ready_one_def)
  then show ?thesis
    using fold_handles_inv [where I = "\<lambda>_. True" and f = "ob_ready_one N' T self ss" and hs = hs and s = ready] by simp
qed

lemma ob_poll_ready_step:
  assumes "ob_env N B T X L" and "ob_inv R config N L past self ss" and "order_spec ord1"
  shows "\<exists>self' ss' rt' ready. ob_poll_ready N T X ord1 ord2 self ss rt = Inr (self', ss', rt', ready) \<and>
    ob_step R config N L past (self, ss) (self', ss')"
proof -
  from ob_poll_connecting_step [OF assms, of rt] obtain self' ss' rt' ready where
    p: "ob_poll_connecting T X ord1 self ss rt = Inr (self', ss', rt', ready)"
      "ob_step R config N L past (self, ss) (self', ss')" by blast
  then have "ob_inv R config N L past self' ss'" by (simp add: owner_step_def)
  from ob_ready_total [OF this, of N T "ord2 (dom (ob_states self'))" ready] p show ?thesis
    by (auto simp: ob_poll_ready_def)
qed

lemma log_listeners_total:
  assumes "ob_inv R config N L past self ss"
  shows "log_listener_transitions ord self ss = Inr ()"
proof -
  let ?f = "\<lambda>h (u :: unit). case ob_states self h of
      Some (Listening created) \<Rightarrow> result_bind (get_tcp ss h) (\<lambda>sock. Inr ()) | _ \<Rightarrow> Inr ()"
  have "?f h u = Inr ()" for h u
  proof (cases "ob_states self h")
    case (Some st)
    from ob_inv_state [OF assms Some] obtain t where t: "get_tcp ss h = Inr t" by blast
    show ?thesis by (cases st) (simp_all add: Some t)
  qed simp
  then show ?thesis
    using fold_handles_inv [where I = "\<lambda>_. True" and f = ?f and hs = "ord (dom (ob_states self))" and s = "()"]
    by (simp add: log_listener_transitions_def)
qed

text \<open>
  A transfer: what went to the upstream is what left the application's socket, and the bytes on
  their way to the application stay in order and complete; the connection is still the same.
\<close>

definition flow ::
  "('s, 't, 'k) ob_logs \<Rightarrow> 's forward_context \<times> 't \<Rightarrow> 's forward_context \<times> 't \<Rightarrow> bool" where
  "flow L a b \<longleftrightarrow>
     (case (a, b) of ((ctx, t), (ctx', t')) \<Rightarrow>
        \<exists>up down.
          lg_sent L (inner (stream ctx')) = lg_sent L (inner (stream ctx)) @ up \<and>
          lg_removed L t' = lg_removed L t @ up \<and>
          lg_taken L (inner (stream ctx')) = lg_taken L (inner (stream ctx)) @ down \<and>
          lg_queued L t' @ proxy_to_app ctx' @ unread (stream ctx') =
            lg_queued L t @ proxy_to_app ctx @ unread (stream ctx) @ down \<and>
          (\<forall>e. lg_local L t = Some e \<longrightarrow> lg_local L t' = Some e))"

lemma flow_same:
  "stream ctx' = stream ctx \<Longrightarrow> proxy_to_app ctx' = proxy_to_app ctx \<Longrightarrow> lg_queued L t' = lg_queued L t \<Longrightarrow>
   lg_removed L t' = lg_removed L t \<Longrightarrow> (\<And>e. lg_local L t = Some e \<Longrightarrow> lg_local L t' = Some e) \<Longrightarrow>
   flow L (ctx, t) (ctx', t')"
  by (simp add: flow_def)

lemma flow_trans: "flow L a b \<Longrightarrow> flow L b c \<Longrightarrow> flow L a c"
proof -
  assume ab: "flow L a b" and bc: "flow L b c"
  obtain x t x1 t1 x2 t2 where abc: "a = (x, t)" "b = (x1, t1)" "c = (x2, t2)" by (cases a, cases b, cases c)
  from ab bc obtain u d u' d' where
    "lg_sent L (inner (stream x1)) = lg_sent L (inner (stream x)) @ u" "lg_removed L t1 = lg_removed L t @ u"
    "lg_taken L (inner (stream x1)) = lg_taken L (inner (stream x)) @ d"
    "lg_queued L t1 @ proxy_to_app x1 @ unread (stream x1) = lg_queued L t @ proxy_to_app x @ unread (stream x) @ d"
    "lg_sent L (inner (stream x2)) = lg_sent L (inner (stream x1)) @ u'" "lg_removed L t2 = lg_removed L t1 @ u'"
    "lg_taken L (inner (stream x2)) = lg_taken L (inner (stream x1)) @ d'"
    "lg_queued L t2 @ proxy_to_app x2 @ unread (stream x2) = (lg_queued L t1 @ proxy_to_app x1 @ unread (stream x1)) @ d'"
    "\<forall>e. lg_local L t = Some e \<longrightarrow> lg_local L t2 = Some e"
    unfolding flow_def abc by auto
  then show ?thesis by (auto simp: flow_def abc)
qed

lemma tunnel_flow: "tunnel R config N L past ctx t \<Longrightarrow> flow L (ctx, t) (ctx', t') \<Longrightarrow> tunnel R config N L past ctx' t'"
  unfolding tunnel_def flow_def using aimed_keep [of L past t _ t' past] by fastforce

lemma abort_if_logs:
  assumes "tcp_spec T queued removed"
  shows "queued (abort_if T c t) = queued t" "removed (abort_if T c t) = removed t"
  using tcp_specD(3,4) [OF assms] by (simp_all add: abort_if_def)

lemma abort_if_local: "conn_spec T loc \<Longrightarrow> loc t = Some e \<Longrightarrow> loc (abort_if T c t) = Some e"
  by (simp add: abort_if_def conn_specD(4))

lemma ob_upload_flow:
  assumes "ob_env N B T X L" and "ob_upload N T ctx t = (ctx', t')"
  shows "flow L (ctx, t) (ctx', t') \<and> proxy_to_app ctx' = proxy_to_app ctx"
proof (cases "t_may_recv T t \<and> t_can_recv T t")
  case False
  with assms(2) show ?thesis by (auto simp: ob_upload_def flow_same)
next
  case True
  obtain t1 s1 failed where r: "recv_to_stream N T t (inner (stream ctx)) = (t1, s1, failed)"
    by (cases "recv_to_stream N T t (inner (stream ctx))")
  with True assms(2) have eq: "ctx' = ctx\<lparr>stream := (stream ctx)\<lparr>inner := s1\<rparr>\<rparr>" "t' = abort_if T failed t1"
    by (auto simp: ob_upload_def)
  have "lg_local L t' = Some e" if "lg_local L t = Some e" for e
    unfolding eq using abort_if_local recv_to_stream_local r that ob_envD(6) [OF assms(1)] by metis
  with recv_to_stream_moves [OF ob_envD(1,3) [OF assms(1)] r] abort_if_logs [OF ob_envD(3) [OF assms(1)]]
  show ?thesis by (auto simp: eq flow_def unread_def)
qed

lemma ob_read_flow:
  assumes "ob_env N B T X L" and "ob_read_proxy N T ctx t = (ctx', t')" and "length (proxy_to_app ctx) \<le> TCP_BUF_SIZE"
  shows "flow L (ctx, t) (ctx', t') \<and> length (proxy_to_app ctx') \<le> TCP_BUF_SIZE"
proof (cases "proxy_read_state ctx = Open \<and> length (proxy_to_app ctx) < TCP_BUF_SIZE")
  case False
  with assms(2,3) show ?thesis by (auto simp: ob_read_proxy_def flow_same)
next
  case True
  obtain st r where r: "try_read N (stream ctx) (TCP_BUF_SIZE - length (proxy_to_app ctx)) = (st, r)" by fastforce
  note step = try_read_step [OF ob_envD(1) [OF assms(1)] r]
  note logs = tcp_specD(3,4) [OF ob_envD(3) [OF assms(1)]] conn_specD(4) [OF ob_envD(6) [OF assms(1)]]
  show ?thesis
  proof (cases r)
    case (Inl e)
    with step obtain got where "lg_taken L (inner st) = lg_taken L (inner (stream ctx)) @ got"
      "unread st = unread (stream ctx) @ got" "lg_sent L (inner st) = lg_sent L (inner (stream ctx))"
      by (auto simp: read_step_def)
    with True Inl r assms(2) logs show ?thesis
      by (cases e) (auto simp: ob_read_proxy_def flow_def)
  next
    case (Inr bs)
    with step obtain got where "lg_taken L (inner st) = lg_taken L (inner (stream ctx)) @ got"
      "bs @ unread st = unread (stream ctx) @ got" "lg_sent L (inner st) = lg_sent L (inner (stream ctx))"
      "length bs \<le> TCP_BUF_SIZE - length (proxy_to_app ctx)"
      by (auto simp: read_step_def)
    with True Inr r assms(2) show ?thesis
      by (cases "bs = []") (auto simp: ob_read_proxy_def flow_def)
  qed
qed

lemma ob_send_flow:
  assumes "ob_env N B T X L"
  shows "\<exists>ctx' t'. ob_send_app T ctx t = Inr (ctx', t') \<and> flow L (ctx, t) (ctx', t') \<and>
    length (proxy_to_app ctx') \<le> length (proxy_to_app ctx)"
proof -
  from send_front_moves [OF ob_envD(3) [OF assms], of t "proxy_to_app ctx"] obtain t1 buf failed where
    s: "send_front T t (proxy_to_app ctx) = Inr (t1, buf, failed)"
      "lg_queued L t1 @ buf = lg_queued L t @ proxy_to_app ctx" "lg_removed L t1 = lg_removed L t"
      "length buf \<le> length (proxy_to_app ctx)" by blast
  have "lg_queued L t1 @ buf @ x = lg_queued L t @ proxy_to_app ctx @ x" for x
    using s(2) by (metis append.assoc)
  moreover have "lg_local L (abort_if T failed t1) = Some e" if "lg_local L t = Some e" for e
    using abort_if_local send_front_local s(1) that ob_envD(6) [OF assms] by metis
  ultimately show ?thesis using s abort_if_logs [OF ob_envD(3) [OF assms]]
    by (auto simp: ob_send_app_def flow_def)
qed

lemma ob_finish_result:
  assumes "ob_env N B T X L" and "ob_finish T ctx t = (t', close)"
  shows "flow L (ctx, t) (ctx, t')"
    and "if close then t_state T t' = TClosed else t_may_recv T t' \<and> t_may_send T t'"
proof -
  note spec = ob_envD(3) [OF assms(1)]
  define t1 where
    "t1 = abort_if T (proxy_read_state ctx = Eof \<and> proxy_to_app ctx = [] \<and> t_send_queue T t = 0 \<and> t_may_send T t) t"
  have eq: "close = (\<not> t_may_recv T t1 \<or> \<not> t_may_send T t1)" "t' = abort_if T close t1"
    using assms(2) by (auto simp: ob_finish_def Let_def t1_def)
  have "lg_queued L t' = lg_queued L t" "lg_removed L t' = lg_removed L t"
    unfolding eq(2) t1_def using abort_if_logs [OF spec] by simp_all
  moreover have "lg_local L t' = Some e" if "lg_local L t = Some e" for e
    unfolding eq(2) t1_def using abort_if_local [OF ob_envD(6) [OF assms(1)]] that by simp
  ultimately show "flow L (ctx, t) (ctx, t')" by (simp add: flow_same)
  show "if close then t_state T t' = TClosed else t_may_recv T t' \<and> t_may_send T t'"
    using eq tcp_specD(6) [OF spec] by (simp add: abort_if_def)
qed

text \<open>
  One pass over a connection: it does not panic, it moves the bytes faithfully, it keeps the
  buffer within its bound, and it leaves the connection open in both directions or closed.
\<close>

lemma ob_shuttle_one_result:
  assumes env: "ob_env N B T X L" and len: "length (proxy_to_app ctx) \<le> TCP_BUF_SIZE"
  shows "\<exists>ctx' t' close. ob_shuttle_one N T ctx t = Inr (ctx', t', close) \<and> flow L (ctx, t) (ctx', t') \<and>
    length (proxy_to_app ctx') \<le> TCP_BUF_SIZE \<and>
    (if close then t_state T t' = TClosed else t_may_recv T t' \<and> t_may_send T t')"
proof -
  obtain c1 t1 where u: "ob_upload N T ctx t = (c1, t1)" by fastforce
  note u' = ob_upload_flow [OF env u]
  obtain c2 t2 where r: "ob_read_proxy N T c1 t1 = (c2, t2)" by fastforce
  have "length (proxy_to_app c1) \<le> TCP_BUF_SIZE" using u' len by simp
  note r' = ob_read_flow [OF env r this]
  from ob_send_flow [OF env, of c2 t2] obtain c3 t3 where
    s: "ob_send_app T c2 t2 = Inr (c3, t3)" "flow L (c2, t2) (c3, t3)" "length (proxy_to_app c3) \<le> TCP_BUF_SIZE"
    using r' by fastforce
  obtain t4 close where f: "ob_finish T c3 t3 = (t4, close)" by fastforce
  note f' = ob_finish_result [OF env f]
  have "ob_shuttle_one N T ctx t = Inr (c3, t4, close)"
    by (simp add: ob_shuttle_one_def u r s(1) f)
  moreover have "flow L (ctx, t) (c3, t4)"
    using u' r' s(2) f'(1) by (blast intro: flow_trans)
  ultimately show ?thesis using s(3) f'(2) by blast
qed

inductive shuttle_edge ::
  "('t, 'i) tcp_lib \<Rightarrow> ('s, 't, 'k) ob_logs \<Rightarrow> ('k, 's) ob_state option \<times> ('t, 'u) socket option \<Rightarrow>
   ('k, 's) ob_state option \<times> ('t, 'u) socket option \<Rightarrow> bool"
  for T L where
  se_open: "flow L (ctx, t) (ctx', t') \<Longrightarrow> t_may_recv T t' \<Longrightarrow> t_may_send T t' \<Longrightarrow>
    shuttle_edge T L (Some (Established ctx), Some (Tcp t)) (Some (Established ctx'), Some (Tcp t'))"
| se_closed: "flow L (ctx, t) (ctx', t') \<Longrightarrow> t_state T t' = TClosed \<Longrightarrow>
    shuttle_edge T L (Some (Established ctx), Some (Tcp t)) (Some Closing, Some (Tcp t'))"

lemma shuttle_handle_step:
  assumes env: "ob_env N B T X L" and inv: "ob_inv R config N L past self ss" and st: "ob_states self h = Some (Established ctx)"
  shows "\<exists>self' ss'. shuttle_handle N T h (self, ss) = Inr (self', ss') \<and>
    ob_handle_step R config N L past h (self, ss) (self', ss') \<and> shuttle_edge T L (ob_view h (self, ss)) (ob_view h (self', ss'))"
proof -
  from ob_inv_state [OF inv st] obtain t where
    t: "ss h = Some (Tcp t)" "get_tcp ss h = Inr t" "state_ok R config N L past (Established ctx) t" by blast
  then have tun: "tunnel R config N L past ctx t" and len: "length (proxy_to_app ctx) \<le> TCP_BUF_SIZE"
    by (simp_all add: state_ok_def)
  from ob_shuttle_one_result [OF env len] obtain ctx' t' close where
    r: "ob_shuttle_one N T ctx t = Inr (ctx', t', close)" "flow L (ctx, t) (ctx', t')"
      "length (proxy_to_app ctx') \<le> TCP_BUF_SIZE"
      "if close then t_state T t' = TClosed else t_may_recv T t' \<and> t_may_send T t'" by blast
  let ?st = "if close then Closing else Established ctx'"
  let ?s = "(set_state h ?st self, ss(h \<mapsto> Tcp t'))"
  have "shuttle_handle N T h (self, ss) = Inr ?s"
    by (simp add: shuttle_handle_def st t(2) r(1))
  moreover have ok: "state_ok R config N L past ?st t'"
    using tunnel_flow [OF tun r(2)] r(3) by (simp add: state_ok_def)
  have "ob_handle_step R config N L past h (self, ss) ?s"
    by (rule ob_handle_step_set [OF inv _ ok]) (simp add: st)
  moreover have "shuttle_edge T L (ob_view h (self, ss)) (ob_view h ?s)"
    using r(2,4) st t(1) by (auto simp: table_view_def intro: se_open se_closed)
  ultimately show ?thesis by blast
qed

lemma ob_shuttle_step:
  fixes N :: "'s net_lib" and ss :: "('t, 'u) socket_set" and self :: "('k, 's) outbound_tcp"
  assumes "ob_env N B T X L" and "ob_inv R config N L past self ss" and "order_spec ord"
  shows "\<exists>self' ss'. ob_shuttle_established N T ord self ss = Inr (self', ss') \<and>
    ob_step R config N L past (self, ss) (self', ss') \<and>
    (\<forall>h. is_established (ob_states self h) \<longrightarrow> shuttle_edge T L (ob_view h (self, ss)) (ob_view h (self', ss'))) \<and>
    (\<forall>h. \<not> is_established (ob_states self h) \<longrightarrow> ob_view h (self', ss') = ob_view h (self, ss))"
proof -
  let ?s = "(self, ss)"
  have "\<exists>s'. fold_handles (shuttle_handle N T)
        (filter (\<lambda>h. is_established (ob_states self h)) (ord (dom (ob_states self)))) ?s = Inr s' \<and>
      ob_step R config N L past (id ?s) (id s') \<and>
      (\<forall>h. ob_states (fst (id ?s)) h \<noteq> None \<longrightarrow> is_established (ob_states (fst (id ?s)) h) \<longrightarrow>
         shuttle_edge T L (ob_view h (id ?s)) (ob_view h (id s'))) \<and>
      (\<forall>h. \<not> (ob_states (fst (id ?s)) h \<noteq> None \<and> is_established (ob_states (fst (id ?s)) h)) \<longrightarrow>
         ob_view h (id s') = ob_view h (id ?s))"
  proof (rule obt.loop_views [OF _ assms(3), where P = is_established])
    fix h and s :: "('k, 's) outbound_tcp \<times> ('t, 'u) socket_set"
    assume "ob_inv R config N L past (fst (id s)) (snd (id s))" "is_established (ob_states (fst (id s)) h)"
    then show "\<exists>s'. shuttle_handle N T h s = Inr s' \<and> ob_handle_step R config N L past h (id s) (id s') \<and>
        shuttle_edge T L (ob_view h (id s)) (ob_view h (id s'))"
      using shuttle_handle_step [OF assms(1)] by (cases s) (fastforce simp: is_established_iff)
  qed (use assms(2) in simp_all)
  then show ?thesis by (auto simp: ob_shuttle_established_def is_established_iff)
qed

lemma ob_process_step:
  assumes "ob_env N B T X L" and "\<And>target. \<exists>p. proxy_for R config target = Inr p"
    and "ob_inv R config N L past self ss" and "order_spec ord2" and "order_spec ord3" and "dns_pool dns \<in> past"
  shows "\<exists>self' ss' rt'. ob_process N T X R ord1 ord2 ord3 now dns config self ss rt = Inr (self', ss', rt') \<and>
    ob_step R config N L past (self, ss) (self', ss')"
proof -
  from update_listeners_step [OF assms(1-4,6), of now rt] obtain self1 ss1 rt1 where
    l: "update_listeners T X R ord2 now dns config self ss rt = Inr (self1, ss1, rt1)"
      "ob_step R config N L past (self, ss) (self1, ss1)" by blast
  then have "ob_inv R config N L past self1 ss1" by (simp add: owner_step_def)
  from ob_shuttle_step [OF assms(1) this assms(5)] obtain self2 ss2 where
    s: "ob_shuttle_established N T ord3 self1 ss1 = Inr (self2, ss2)" "ob_step R config N L past (self1, ss1) (self2, ss2)"
    by blast
  have "ob_process N T X R ord1 ord2 ord3 now dns config self ss rt = Inr (self2, ss2, rt1)"
    by (simp add: ob_process_def log_listeners_total [OF assms(3)] l(1) s(1))
  with obt.step_trans [OF l(2) s(2)] show ?thesis by blast
qed

lemma cleanup_one_step:
  assumes inv: "ob_inv R config N L past self ss" and st: "ob_states self h = Some st"
  shows "\<exists>self' ss'. cleanup_one h (self, ss) = Inr (self', ss') \<and>
    ob_handle_step R config N L past h (self, ss) (self', ss') \<and> ob_view h (self', ss') = (None, None)"
proof -
  from ob_inv_state [OF inv st] obtain t where t: "ss h = Some (Tcp t)" by blast
  have h: "h \<in> dom (ob_states self)" using st by auto
  with inv have "h \<in> dom (handle_to_endpoint self)" by (simp add: ob_inv_def)
  then obtain e where e: "handle_to_endpoint self h = Some e" by blast
  let ?self = "\<lparr>ob_states = (ob_states self)(h := None), listening_endpoints = listening_endpoints self - {e},
    handle_to_endpoint = (handle_to_endpoint self)(h := None)\<rparr>"
  have eq: "cleanup_one h (self, ss) = Inr (?self, ss(h := None))"
    by (simp add: cleanup_one_def Let_def e ss_remove_def t)
  have "inj_on (handle_to_endpoint self) (dom (handle_to_endpoint self))" using inv unfolding ob_inv_def by blast
  note m = inj_on_del [OF this, of h] ran_del_inj [OF this e]
  have "ob_inv R config N L past ?self (ss(h := None))"
    using inv m unfolding ob_inv_def by auto
  moreover have "keeps_others (ob_handles self) ss (ob_handles ?self) (ss(h := None))"
    using h by (auto simp: keeps_others_def ob_handles_def)
  ultimately show ?thesis
    using eq by (simp add: handle_step_def owner_step_def table_view_def)
qed

lemma ob_cleanup_step:
  fixes N :: "'s net_lib" and ss :: "('t, 'u) socket_set" and self :: "('k, 's) outbound_tcp"
  assumes "ob_inv R config N L past self ss" and "order_spec ord"
  shows "\<exists>self' ss'. ob_cleanup ord self ss = Inr (self', ss') \<and>
    ob_step R config N L past (self, ss) (self', ss') \<and>
    (\<forall>h. ob_view h (self', ss') = (if ob_states self h = Some Closing then (None, None) else ob_view h (self, ss)))"
proof -
  let ?s = "(self, ss)"
  have "\<exists>s'. fold_handles cleanup_one
        (filter (\<lambda>h. is_closing (ob_states self h)) (ord (dom (ob_states self)))) ?s = Inr s' \<and>
      ob_step R config N L past (id ?s) (id s') \<and>
      (\<forall>h. ob_states (fst (id ?s)) h \<noteq> None \<longrightarrow> is_closing (ob_states (fst (id ?s)) h) \<longrightarrow>
         ob_view h (id s') = (None, None)) \<and>
      (\<forall>h. \<not> (ob_states (fst (id ?s)) h \<noteq> None \<and> is_closing (ob_states (fst (id ?s)) h)) \<longrightarrow>
         ob_view h (id s') = ob_view h (id ?s))"
  proof (rule obt.loop_views [OF _ assms(2), where P = is_closing and E = "\<lambda>h v v'. v' = (None, None)"])
    fix h and s :: "('k, 's) outbound_tcp \<times> ('t, 'u) socket_set"
    assume "ob_inv R config N L past (fst (id s)) (snd (id s))" "is_closing (ob_states (fst (id s)) h)"
    then show "\<exists>s'. cleanup_one h s = Inr s' \<and> ob_handle_step R config N L past h (id s) (id s') \<and>
        ob_view h (id s') = (None, None)"
      using cleanup_one_step by (cases s) (fastforce simp: is_closing_iff)
  qed (use assms(1) in simp_all)
  then show ?thesis by (fastforce simp: ob_cleanup_def is_closing_iff)
qed

text \<open>
  What inspecting packets does to the table: a socket that was there stays as it is, and a socket
  that is new listens, on the port of a request among the packets, under the endpoints of that
  request.
\<close>

definition listens_for ::
  "('t, 'i) tcp_lib \<Rightarrow> clock \<Rightarrow> handle \<Rightarrow> endpoint_key \<Rightarrow> ('k, 's) outbound_tcp \<times> ('t, 'u) socket_set \<Rightarrow> bool" where
  "listens_for T now h key s \<longleftrightarrow>
     (case (key, s) of ((src_ip, src_port, dst_ip, dst_port), (self, ss)) \<Rightarrow>
        handle_to_endpoint self h = Some key \<and> ob_states self h = Some (Listening (now h)) \<and>
        (\<exists>t. t_listen T (new_tcp_socket T) None dst_port = Some t \<and> ss h = Some (Tcp t)))"

definition syns_opened ::
  "('t, 'i) tcp_lib \<Rightarrow> clock \<Rightarrow> bytes list \<Rightarrow> ('k, 's) outbound_tcp \<times> ('t, 'u) socket_set \<Rightarrow>
   ('k, 's) outbound_tcp \<times> ('t, 'u) socket_set \<Rightarrow> bool" where
  "syns_opened T now packets s s' \<longleftrightarrow>
     (\<forall>h \<in> dom (snd s). ob_view h s' = ob_view h s \<and>
        handle_to_endpoint (fst s') h = handle_to_endpoint (fst s) h) \<and>
     (\<forall>h \<in> dom (snd s') - dom (snd s). \<exists>packet \<in> set packets. \<exists>key.
        parse_tcp_syn packet = Inr (Some key) \<and> listens_for T now h key s')"

lemma listens_for_view:
  assumes "listens_for T now h key s" and "ob_view h s' = ob_view h s"
    and "handle_to_endpoint (fst s') h = handle_to_endpoint (fst s) h"
  shows "listens_for T now h key s'"
  using assms by (auto simp: listens_for_def table_view_def split: prod.splits)

lemma opened_refl [simp]: "syns_opened T now packets s s"
  by (simp add: syns_opened_def)

lemma opened_kept:
  assumes "syns_opened T now packets s s'" and "h \<in> dom (snd s)"
  shows "ob_view h s' = ob_view h s" "handle_to_endpoint (fst s') h = handle_to_endpoint (fst s) h"
  using assms unfolding syns_opened_def by blast+

lemma opened_new:
  assumes "syns_opened T now packets s s'" and "h \<in> dom (snd s')" and "h \<notin> dom (snd s)"
  obtains packet key where "packet \<in> set packets" "parse_tcp_syn packet = Inr (Some key)" "listens_for T now h key s'"
  using assms unfolding syns_opened_def by blast

lemma opened_trans:
  assumes a: "syns_opened T now packets s s1" and b: "syns_opened T now packets' s1 s2" and sub: "dom (snd s) \<subseteq> dom (snd s1)"
  shows "syns_opened T now (packets @ packets') s s2"
  unfolding syns_opened_def
proof (intro conjI ballI)
  fix h assume h: "h \<in> dom (snd s)"
  then have h1: "h \<in> dom (snd s1)" using sub by blast
  show "ob_view h s2 = ob_view h s" using opened_kept(1) [OF a h] opened_kept(1) [OF b h1] by simp
  show "handle_to_endpoint (fst s2) h = handle_to_endpoint (fst s) h"
    using opened_kept(2) [OF a h] opened_kept(2) [OF b h1] by simp
next
  fix h assume h: "h \<in> dom (snd s2) - dom (snd s)"
  show "\<exists>packet \<in> set (packets @ packets'). \<exists>key. parse_tcp_syn packet = Inr (Some key) \<and> listens_for T now h key s2"
  proof (cases "h \<in> dom (snd s1)")
    case True
    obtain packet key where
      p: "packet \<in> set packets" "parse_tcp_syn packet = Inr (Some key)" "listens_for T now h key s1"
      using opened_new [OF a True] h by blast
    from listens_for_view [OF p(3) opened_kept [OF b True]] p(1,2) show ?thesis unfolding set_append by blast
  next
    case False
    obtain packet key where
      "packet \<in> set packets'" "parse_tcp_syn packet = Inr (Some key)" "listens_for T now h key s2"
      using opened_new [OF b _ False] h by blast
    then show ?thesis unfolding set_append by blast
  qed
qed

lemma observe_syn_opened:
  assumes "alloc_spec alloc" and "finite (dom ss)" and "observe_syn T alloc now packet (self, ss) = Inr (self', ss')"
  shows "syns_opened T now [packet] (self, ss) (self', ss') \<and> dom ss \<subseteq> dom ss' \<and> finite (dom ss')"
proof (cases "(self', ss') = (self, ss)")
  case True
  with assms(2) show ?thesis by simp
next
  case False
  from parse_tcp_syn_total obtain syn where syn: "parse_tcp_syn packet = Inr syn" by blast
  with False assms(3) obtain a b c p t where t: "syn = Some (a, b, c, p)" "t_listen T (new_tcp_socket T) None p = Some t"
    and s': "self' = \<lparr>ob_states = (ob_states self)(alloc ss \<mapsto> Listening (now (alloc ss))),
        listening_endpoints = insert (a, b, c, p) (listening_endpoints self),
        handle_to_endpoint = (handle_to_endpoint self)(alloc ss \<mapsto> (a, b, c, p))\<rparr>" "ss' = ss(alloc ss \<mapsto> Tcp t)"
    by (auto simp: observe_syn_def Let_def ss_add_def split: if_splits option.splits)
  have "alloc ss \<notin> dom ss" using assms(1,2) by (simp add: alloc_spec_def)
  with syn t s' assms(2) show ?thesis by (auto simp: syns_opened_def listens_for_def table_view_def)
qed

lemma observe_syns_opened:
  assumes "alloc_spec alloc"
  shows "fold_handles (observe_syn T alloc now) packets (self, ss) = Inr (self', ss') \<Longrightarrow> finite (dom ss) \<Longrightarrow>
    syns_opened T now packets (self, ss) (self', ss')"
proof (induction packets arbitrary: self ss)
  case (Cons packet packets)
  then obtain self1 ss1 where s: "observe_syn T alloc now packet (self, ss) = Inr (self1, ss1)"
    "fold_handles (observe_syn T alloc now) packets (self1, ss1) = Inr (self', ss')"
    by (auto simp: result_bind_Inr_iff)
  note o = observe_syn_opened [OF assms Cons.prems(2) s(1)]
  from opened_trans [of T now "[packet]" "(self, ss)" "(self1, ss1)" packets "(self', ss')"] o Cons.IH [OF s(2)]
  show ?case by simp
qed simp

text \<open>Requests and listeners: the set of known endpoints only grows, and takes every request in.\<close>

lemma observe_syn_endpoints:
  assumes "observe_syn T alloc now packet (self, ss) = Inr (self', ss')"
  shows "listening_endpoints self \<subseteq> listening_endpoints self'"
    and "parse_tcp_syn packet = Inr (Some (a, b, c, p)) \<Longrightarrow> t_listen T (new_tcp_socket T) None p \<noteq> None \<Longrightarrow>
      (a, b, c, p) \<in> listening_endpoints self'"
proof -
  obtain syn where syn: "parse_tcp_syn packet = Inr syn" using parse_tcp_syn_total by blast
  show "listening_endpoints self \<subseteq> listening_endpoints self'"
    using assms syn by (cases syn) (auto simp: observe_syn_def Let_def ss_add_def split: if_splits option.splits)
  show "(a, b, c, p) \<in> listening_endpoints self'"
    if "parse_tcp_syn packet = Inr (Some (a, b, c, p))" "t_listen T (new_tcp_socket T) None p \<noteq> None"
    using assms that by (auto simp: observe_syn_def Let_def ss_add_def split: if_splits option.splits)
qed

lemma observe_syns_endpoints:
  assumes "fold_handles (observe_syn T alloc now) packets (self, ss) = Inr (self', ss')"
  shows "listening_endpoints self \<subseteq> listening_endpoints self' \<and>
    (\<forall>packet \<in> set packets. \<forall>a b c p. parse_tcp_syn packet = Inr (Some (a, b, c, p)) \<longrightarrow>
       t_listen T (new_tcp_socket T) None p \<noteq> None \<longrightarrow> (a, b, c, p) \<in> listening_endpoints self')"
  using assms
proof (induction packets arbitrary: self ss)
  case (Cons packet packets)
  then obtain self1 ss1 where s: "observe_syn T alloc now packet (self, ss) = Inr (self1, ss1)"
    "fold_handles (observe_syn T alloc now) packets (self1, ss1) = Inr (self', ss')"
    by (auto simp: result_bind_Inr_iff)
  note IH = Cons.IH [OF s(2)]
  note e = observe_syn_endpoints [OF s(1)]
  show ?case
  proof (intro conjI ballI allI impI)
    show "listening_endpoints self \<subseteq> listening_endpoints self'" using IH e(1) by blast
    fix q a b c p
    assume q: "q \<in> set (packet # packets)" "parse_tcp_syn q = Inr (Some (a, b, c, p))"
      "t_listen T (new_tcp_socket T) None p \<noteq> None"
    show "(a, b, c, p) \<in> listening_endpoints self'"
    proof (cases "q = packet")
      case True
      with q e(2) [of a b c p] IH show ?thesis by blast
    next
      case False
      with q IH show ?thesis by simp
    qed
  qed
qed simp

lemma ob_inv_known:
  assumes "ob_inv R config N L past self ss" and "handle_to_endpoint self h = Some key"
  shows "h \<in> dom ss" "key \<in> listening_endpoints self"
proof -
  have "dom (handle_to_endpoint self) = ob_handles self" using assms(1) by (simp add: ob_inv_def ob_handles_def)
  with ob.handles_live [OF assms(1)] assms(2) show "h \<in> dom ss" by blast
  show "key \<in> listening_endpoints self" using assms by (auto simp: ob_inv_def ran_def)
qed

lemma ob_inv_endpoint:
  assumes "ob_inv R config N L past self ss" and "key \<in> listening_endpoints self"
  shows "\<exists>!h. handle_to_endpoint self h = Some key"
proof -
  from assms obtain h where h: "handle_to_endpoint self h = Some key" by (auto simp: ob_inv_def ran_def)
  have "inj_on (handle_to_endpoint self) (dom (handle_to_endpoint self))" using assms(1) unfolding ob_inv_def by blast
  then have "k = h" if "handle_to_endpoint self k = Some key" for k
    using that h by (metis domI inj_onD)
  with h show ?thesis by blast
qed

lemma opened_listener:
  assumes inv: "ob_inv R config N L past self ss" and inv': "ob_inv R config N L past self' ss'"
    and op: "syns_opened T now packets (self, ss) (self', ss')" and h: "handle_to_endpoint self' h = Some key"
  shows "if key \<in> listening_endpoints self
    then handle_to_endpoint self h = Some key \<and> ob_view h (self', ss') = ob_view h (self, ss)
    else h \<notin> dom ss \<and> listens_for T now h key (self', ss')"
proof (cases "h \<in> dom ss")
  case True
  with op h have "handle_to_endpoint self h = Some key" "ob_view h (self', ss') = ob_view h (self, ss)"
    by (simp_all add: syns_opened_def)
  with ob_inv_known [OF inv] show ?thesis by simp
next
  case False
  with ob_inv_known(1) [OF inv' h] have "h \<in> dom (snd (self', ss')) - dom (snd (self, ss))" by simp
  with op obtain key' where "listens_for T now h key' (self', ss')" unfolding syns_opened_def by blast
  moreover from this h have "key' = key" by (auto simp: listens_for_def)
  moreover have "key \<notin> listening_endpoints self"
  proof
    assume "key \<in> listening_endpoints self"
    from ob_inv_endpoint [OF inv this] obtain k where k: "handle_to_endpoint self k = Some key" by blast
    with op ob_inv_known(1) [OF inv k] have "handle_to_endpoint self' k = Some key" by (simp add: syns_opened_def)
    with ob_inv_endpoint [OF inv' ob_inv_known(2) [OF inv' h]] h have "k = h" by blast
    with False ob_inv_known(1) [OF inv k] show False by simp
  qed
  ultimately show ?thesis using False by simp
qed

section \<open>An environment for examples\<close>

text \<open>Tasks that have finished as soon as they are polled.\<close>

definition eager_tasks :: "bytes \<Rightarrow> (unit, proxy_config \<times> proxy_target, script) task_lib" where
  "eager_tasks input = \<lparr>
     spawn_connect = (\<lambda>rt p t. (rt, (p, t))),
     task_poll = (\<lambda>rt (p, t). (rt, Ready (Inr (snd (connect 0 p (script_lib input) script_buf t []))))),
     task_abort = (\<lambda>rt k. rt)\<rparr>"

definition sample_logs :: "(script, pipe, proxy_config \<times> proxy_target) ob_logs" where
  "sample_logs = \<lparr>lg_sent = script_sent, lg_taken = script_taken, lg_queued = pipe_queued,
     lg_removed = pipe_removed, lg_local = pipe_conn, lg_job = id\<rparr>"

lemma sample_env: "ob_env (script_lib input) script_buf pipe_tcp (eager_tasks input) sample_logs"
proof -
  have "task_spec (eager_tasks input) (script_lib input) script_buf id"
    unfolding task_spec_def
  proof (intro conjI allI impI)
    fix rt rt' and k :: "proxy_config \<times> proxy_target" and ps
    assume "task_poll (eager_tasks input) rt k = (rt', Ready (Inr (Inr ps)))"
    then have "snd (connect 0 (fst k) (script_lib input) script_buf (snd k) []) = Inr ps"
      by (cases k) (simp add: eager_tasks_def)
    then show "\<exists>took dialled dialled'. connect took (fst (id k)) (script_lib input) script_buf (snd (id k)) dialled = (dialled', Inr ps)"
      by (metis id_apply prod.collapse)
  qed (simp add: eager_tasks_def)
  then show ?thesis
    by (simp add: ob_env_def sample_logs_def script_lib_spec script_buf_spec pipe_tcp_spec pipe_fresh_spec pipe_conn_spec)
qed

definition sample_pipe :: "tcp_state \<Rightarrow> bytes \<Rightarrow> pipe" where
  "sample_pipe st input =
     \<lparr>pipe_state = st, pipe_in = input, pipe_queued = [], pipe_removed = [], pipe_local = Some (ipv4_new 1 2 3 4, 80)\<rparr>"

type_synonym sample_state = "(proxy_config \<times> proxy_target, script) ob_state"

definition sample_outbound :: "sample_state \<Rightarrow> (proxy_config \<times> proxy_target, script) outbound_tcp" where
  "sample_outbound st = \<lparr>ob_states = [7 \<mapsto> st], listening_endpoints = {(1, 2, 3, 4)}, handle_to_endpoint = [7 \<mapsto> (1, 2, 3, 4)]\<rparr>"

definition sample_sockets :: "pipe \<Rightarrow> (pipe, unit) socket_set" where
  "sample_sockets t = [7 \<mapsto> Tcp t]"

lemma sample_state [simp]: "ob_states (sample_outbound st) 7 = Some st" "sample_sockets t 7 = Some (Tcp t)"
  by (simp_all add: sample_outbound_def sample_sockets_def)

lemma sample_inv:
  "state_ok R config N L past st t \<Longrightarrow> ob_inv R config N L past (sample_outbound st) (sample_sockets t)"
  by (auto simp: ob_inv_def sample_outbound_def sample_sockets_def ran_def split: if_splits)

section \<open>Properties\<close>

text \<open>
  C9. No connection request is missed and none is served twice: after the queue of packets has been
  inspected, every request in it whose port the stack can listen on has exactly one socket. If no
  socket was known for the endpoints of the request, it is a new one that listens on the port of
  the request; if one was known, as for a request that is repeated, that socket is left as it was,
  whatever its state. No other socket is added or changed, and all bookkeeping is consistent.
\<close>

theorem syns_have_one_listener:
  assumes "ob_env N B T X L" and "alloc_spec alloc" and "ob_inv R config N L past self ss" and "finite (dom ss)"
  shows "\<exists>self' ss'. observe_syns T alloc now device self ss = Inr (self', ss') \<and> ob_inv R config N L past self' ss' \<and>
    syns_opened T now (rx_queue device) (self, ss) (self', ss') \<and>
    (\<forall>packet \<in> set (rx_queue device). \<forall>a b c p. parse_tcp_syn packet = Inr (Some (a, b, c, p)) \<longrightarrow>
       t_listen T (new_tcp_socket T) None p \<noteq> None \<longrightarrow>
       (\<exists>!h. handle_to_endpoint self' h = Some (a, b, c, p)) \<and>
       (\<forall>h. handle_to_endpoint self' h = Some (a, b, c, p) \<longrightarrow>
          (if (a, b, c, p) \<in> listening_endpoints self
           then handle_to_endpoint self h = Some (a, b, c, p) \<and> ob_view h (self', ss') = ob_view h (self, ss)
           else h \<notin> dom ss \<and> listens_for T now h (a, b, c, p) (self', ss'))))"
proof -
  from observe_syns_step [OF assms, of now device] obtain self' ss' where
    o: "observe_syns T alloc now device self ss = Inr (self', ss')" "ob_inv R config N L past self' ss'"
    by (auto simp: owner_step_def)
  note op = observe_syns_opened [OF assms(2) o(1) [unfolded observe_syns_def] assms(4)]
  have one: "\<exists>!h. handle_to_endpoint self' h = Some (a, b, c, p)"
    if "packet \<in> set (rx_queue device)" "parse_tcp_syn packet = Inr (Some (a, b, c, p))"
      "t_listen T (new_tcp_socket T) None p \<noteq> None" for packet a b c p
    using ob_inv_endpoint [OF o(2)] observe_syns_endpoints [OF o(1) [unfolded observe_syns_def]] that by blast
  have "if key \<in> listening_endpoints self
      then handle_to_endpoint self h = Some key \<and> ob_view h (self', ss') = ob_view h (self, ss)
      else h \<notin> dom ss \<and> listens_for T now h key (self', ss')"
    if h: "handle_to_endpoint self' h = Some key" for h key
    using opened_listener [OF assms(3) o(2) op h] .
  with o op one show ?thesis by blast
qed

text \<open>
  C8. The life of a listener: in one pass every listening socket whose handshake is complete becomes
  an upstream connection through the route that the rules give for its target, where the target
  is the name behind the address if the address is a fake one; a socket that was closed or that
  exceeded the handshake's time is scheduled for removal; the others wait. Nothing panics.
\<close>

theorem listeners_follow_rules:
  assumes "ob_env N B T X L" and "regex_set_spec R is_match" and "built_from R rs config"
    and "ob_inv R config N L past self ss" and "order_spec ord"
  shows "\<exists>self' ss' rt'. update_listeners T X R ord now dns config self ss rt = Inr (self', ss', rt') \<and>
    ob_inv R config N L (insert (dns_pool dns) past) self' ss' \<and>
    (\<forall>h. ob_states self h \<noteq> None \<longrightarrow>
       listener_edge T R config dns (lg_job L) now h (ob_view h (self, ss)) (ob_view h (self', ss'))) \<and>
    (\<forall>h. ob_states self h = None \<longrightarrow> ob_view h (self', ss') = ob_view h (self, ss))"
  using update_listeners_step [OF assms(1) proxy_for_no_panic [OF assms(2,3)]
      ob_inv_mono [OF assms(4) subset_insertI] assms(5) insertI1, of now dns rt]
  by (auto simp: owner_step_def)

text \<open>
  Shuttling is faithful: one pass over the forwarded connections panics on none of them; what
  the upstream is given is exactly what is removed from the application's socket; the bytes on
  their way to the application stay complete and in order; afterwards each connection is either
  usable in both directions or closed and scheduled for removal; no other connection is touched.
\<close>

lemma shuttle_faithful:
  assumes "ob_env N B T X L" and "ob_inv R config N L past self ss" and "order_spec ord"
  shows "\<exists>self' ss'. ob_shuttle_established N T ord self ss = Inr (self', ss') \<and> ob_inv R config N L past self' ss' \<and>
    (\<forall>h. is_established (ob_states self h) \<longrightarrow> shuttle_edge T L (ob_view h (self, ss)) (ob_view h (self', ss'))) \<and>
    (\<forall>h. \<not> is_established (ob_states self h) \<longrightarrow> ob_view h (self', ss') = ob_view h (self, ss))"
  using ob_shuttle_step [OF assms] by (auto simp: owner_step_def)

section \<open>Witnesses\<close>

definition sample_syn :: bytes where
  "sample_syn = [0x45, 0, 0, 40, 0, 0, 0, 0, 64, 6, 0, 0, 10, 0, 0, 1, 1, 2, 3, 4, 0x30, 0x39, 0, 80,
     0, 0, 0, 0, 0, 0, 0, 0, 0x50, 2, 0, 0, 0, 0, 0, 0]"

lemma sample_syn_parse:
  "parse_tcp_syn sample_syn = Inr (Some (ipv4_new 10 0 0 1, 12345, ipv4_new 1 2 3 4, 80))"
  by code_simp

theorem syns_have_one_listener_witness:
  "\<exists>self' ss'. observe_syns pipe_tcp least_alloc (\<lambda>h. 0) \<lparr>fd = 3, rx_queue = [sample_syn, sample_syn]\<rparr>
       (ob_new :: (proxy_config \<times> proxy_target, script) outbound_tcp) (Map.empty :: (pipe, unit) socket_set) = Inr (self', ss') \<and>
     (\<exists>!h. handle_to_endpoint self' h = Some (ipv4_new 10 0 0 1, 12345, ipv4_new 1 2 3 4, 80)) \<and>
     (\<exists>h. listens_for pipe_tcp (\<lambda>h. 0) h (ipv4_new 10 0 0 1, 12345, ipv4_new 1 2 3 4, 80) (self', ss'))"
proof -
  have "t_listen pipe_tcp (new_tcp_socket pipe_tcp) None 80 \<noteq> None" by (simp add: pipe_tcp_def)
  moreover have "finite (dom (Map.empty :: (pipe, unit) socket_set))" by simp
  from syns_have_one_listener [OF sample_env [of "[]"] least_alloc_spec
      ob_inv_new [of literal_lib plain_config "script_lib []" sample_logs "{}"] this,
      of "\<lambda>h. 0" "\<lparr>fd = 3, rx_queue = [sample_syn, sample_syn]\<rparr>"]
  obtain self' :: "(proxy_config \<times> proxy_target, script) outbound_tcp" and ss' :: "(pipe, unit) socket_set" where
    "observe_syns pipe_tcp least_alloc (\<lambda>h. 0) \<lparr>fd = 3, rx_queue = [sample_syn, sample_syn]\<rparr> ob_new Map.empty = Inr (self', ss')"
    "\<forall>a b c p. parse_tcp_syn sample_syn = Inr (Some (a, b, c, p)) \<longrightarrow>
       t_listen pipe_tcp (new_tcp_socket pipe_tcp) None p \<noteq> None \<longrightarrow>
       (\<exists>!h. handle_to_endpoint self' h = Some (a, b, c, p)) \<and>
       (\<forall>h. handle_to_endpoint self' h = Some (a, b, c, p) \<longrightarrow> listens_for pipe_tcp (\<lambda>h. 0) h (a, b, c, p) (self', ss'))"
    by (auto simp: ob_new_def)
  ultimately show ?thesis using sample_syn_parse by blast
qed

theorem listeners_follow_rules_witness:
  "\<exists>self' ss' rt'. update_listeners pipe_tcp (eager_tasks []) literal_lib sorted_list_of_set (\<lambda>h. 0)
       \<lparr>dns_handle = 0, dns_pool = new\<rparr> plain_config (sample_outbound (Listening 0))
       (sample_sockets (sample_pipe TEstablished [])) () = Inr (self', ss', rt') \<and>
     (\<exists>route. ob_states self' 7 = Some (Connecting (route, Ip (V4 (ipv4_new 1 2 3 4)) 80)))"
proof -
  let ?ss = "sample_sockets (sample_pipe TEstablished [])"
  let ?self = "sample_outbound (Listening 0)"
  let ?dns = "\<lparr>dns_handle = 0, dns_pool = new\<rparr>"
  have inv: "ob_inv literal_lib plain_config (script_lib []) sample_logs {} ?self ?ss"
    by (rule sample_inv) (simp add: state_ok_def sample_logs_def sample_pipe_def)
  from listeners_follow_rules [OF sample_env literal_lib_set plain_config_built inv sorted_order, of "\<lambda>h. 0" ?dns "()"]
  obtain self' ss' rt' where
    u: "update_listeners pipe_tcp (eager_tasks []) literal_lib sorted_list_of_set (\<lambda>h. 0) ?dns plain_config ?self ?ss () = Inr (self', ss', rt')"
    and e: "listener_edge pipe_tcp literal_lib plain_config ?dns (lg_job sample_logs) (\<lambda>h. 0) 7
      (ob_view 7 (?self, ?ss)) (ob_view 7 (self', ss'))"
    by (auto simp: sample_outbound_def)
  have v: "ob_view 7 (?self, ?ss) = (Some (Listening 0), Some (Tcp (sample_pipe TEstablished [])))"
    by (simp add: table_view_def sample_outbound_def)
  have "target_for ?dns (ipv4_new 1 2 3 4) 80 = Ip (V4 (ipv4_new 1 2 3 4)) 80"
    by (simp add: target_for_def new_def lookup_def)
  with e show ?thesis
    unfolding v using u
    by cases (auto simp: sample_pipe_def pipe_tcp_def sample_logs_def table_view_def)
qed

text \<open>
  A client that half-closes loses the rest of the response: once the application has shut down
  its sending side and everything it sent was forwarded, the next pass aborts the connection,
  although the upstream is still open (\<open>Open\<close>) and has more bytes to send.
\<close>

lemma half_close_discards_response:
  "\<exists>ctx t. ob_shuttle_one (script_lib [1, 2, 3]) pipe_tcp
       \<lparr>stream = proxy_stream_new \<lparr>script_in = replicate 65537 1, script_sent = [], script_taken = []\<rparr> [],
         proxy_to_app = [], proxy_read_state = Open\<rparr> (sample_pipe TCloseWait []) = Inr (ctx, t, True) \<and>
     proxy_read_state ctx = Open \<and> script_in (inner (stream ctx)) = [1] \<and> t_state pipe_tcp t = TClosed"
proof -
  let ?s = "\<lparr>script_in = replicate 65537 (1 :: u8), script_sent = [], script_taken = []\<rparr>"
  have r: "take 65536 (replicate 65537 (1 :: u8)) = replicate 65536 1" "drop 65536 (replicate 65537 (1 :: u8)) = [1]"
    "replicate 65536 (1 :: u8) \<noteq> []"
    by (simp_all add: take_replicate drop_replicate)
  show ?thesis
    by (simp add: ob_shuttle_one_def ob_upload_def ob_read_proxy_def ob_send_app_def ob_finish_def send_front_def
        pipe_tcp_def sample_pipe_def pipe_open_def abort_if_def try_read_def has_buffered_data_def proxy_stream_new_def
        script_lib_def script_take_def TCP_BUF_SIZE_def drain_front_def Let_def r del: take_replicate drop_replicate)
qed

end
