(* ===== verification/Port_Allocator.thy ===== *)
theory Port_Allocator
  imports Prelude
begin

text \<open>
  The allocator of source ports of \<open>src/src/event_loop/published.rs\<close>: a cursor over the ephemeral
  range and the set of ports in use. The interface its client relies on is the locale
  \<open>port_pool\<close>: a port is handed out only while it is free, and one is handed out whenever there is
  one left.
\<close>

definition PORT_MIN :: u16 where "PORT_MIN = 49152"
definition PORT_MAX :: u16 where "PORT_MAX = 65535"

record port_allocator =
  next_port :: u16
  used :: "u16 set"

definition allocator_new :: port_allocator where
  "allocator_new = \<lparr>next_port = PORT_MIN, used = {}\<rparr>"

definition advance :: "u16 \<Rightarrow> u16" where
  "advance candidate = (if candidate = PORT_MAX then PORT_MIN else candidate + 1)"

primrec allocate_loop :: "nat \<Rightarrow> port_allocator \<Rightarrow> port_allocator \<times> u16 option" where
  "allocate_loop 0 self = (self, None)"
| "allocate_loop (Suc n) self =
     (let candidate = next_port self; self = self\<lparr>next_port := advance candidate\<rparr>
      in if candidate \<notin> used self then (self\<lparr>used := insert candidate (used self)\<rparr>, Some candidate)
         else allocate_loop n self)"

definition allocate :: "port_allocator \<Rightarrow> port_allocator \<times> u16 option" where
  "allocate self = (let capacity = unat (PORT_MAX - PORT_MIN) + 1 in allocate_loop capacity self)"

definition release :: "port_allocator \<Rightarrow> u16 \<Rightarrow> port_allocator" where
  "release self port = self\<lparr>used := used self - {port}\<rparr>"

section \<open>The range\<close>

definition pool_ports :: "u16 set" where
  "pool_ports = {p. PORT_MIN \<le> p \<and> p \<le> PORT_MAX}"

definition allocator_inv :: "port_allocator \<Rightarrow> bool" where
  "allocator_inv self \<longleftrightarrow> next_port self \<in> pool_ports \<and> used self \<subseteq> pool_ports"

text \<open>The port \<open>i\<close> steps behind the cursor.\<close>

definition nth_port :: "u16 \<Rightarrow> nat \<Rightarrow> u16" where
  "nth_port p i = (advance ^^ i) p"

definition port_index :: "u16 \<Rightarrow> nat" where
  "port_index p = unat p - 49152"

lemma pool_ports_iff: "p \<in> pool_ports \<longleftrightarrow> 49152 \<le> unat p"
  using unsigned_less [of p, where ?'a = nat]
  by (auto simp: pool_ports_def PORT_MIN_def PORT_MAX_def word_le_nat_alt)

lemma advance_pool: "p \<in> pool_ports \<Longrightarrow> advance p \<in> pool_ports"
  and advance_index: "p \<in> pool_ports \<Longrightarrow> port_index (advance p) = (port_index p + 1) mod 16384"
proof -
  assume p: "p \<in> pool_ports"
  have lt: "unat p < 65536" using unsigned_less [of p, where ?'a = nat] by simp
  have "advance p \<in> pool_ports \<and> port_index (advance p) = (port_index p + 1) mod 16384"
  proof (cases "p = PORT_MAX")
    case True
    then show ?thesis
      by (simp add: advance_def pool_ports_iff port_index_def PORT_MIN_def PORT_MAX_def)
  next
    case False
    have ne: "unat p \<noteq> 65535"
    proof
      assume "unat p = 65535"
      then have "p = PORT_MAX" by (simp add: word_eq_iff_unsigned [where ?'a = nat] PORT_MAX_def)
      with False show False ..
    qed
    have "unat (p + 1) = unat p + 1"
      using lt ne by (simp add: unat_word_ariths)
    with False p lt ne show ?thesis
      by (simp add: advance_def pool_ports_iff port_index_def)
  qed
  then show "advance p \<in> pool_ports" "port_index (advance p) = (port_index p + 1) mod 16384" by auto
qed

lemma nth_port_pool: "p \<in> pool_ports \<Longrightarrow> nth_port p i \<in> pool_ports"
  by (induction i) (auto simp: nth_port_def advance_pool)

lemma nth_port_index: "p \<in> pool_ports \<Longrightarrow> port_index (nth_port p i) = (port_index p + i) mod 16384"
proof (induction i)
  case 0
  then show ?case
    using unsigned_less [of p, where ?'a = nat] by (simp add: nth_port_def port_index_def pool_ports_iff)
next
  case (Suc i)
  then have "port_index (nth_port p (Suc i)) = (port_index (nth_port p i) + 1) mod 16384"
    using advance_index [OF nth_port_pool] by (simp add: nth_port_def)
  with Suc show ?case by (simp add: mod_Suc_eq)
qed

lemma port_index_inject:
  "p \<in> pool_ports \<Longrightarrow> q \<in> pool_ports \<Longrightarrow> port_index p = port_index q \<Longrightarrow> p = q"
  by (simp add: pool_ports_iff port_index_def word_eq_iff_unsigned [where ?'a = nat])

lemma nth_port_surj:
  assumes "p \<in> pool_ports" and "q \<in> pool_ports"
  shows "\<exists>i < 16384. nth_port p i = q"
proof -
  define i where "i = (port_index q + (16384 - port_index p)) mod 16384"
  have lt: "port_index p < 16384" "port_index q < 16384"
    using unsigned_less [of p, where ?'a = nat] unsigned_less [of q, where ?'a = nat] assms
    by (simp_all add: port_index_def pool_ports_iff)
  have "port_index (nth_port p i) = (port_index p + (port_index q + (16384 - port_index p))) mod 16384"
    by (simp add: nth_port_index [OF assms(1)] i_def mod_simps)
  also have "port_index p + (port_index q + (16384 - port_index p)) = port_index q + 16384"
    using lt by simp
  finally have "port_index (nth_port p i) = port_index q" using lt by simp
  with assms nth_port_pool port_index_inject have "nth_port p i = q" by blast
  moreover have "i < 16384" by (simp add: i_def)
  ultimately show ?thesis by blast
qed

section \<open>The loop\<close>

lemma allocate_loop_Some:
  "allocate_loop n self = (self', Some p) \<Longrightarrow>
     p \<notin> used self \<and> used self' = insert p (used self) \<and>
     (\<exists>i < n. p = nth_port (next_port self) i \<and> next_port self' = advance p)"
proof (induction n arbitrary: self)
  case (Suc n)
  show ?case
  proof (cases "next_port self \<in> used self")
    case True
    with Suc.prems have "allocate_loop n (self\<lparr>next_port := advance (next_port self)\<rparr>) = (self', Some p)"
      by (simp add: Let_def)
    from Suc.IH [OF this] obtain i where i: "i < n" "p = nth_port (advance (next_port self)) i"
      "p \<notin> used self" "used self' = insert p (used self)" "next_port self' = advance p" by auto
    then have "p = nth_port (next_port self) (Suc i)"
      by (simp add: nth_port_def funpow_Suc_right del: funpow.simps)
    with i show ?thesis by blast
  next
    case False
    with Suc.prems show ?thesis
      by (auto simp: Let_def nth_port_def intro!: exI [of _ 0])
  qed
qed simp

lemma allocate_loop_None:
  "allocate_loop n self = (self', None) \<Longrightarrow>
     used self' = used self \<and> next_port self' = nth_port (next_port self) n \<and>
     (\<forall>i < n. nth_port (next_port self) i \<in> used self)"
proof (induction n arbitrary: self)
  case (Suc n)
  then have u: "next_port self \<in> used self"
    and "allocate_loop n (self\<lparr>next_port := advance (next_port self)\<rparr>) = (self', None)"
    by (auto simp: Let_def split: if_splits)
  from Suc.IH [OF this(2)] have IH: "used self' = used self"
    "next_port self' = nth_port (next_port self) (Suc n)"
    "\<forall>i < n. nth_port (next_port self) (Suc i) \<in> used self"
    by (auto simp: nth_port_def funpow_Suc_right simp del: funpow.simps)
  moreover have "nth_port (next_port self) 0 \<in> used self" using u by (simp add: nth_port_def)
  ultimately show ?case by (auto simp: less_Suc_eq_0_disj)
qed (simp add: nth_port_def)

lemma capacity: "unat (PORT_MAX - PORT_MIN) + 1 = 16384"
  by (simp add: PORT_MAX_def PORT_MIN_def)

lemma allocate_Some:
  assumes "allocator_inv self" and "allocate self = (self', Some p)"
  shows "p \<in> pool_ports \<and> p \<notin> used self \<and> used self' = insert p (used self) \<and> allocator_inv self'"
proof -
  from allocate_loop_Some [OF assms(2) [unfolded allocate_def Let_def]] obtain i where
    "p = nth_port (next_port self) i" "p \<notin> used self" "used self' = insert p (used self)"
    "next_port self' = advance p" by blast
  with assms(1) nth_port_pool advance_pool show ?thesis
    by (auto simp: allocator_inv_def)
qed

lemma allocate_None:
  assumes "allocator_inv self" and "allocate self = (self', None)"
  shows "used self = pool_ports \<and> used self' = used self \<and> allocator_inv self'"
proof -
  note l = allocate_loop_None [OF assms(2) [unfolded allocate_def Let_def capacity]]
  have "pool_ports \<subseteq> used self"
    using l nth_port_surj assms(1) unfolding allocator_inv_def by blast
  with l assms(1) nth_port_pool show ?thesis
    by (auto simp: allocator_inv_def)
qed

section \<open>The interface\<close>

locale port_pool =
  fixes alloc :: "'p \<Rightarrow> 'p \<times> 'q option"
    and free :: "'p \<Rightarrow> 'q \<Rightarrow> 'p"
    and taken :: "'p \<Rightarrow> 'q set"
    and all :: "'q set"
    and inv :: "'p \<Rightarrow> bool"
  assumes alloc_Some: "inv s \<Longrightarrow> alloc s = (s', Some q) \<Longrightarrow>
      q \<in> all \<and> q \<notin> taken s \<and> taken s' = insert q (taken s) \<and> inv s'"
    and alloc_None: "inv s \<Longrightarrow> alloc s = (s', None) \<Longrightarrow> taken s = all \<and> taken s' = taken s \<and> inv s'"
    and free_taken: "inv s \<Longrightarrow> taken (free s q) = taken s - {q} \<and> inv (free s q)"
begin

text \<open>A port is available exactly when not all are taken, and freeing gives it back.\<close>

lemma alloc_iff:
  assumes "inv s" and "taken s \<subseteq> all"
  shows "(\<exists>s' q. alloc s = (s', Some q)) \<longleftrightarrow> taken s \<noteq> all"
proof -
  obtain s' r where "alloc s = (s', r)" by fastforce
  with alloc_Some [OF assms(1)] alloc_None [OF assms(1)] show ?thesis
    by (cases r) auto
qed

lemma alloc_free:
  assumes "inv s" and "alloc s = (s', Some q)"
  shows "taken (free s' q) = taken s \<and> inv (free s' q)"
  using alloc_Some [OF assms] free_taken by auto

text \<open>The ports of a table of users: taking and giving back keep the table and the pool in step.\<close>

lemma table_alloc:
  assumes "inv s" and "taken s = ran m" and "inj_on m (dom m)" and "h \<notin> dom m"
    and "alloc s = (s', Some q)"
  shows "taken s' = ran (m(h \<mapsto> q)) \<and> inj_on (m(h \<mapsto> q)) (dom (m(h \<mapsto> q))) \<and> inv s'"
proof -
  note a = alloc_Some [OF assms(1,5)]
  with assms(2) inj_on_upd [OF assms(3), of q h] ran_upd_new [OF assms(4), of q] show ?thesis by simp
qed

lemma table_free:
  assumes "inv s" and "taken s = ran m" and "inj_on m (dom m)" and "m h = Some q"
  shows "taken (free s q) = ran (m(h := None)) \<and> inj_on (m(h := None)) (dom (m(h := None))) \<and> inv (free s q)"
  using free_taken [OF assms(1), of q] assms(2) inj_on_del [OF assms(3)] ran_del_inj [OF assms(3,4)]
  by simp

end

interpretation pa: port_pool allocate release used pool_ports allocator_inv
proof unfold_locales
  fix s s' :: port_allocator and q
  assume inv: "allocator_inv s"
  show "q \<in> pool_ports \<and> q \<notin> used s \<and> used s' = insert q (used s) \<and> allocator_inv s'"
    if "allocate s = (s', Some q)" using allocate_Some [OF inv that] .
  show "used s = pool_ports \<and> used s' = used s \<and> allocator_inv s'"
    if "allocate s = (s', None)" using allocate_None [OF inv that] .
  show "used (release s q) = used s - {q} \<and> allocator_inv (release s q)"
    using inv by (auto simp: release_def allocator_inv_def)
qed

lemma allocator_inv_new [inv_rules]: "allocator_inv allocator_new"
  by (simp add: allocator_inv_def allocator_new_def pool_ports_def PORT_MIN_def PORT_MAX_def)

section \<open>Properties\<close>

text \<open>
  Allocation is complete and never hands out a port twice: as long as a port of the ephemeral
  range is free, allocation returns a free port of that range, wherever the cursor stands and
  across its wrap-around; it fails only when all of them are in use, and then changes nothing
  about them.
\<close>

lemma allocate_correct:
  assumes "allocator_inv self"
  shows "case allocate self of
      (self', Some p) \<Rightarrow> p \<in> pool_ports \<and> p \<notin> used self \<and> used self' = insert p (used self) \<and> allocator_inv self'
    | (self', None) \<Rightarrow> used self = pool_ports \<and> used self' = used self \<and> allocator_inv self'"
proof (cases "allocate self")
  case (Pair self' r)
  show ?thesis
  proof (cases r)
    case None
    with Pair pa.alloc_None [OF assms] show ?thesis by simp
  next
    case (Some p)
    with Pair pa.alloc_Some [OF assms] show ?thesis by simp
  qed
qed

end
