(* ===== verification/Published_Tcp.thy ===== *)
theory Published_Tcp
  imports Outbound_Tcp Port_Allocator
begin

text \<open>
  Connections from the host into the namespace, \<open>src/src/event_loop/published.rs\<close>: the tasks that
  accept host connections on the published ports, the sockets that connect them to the
  namespace from a source port of the allocator, the shuttling of bytes, and the removal of
  closed sockets. Like the outbound component it is an owner of sockets with a table of states.
\<close>

section \<open>State\<close>

type_synonym socket_addr = "ip_addr \<times> u16"

record 's accepted_connection =
  ac_stream :: 's
  ac_peer_addr :: socket_addr
  ac_spec :: publish_spec

record 's connection_context =
  cc_stream :: 's
  cc_peer_addr :: socket_addr
  host_to_namespace :: bytes
  close_after_drain :: bool

datatype 's pub_state =
    PConnecting 's socket_addr instant
  | PEstablished "'s connection_context"
  | PClosing

record ('s, 'c, 'a) published_tcp =
  pub_states :: "handle \<rightharpoonup> 's pub_state"
  handle_to_port :: "handle \<rightharpoonup> u16"
  ports :: port_allocator
  accepted_rx :: 'c
  pending :: "'s accepted_connection list"
  accept_tasks :: "'a list"

text \<open>
  The channel between the accepting tasks and the event loop, the tasks themselves and what can be
  done to them (\<open>tokio\<close>).
\<close>

record ('s, 'c) chan_lib =
  chan_new :: "nat \<Rightarrow> 'c"
  chan_try_recv :: "'c \<Rightarrow> 'c \<times> 's accepted_connection option"
  chan_poll_recv :: "'c \<Rightarrow> 'c \<times> 's accepted_connection option poll"

record ('r, 'l, 'c, 'a) accept_lib =
  spawn_accept :: "'r \<Rightarrow> 'l \<Rightarrow> 'c \<Rightarrow> publish_spec \<Rightarrow> 'r \<times> 'a"
  accept_abort :: "'r \<Rightarrow> 'a \<Rightarrow> 'r"

definition ACCEPT_QUEUE :: nat where "ACCEPT_QUEUE = 128"

text \<open>
  The body of an accepting task, over what happens to it: each event is the outcome of an
  \<open>accept\<close> and, when that gave a connection, whether the channel still takes messages. The result
  is the messages handed to the channel. A failed \<open>accept\<close> only delays the loop.
\<close>

fun accept_loop :: "publish_spec \<Rightarrow> (('s \<times> socket_addr) option \<times> bool) list \<Rightarrow> 's accepted_connection list" where
  "accept_loop spec [] = []"
| "accept_loop spec ((Some (st, peer), delivered) # events) =
     \<lparr>ac_stream = st, ac_peer_addr = peer, ac_spec = spec\<rparr> # (if delivered then accept_loop spec events else [])"
| "accept_loop spec ((None, delivered) # events) = accept_loop spec events"

primrec spawn_all ::
  "('r, 'l, 'c, 'a) accept_lib \<Rightarrow> 'c \<Rightarrow> 'l bound_publish list \<Rightarrow> 'r \<Rightarrow> 'r \<times> 'a list" where
  "spawn_all A tx [] rt = (rt, [])"
| "spawn_all A tx (p # regs) rt =
     (case spawn_accept A rt (pub_listener p) tx (pub_spec p) of
        (rt, task) \<Rightarrow> (case spawn_all A tx regs rt of (rt, tasks) \<Rightarrow> (rt, task # tasks)))"

definition pub_new ::
  "('s, 'c) chan_lib \<Rightarrow> ('r, 'l, 'c, 'a) accept_lib \<Rightarrow> 'l bound_publish list \<Rightarrow> 'r \<Rightarrow> 'r \<times> ('s, 'c, 'a) published_tcp" where
  "pub_new C A regs rt =
     (let chan = chan_new C ACCEPT_QUEUE in
      case spawn_all A chan regs rt of
        (rt, tasks) \<Rightarrow>
          (rt, \<lparr>pub_states = Map.empty, handle_to_port = Map.empty, ports = allocator_new,
                accepted_rx = chan, pending = [], accept_tasks = tasks\<rparr>))"

section \<open>Readiness\<close>

definition pub_ready_one ::
  "'s net_lib \<Rightarrow> ('t, 'i) tcp_lib \<Rightarrow> ('s, 'c, 'a) published_tcp \<Rightarrow> ('t, 'u) socket_set \<Rightarrow> handle \<Rightarrow> bool \<Rightarrow> panic + bool" where
  "pub_ready_one N T self ss h ready =
     (case pub_states self h of
        Some (PEstablished ctx) \<Rightarrow>
          (let ready = (ready \<or> (\<not> close_after_drain ctx \<and> length (host_to_namespace ctx) < TCP_BUF_SIZE \<and>
                          sock_read_ready N (cc_stream ctx) \<noteq> Pending))
           in result_bind (get_tcp ss h) (\<lambda>sock.
                Inr (ready \<or> (t_can_recv T sock \<and> sock_write_ready N (cc_stream ctx) \<noteq> Pending))))
      | _ \<Rightarrow> Inr ready)"

definition pub_poll_ready ::
  "'s net_lib \<Rightarrow> ('t, 'i) tcp_lib \<Rightarrow> ('s, 'c) chan_lib \<Rightarrow> order \<Rightarrow> ('s, 'c, 'a) published_tcp \<Rightarrow> ('t, 'u) socket_set \<Rightarrow>
   panic + (('s, 'c, 'a) published_tcp \<times> bool)" where
  "pub_poll_ready N T C ord self ss =
     (case chan_poll_recv C (accepted_rx self) of
        (c, polled) \<Rightarrow>
          let self = self\<lparr>accepted_rx := c\<rparr>;
              (self, ready) =
                (case polled of
                   Ready (Some accepted) \<Rightarrow> (self\<lparr>pending := pending self @ [accepted]\<rparr>, True)
                 | _ \<Rightarrow> (self, False))
          in result_bind (fold_handles (pub_ready_one N T self ss) (ord (dom (pub_states self))) ready) (\<lambda>ready.
               Inr (self, ready)))"

section \<open>Attaching accepted connections\<close>

partial_function (option) drain_accepted ::
  "('s, 'c) chan_lib \<Rightarrow> 'c \<Rightarrow> 's accepted_connection list \<Rightarrow> ('c \<times> 's accepted_connection list) option" where
  "drain_accepted C c acc =
     (case chan_try_recv C c of
        (c, Some accepted) \<Rightarrow> drain_accepted C c (acc @ [accepted])
      | (c, None) \<Rightarrow> Some (c, acc))"

definition attach_one ::
  "('t, 'i) tcp_lib \<Rightarrow> ('t, 'u) alloc \<Rightarrow> clock \<Rightarrow> 's accepted_connection \<Rightarrow>
   ('s, 'c, 'a) published_tcp \<times> ('t, 'u) socket_set \<times> 'i \<Rightarrow>
   panic + (('s, 'c, 'a) published_tcp \<times> ('t, 'u) socket_set \<times> 'i)" where
  "attach_one T alloc now accepted = (\<lambda>(self, ss, iface).
     case allocate (ports self) of
       (pa, None) \<Rightarrow> Inr (self\<lparr>ports := pa\<rparr>, ss, iface)
     | (pa, Some local_port) \<Rightarrow>
         let self = self\<lparr>ports := pa\<rparr>;
             remote = (TUN_ADDR, namespace_port (ac_spec accepted));
             local = (TUN_GW, local_port) in
         (case t_connect T iface (new_tcp_socket T) remote local of
            None \<Rightarrow> Inr (self\<lparr>ports := release (ports self) local_port\<rparr>, ss, iface)
          | Some (iface, sock) \<Rightarrow>
              (case ss_add alloc ss (Tcp sock) of
                 (ss, h) \<Rightarrow>
                   Inr (self\<lparr>pub_states := (pub_states self)(h \<mapsto> PConnecting (ac_stream accepted) (ac_peer_addr accepted) (now h)),
                             handle_to_port := (handle_to_port self)(h \<mapsto> local_port)\<rparr>, ss, iface))))"

definition attach_accepted ::
  "('t, 'i) tcp_lib \<Rightarrow> ('s, 'c) chan_lib \<Rightarrow> ('t, 'u) alloc \<Rightarrow> clock \<Rightarrow> ('s, 'c, 'a) published_tcp \<Rightarrow> ('t, 'u) socket_set \<Rightarrow> 'i \<Rightarrow>
   (panic + (('s, 'c, 'a) published_tcp \<times> ('t, 'u) socket_set \<times> 'i)) option" where
  "attach_accepted T C alloc now self ss iface =
     (case drain_accepted C (accepted_rx self) (pending self) of
        None \<Rightarrow> None
      | Some (c, accepted) \<Rightarrow>
          Some (fold_handles (attach_one T alloc now) accepted (self\<lparr>accepted_rx := c, pending := []\<rparr>, ss, iface)))"

section \<open>Handshakes\<close>

definition pub_set :: "handle \<Rightarrow> 's pub_state \<Rightarrow> ('s, 'c, 'a) published_tcp \<Rightarrow> ('s, 'c, 'a) published_tcp" where
  "pub_set h st self = self\<lparr>pub_states := (pub_states self)(h \<mapsto> st)\<rparr>"

definition pub_connecting_one ::
  "('t, 'i) tcp_lib \<Rightarrow> clock \<Rightarrow> handle \<Rightarrow> ('s, 'c, 'a) published_tcp \<times> ('t, 'u) socket_set \<Rightarrow>
   panic + (('s, 'c, 'a) published_tcp \<times> ('t, 'u) socket_set)" where
  "pub_connecting_one T now h = (\<lambda>(self, ss).
     case pub_states self h of
       Some (PConnecting st peer created) \<Rightarrow>
         let self = self\<lparr>pub_states := (pub_states self)(h := None)\<rparr> in
         result_bind (get_tcp ss h) (\<lambda>sock.
           if t_state T sock \<in> {TEstablished, TCloseWait} then
             Inr (pub_set h (PEstablished \<lparr>cc_stream = st, cc_peer_addr = peer, host_to_namespace = [], close_after_drain = False\<rparr>) self, ss)
           else if t_state T sock \<in> {TClosed, TTimeWait} then Inr (pub_set h PClosing self, ss)
           else if elapsed (now h) created \<ge> TCP_HANDSHAKE_TIMEOUT then
             Inr (pub_set h PClosing self, ss(h \<mapsto> Tcp (t_abort T sock)))
           else Inr (pub_set h (PConnecting st peer created) self, ss))
     | _ \<Rightarrow> Inl Panic)"

definition is_pconnecting :: "'s pub_state option \<Rightarrow> bool" where
  "is_pconnecting st \<longleftrightarrow> (case st of Some (PConnecting s peer created) \<Rightarrow> True | _ \<Rightarrow> False)"

definition is_pestablished :: "'s pub_state option \<Rightarrow> bool" where
  "is_pestablished st \<longleftrightarrow> (case st of Some (PEstablished ctx) \<Rightarrow> True | _ \<Rightarrow> False)"

definition is_pclosing :: "'s pub_state option \<Rightarrow> bool" where
  "is_pclosing st \<longleftrightarrow> (case st of Some PClosing \<Rightarrow> True | _ \<Rightarrow> False)"

definition pub_poll_connecting ::
  "('t, 'i) tcp_lib \<Rightarrow> order \<Rightarrow> clock \<Rightarrow> ('s, 'c, 'a) published_tcp \<Rightarrow> ('t, 'u) socket_set \<Rightarrow>
   panic + (('s, 'c, 'a) published_tcp \<times> ('t, 'u) socket_set)" where
  "pub_poll_connecting T ord now self ss =
     fold_handles (pub_connecting_one T now)
       (filter (\<lambda>h. is_pconnecting (pub_states self h)) (ord (dom (pub_states self)))) (self, ss)"

section \<open>Shuttling\<close>

text \<open>The four stages of a pass over one connection; the flag collects failures.\<close>

definition pub_read_host ::
  "'s net_lib \<Rightarrow> 's connection_context \<Rightarrow> 's connection_context \<times> bool" where
  "pub_read_host N ctx =
     (if \<not> close_after_drain ctx \<and> length (host_to_namespace ctx) < TCP_BUF_SIZE then
        let space = TCP_BUF_SIZE - length (host_to_namespace ctx) in
        (case sock_try_read N (cc_stream ctx) space of
           (st, Inr bs) \<Rightarrow>
             if bs = [] then (ctx\<lparr>cc_stream := st, close_after_drain := True\<rparr>, False)
             else (ctx\<lparr>cc_stream := st, host_to_namespace := host_to_namespace ctx @ bs\<rparr>, False)
         | (st, Inl WouldBlock) \<Rightarrow> (ctx\<lparr>cc_stream := st\<rparr>, False)
         | (st, Inl IoError) \<Rightarrow> (ctx\<lparr>cc_stream := st\<rparr>, True))
      else (ctx, False))"

definition pub_send_namespace ::
  "('t, 'i) tcp_lib \<Rightarrow> 's connection_context \<Rightarrow> 't \<Rightarrow> panic + ('s connection_context \<times> 't \<times> bool)" where
  "pub_send_namespace T ctx sock =
     result_bind (send_front T sock (host_to_namespace ctx)) (\<lambda>(sock, buf, failed).
       Inr (ctx\<lparr>host_to_namespace := buf\<rparr>, sock, failed))"

definition pub_write_host ::
  "'s net_lib \<Rightarrow> ('t, 'i) tcp_lib \<Rightarrow> 's connection_context \<Rightarrow> 't \<Rightarrow> 's connection_context \<times> 't \<times> bool" where
  "pub_write_host N T ctx sock =
     (if t_can_recv T sock then
        (case recv_to_stream N T sock (cc_stream ctx) of
           (sock, st, failed) \<Rightarrow> (ctx\<lparr>cc_stream := st\<rparr>, sock, failed))
      else (ctx, sock, False))"

definition pub_finish ::
  "('t, 'i) tcp_lib \<Rightarrow> bool \<Rightarrow> 's connection_context \<Rightarrow> 't \<Rightarrow> 's connection_context \<times> 't \<times> bool" where
  "pub_finish T failed ctx sock =
     (let ctx = (if \<not> t_may_recv T sock \<and> t_recv_queue T sock = 0 then ctx\<lparr>close_after_drain := True\<rparr> else ctx);
          namespace_closed = (t_state T sock \<in> {TClosed, TTimeWait});
          drained_after_eof =
            (close_after_drain ctx \<and> host_to_namespace ctx = [] \<and> t_send_queue T sock = 0 \<and> t_recv_queue T sock = 0);
          close = (failed \<or> namespace_closed \<or> drained_after_eof)
      in (ctx, abort_if T (close \<and> \<not> namespace_closed) sock, close))"

definition pub_shuttle_one ::
  "'s net_lib \<Rightarrow> ('t, 'i) tcp_lib \<Rightarrow> 's connection_context \<Rightarrow> 't \<Rightarrow> panic + ('s connection_context \<times> 't \<times> bool)" where
  "pub_shuttle_one N T ctx sock =
     (case pub_read_host N ctx of (ctx, failed1) \<Rightarrow>
      result_bind (pub_send_namespace T ctx sock) (\<lambda>(ctx, sock, failed2).
      case pub_write_host N T ctx sock of (ctx, sock, failed3) \<Rightarrow>
      Inr (pub_finish T (failed1 \<or> failed2 \<or> failed3) ctx sock)))"

definition pub_shuttle_handle ::
  "'s net_lib \<Rightarrow> ('t, 'i) tcp_lib \<Rightarrow> handle \<Rightarrow> ('s, 'c, 'a) published_tcp \<times> ('t, 'u) socket_set \<Rightarrow>
   panic + (('s, 'c, 'a) published_tcp \<times> ('t, 'u) socket_set)" where
  "pub_shuttle_handle N T h = (\<lambda>(self, ss).
     case pub_states self h of
       None \<Rightarrow> Inl Panic
     | Some (PEstablished ctx) \<Rightarrow>
         result_bind (get_tcp ss h) (\<lambda>sock.
         result_bind (pub_shuttle_one N T ctx sock) (\<lambda>(ctx, sock, close).
           Inr (pub_set h (if close then PClosing else PEstablished ctx) self, ss(h \<mapsto> Tcp sock))))
     | _ \<Rightarrow> Inr (self, ss))"

definition pub_shuttle_established ::
  "'s net_lib \<Rightarrow> ('t, 'i) tcp_lib \<Rightarrow> order \<Rightarrow> ('s, 'c, 'a) published_tcp \<Rightarrow> ('t, 'u) socket_set \<Rightarrow>
   panic + (('s, 'c, 'a) published_tcp \<times> ('t, 'u) socket_set)" where
  "pub_shuttle_established N T ord self ss =
     fold_handles (pub_shuttle_handle N T)
       (filter (\<lambda>h. is_pestablished (pub_states self h)) (ord (dom (pub_states self)))) (self, ss)"

definition pub_process ::
  "'s net_lib \<Rightarrow> ('t, 'i) tcp_lib \<Rightarrow> order \<Rightarrow> order \<Rightarrow> clock \<Rightarrow> ('s, 'c, 'a) published_tcp \<Rightarrow> ('t, 'u) socket_set \<Rightarrow>
   panic + (('s, 'c, 'a) published_tcp \<times> ('t, 'u) socket_set)" where
  "pub_process N T ord1 ord2 now self ss =
     result_bind (pub_poll_connecting T ord1 now self ss) (\<lambda>(self, ss). pub_shuttle_established N T ord2 self ss)"

section \<open>Cleanup\<close>

definition pub_cleanup_one ::
  "handle \<Rightarrow> ('s, 'c, 'a) published_tcp \<times> ('t, 'u) socket_set \<Rightarrow>
   panic + (('s, 'c, 'a) published_tcp \<times> ('t, 'u) socket_set)" where
  "pub_cleanup_one h = (\<lambda>(self, ss).
     let self = self\<lparr>pub_states := (pub_states self)(h := None)\<rparr> in
     result_bind (ss_remove ss h) (\<lambda>ss.
       Inr (case handle_to_port self h of
              Some port \<Rightarrow> self\<lparr>handle_to_port := (handle_to_port self)(h := None), ports := release (ports self) port\<rparr>
            | None \<Rightarrow> self, ss)))"

definition pub_cleanup ::
  "order \<Rightarrow> ('s, 'c, 'a) published_tcp \<Rightarrow> ('t, 'u) socket_set \<Rightarrow>
   panic + (('s, 'c, 'a) published_tcp \<times> ('t, 'u) socket_set)" where
  "pub_cleanup ord self ss =
     fold_handles pub_cleanup_one
       (filter (\<lambda>h. is_pclosing (pub_states self h)) (ord (dom (pub_states self)))) (self, ss)"

text \<open>\<open>Drop\<close>: all accepting tasks are aborted.\<close>

definition pub_drop :: "('r, 'l, 'c, 'a) accept_lib \<Rightarrow> ('s, 'c, 'a) published_tcp \<Rightarrow> 'r \<Rightarrow> 'r" where
  "pub_drop A self rt = foldl (accept_abort A) rt (accept_tasks self)"

section \<open>The invariant\<close>

text \<open>
  Messages still in the channel (a measure that every receipt decreases), and that accepted
  streams have moved no bytes yet.
\<close>

definition fresh_accepted :: "('s, 't, 'k) ob_logs \<Rightarrow> 's accepted_connection \<Rightarrow> bool" where
  "fresh_accepted L a \<longleftrightarrow> lg_sent L (ac_stream a) = [] \<and> lg_taken L (ac_stream a) = []"

definition chan_spec :: "('s, 'c) chan_lib \<Rightarrow> ('c \<Rightarrow> nat) \<Rightarrow> ('s, 't, 'k) ob_logs \<Rightarrow> bool" where
  "chan_spec C waiting L \<longleftrightarrow>
     (\<forall>c c' a. chan_try_recv C c = (c', Some a) \<longrightarrow> waiting c' < waiting c \<and> fresh_accepted L a) \<and>
     (\<forall>c c' a. chan_poll_recv C c = (c', Ready (Some a)) \<longrightarrow> fresh_accepted L a)"

definition pub_env :: "'s net_lib \<Rightarrow> ('t, 'i) tcp_lib \<Rightarrow> ('s, 't, 'k) ob_logs \<Rightarrow> bool" where
  "pub_env N T L \<longleftrightarrow>
     stream_spec N (lg_sent L) (lg_taken L) \<and> tcp_spec T (lg_queued L) (lg_removed L) \<and>
     fresh_spec T (lg_queued L) (lg_removed L)"

text \<open>
  A published connection is a pipe: the host peer was sent exactly the bytes removed from the
  namespace's socket, and what it sent is, in order, what was queued to the namespace and what
  waits in the buffer.
\<close>

definition pub_state_ok :: "('s, 't, 'k) ob_logs \<Rightarrow> 's pub_state \<Rightarrow> 't \<Rightarrow> bool" where
  "pub_state_ok L st t \<longleftrightarrow>
     (case st of
        PConnecting s peer created \<Rightarrow>
          lg_sent L s = [] \<and> lg_taken L s = [] \<and> lg_queued L t = [] \<and> lg_removed L t = []
      | PEstablished ctx \<Rightarrow>
          lg_sent L (cc_stream ctx) = lg_removed L t \<and>
          lg_taken L (cc_stream ctx) = lg_queued L t @ host_to_namespace ctx \<and>
          length (host_to_namespace ctx) \<le> TCP_BUF_SIZE
      | PClosing \<Rightarrow> True)"

definition pub_inv ::
  "('s, 't, 'k) ob_logs \<Rightarrow> ('s, 'c, 'a) published_tcp \<Rightarrow> ('t, 'u) socket_set \<Rightarrow> bool" where
  "pub_inv L self ss \<longleftrightarrow>
     finite (dom (pub_states self)) \<and>
     (\<forall>h st. pub_states self h = Some st \<longrightarrow> (\<exists>t. ss h = Some (Tcp t) \<and> pub_state_ok L st t)) \<and>
     dom (handle_to_port self) = dom (pub_states self) \<and>
     inj_on (handle_to_port self) (dom (handle_to_port self)) \<and>
     used (ports self) = ran (handle_to_port self) \<and> allocator_inv (ports self) \<and>
     (\<forall>a \<in> set (pending self). fresh_accepted L a)"

definition pub_handles :: "('s, 'c, 'a) published_tcp \<Rightarrow> handle set" where
  "pub_handles self = dom (pub_states self)"

lemma pub_envD:
  assumes "pub_env N T L"
  shows "stream_spec N (lg_sent L) (lg_taken L)" "tcp_spec T (lg_queued L) (lg_removed L)"
    "fresh_spec T (lg_queued L) (lg_removed L)"
  using assms by (simp_all add: pub_env_def)

lemma pub_inv_state:
  assumes "pub_inv L self ss" and "pub_states self h = Some st"
  obtains t where "ss h = Some (Tcp t)" "get_tcp ss h = Inr t" "pub_state_ok L st t"
proof -
  from assms(1) have "\<forall>h st. pub_states self h = Some st \<longrightarrow> (\<exists>t. ss h = Some (Tcp t) \<and> pub_state_ok L st t)"
    unfolding pub_inv_def by blast
  with assms(2) obtain t where "ss h = Some (Tcp t)" "pub_state_ok L st t" by blast
  with that [of t] show thesis by (simp add: get_tcp_Inr)
qed

lemma pub_inv_ports:
  assumes "pub_inv L self ss"
  shows "allocator_inv (ports self)" "used (ports self) = ran (handle_to_port self)"
    "inj_on (handle_to_port self) (dom (handle_to_port self))" "dom (handle_to_port self) = dom (pub_states self)"
  using assms unfolding pub_inv_def by blast+

lemma pub_state_ok_logs:
  "pub_state_ok L st t \<Longrightarrow> lg_queued L t' = lg_queued L t \<Longrightarrow> lg_removed L t' = lg_removed L t \<Longrightarrow> pub_state_ok L st t'"
  by (simp add: pub_state_ok_def split: pub_state.splits)

interpretation pub: socket_owner "pub_inv L :: ('s, 'c, 'a) published_tcp \<Rightarrow> ('t, 'u) socket_set \<Rightarrow> bool" pub_handles "same_logs (lg_queued L) (lg_removed L) (lg_local L)"
  for L :: "('s, 't, 'k) ob_logs"
proof unfold_locales
  fix c :: "('s, 'c, 'a) published_tcp" and ss ss' :: "('t, 'u) socket_set"
  assume inv: "pub_inv L c ss"
  show "pub_handles c \<subseteq> dom ss"
    using pub_inv_state [OF inv] by (force simp: pub_handles_def)
  assume same: "\<And>h. h \<in> pub_handles c \<Longrightarrow> same_logs (lg_queued L) (lg_removed L) (lg_local L) (ss h) (ss' h)"
  have "\<exists>t. ss' h = Some (Tcp t) \<and> pub_state_ok L st t" if st: "pub_states c h = Some st" for h st
  proof -
    from pub_inv_state [OF inv st] obtain t where t: "ss h = Some (Tcp t)" "pub_state_ok L st t" by blast
    have "h \<in> pub_handles c" using st by (auto simp: pub_handles_def)
    with same [of h] t(1) same_logs_Tcp obtain t' where
      "ss' h = Some (Tcp t')" "lg_queued L t' = lg_queued L t" "lg_removed L t' = lg_removed L t" by metis
    with pub_state_ok_logs [OF t(2)] show ?thesis by blast
  qed
  with inv show "pub_inv L c ss'" unfolding pub_inv_def by blast
qed (rule same_logs_refl)

interpretation pubt: state_table "pub_inv L" pub_handles pub_states
  for L
  by unfold_locales (simp add: pub_inv_def)

abbreviation pub_step ::
  "('s, 't, 'k) ob_logs \<Rightarrow> ('s, 'c, 'a) published_tcp \<times> ('t, 'u) socket_set \<Rightarrow>
   ('s, 'c, 'a) published_tcp \<times> ('t, 'u) socket_set \<Rightarrow> bool" where
  "pub_step L \<equiv> owner_step (pub_inv L) pub_handles"

abbreviation pub_view ::
  "handle \<Rightarrow> ('s, 'c, 'a) published_tcp \<times> ('t, 'u) socket_set \<Rightarrow> 's pub_state option \<times> ('t, 'u) socket option" where
  "pub_view \<equiv> table_view pub_states"

abbreviation pub_handle_step ::
  "('s, 't, 'k) ob_logs \<Rightarrow> handle \<Rightarrow> ('s, 'c, 'a) published_tcp \<times> ('t, 'u) socket_set \<Rightarrow>
   ('s, 'c, 'a) published_tcp \<times> ('t, 'u) socket_set \<Rightarrow> bool" where
  "pub_handle_step L \<equiv> handle_step (pub_inv L) pub_handles pub_states"

lemma pub_set_simps [simp]:
  "pub_states (pub_set h st self) = (pub_states self)(h \<mapsto> st)"
  "handle_to_port (pub_set h st self) = handle_to_port self"
  "ports (pub_set h st self) = ports self"
  "pending (pub_set h st self) = pending self"
  "pub_set h st (self\<lparr>pub_states := (pub_states self)(h := None)\<rparr>) = pub_set h st self"
  by (simp_all add: pub_set_def)

lemma pub_handle_step_set:
  assumes "pub_inv L self ss" and "pub_states self h \<noteq> None" and "pub_state_ok L st t"
  shows "pub_handle_step L h (self, ss) (pub_set h st self, ss(h \<mapsto> Tcp t))"
proof -
  from assms(2) have h: "h \<in> dom (pub_states self)" by auto
  have "pub_inv L (pub_set h st self) (ss(h \<mapsto> Tcp t))"
    using assms(1,3) h unfolding pub_inv_def by (auto simp: insert_absorb)
  moreover have "keeps_others (pub_handles self) ss (pub_handles (pub_set h st self)) (ss(h \<mapsto> Tcp t))"
    using h by (auto simp: keeps_others_def pub_handles_def)
  ultimately show ?thesis by (simp add: handle_step_def owner_step_def table_view_def)
qed

lemma pub_handle_step_state:
  assumes "pub_inv L self ss" and "pub_states self h \<noteq> None" and "ss h = Some (Tcp t)" and "pub_state_ok L st t"
  shows "pub_handle_step L h (self, ss) (pub_set h st self, ss)"
proof -
  have "ss(h \<mapsto> Tcp t) = ss" using assms(3) by auto
  with pub_handle_step_set [OF assms(1,2,4)] show ?thesis by simp
qed

lemma pub_state_ok_closing [simp]: "pub_state_ok L PClosing t"
  by (simp add: pub_state_ok_def)

lemma is_pconnecting_iff: "is_pconnecting st \<longleftrightarrow> (\<exists>s peer c. st = Some (PConnecting s peer c))"
  and is_pestablished_iff: "is_pestablished st \<longleftrightarrow> (\<exists>ctx. st = Some (PEstablished ctx))"
  and is_pclosing_iff: "is_pclosing st \<longleftrightarrow> st = Some PClosing"
  by (auto simp: is_pconnecting_def is_pestablished_def is_pclosing_def split: option.splits pub_state.splits)

section \<open>Every operation keeps it\<close>

lemma pub_inv_new: "pub_inv L (snd (pub_new C A regs rt)) ss"
  by (simp add: pub_inv_def pub_new_def Let_def case_prod_unfold allocator_inv_new)
    (simp add: allocator_new_def)

lemma drain_accepted_total:
  assumes "chan_spec C waiting L" and "\<forall>a \<in> set acc. fresh_accepted L a"
  shows "\<exists>c' acc'. drain_accepted C c acc = Some (c', acc') \<and> (\<forall>a \<in> set acc'. fresh_accepted L a)"
  using assms(2)
proof (induction "waiting c" arbitrary: c acc rule: less_induct)
  case less
  obtain c1 r where r: "chan_try_recv C c = (c1, r)" by fastforce
  show ?case
  proof (cases r)
    case None
    with r less.prems show ?thesis by (subst drain_accepted.simps) simp
  next
    case (Some a)
    with r assms(1) have "waiting c1 < waiting c" "fresh_accepted L a"
      unfolding chan_spec_def by blast+
    with less.hyps [of c1 "acc @ [a]"] less.prems r Some show ?thesis
      by (subst drain_accepted.simps) simp
  qed
qed

lemma attach_one_step:
  assumes env: "pub_env N T L" and alloc: "alloc_spec alloc" and inv: "pub_inv L self ss" and fin: "finite (dom ss)"
    and a: "fresh_accepted L a"
  shows "\<exists>self' ss' i'. attach_one T alloc now a (self, ss, i) = Inr (self', ss', i') \<and> pub_step L (self, ss) (self', ss')"
proof -
  note p = pub_inv_ports [OF inv]
  obtain pa r where r: "allocate (ports self) = (pa, r)" by fastforce
  show ?thesis
  proof (cases r)
    case None
    with pa.alloc_None [OF p(1)] r have "used pa = used (ports self)" "allocator_inv pa" by auto
    with inv have "pub_inv L (self\<lparr>ports := pa\<rparr>) ss" unfolding pub_inv_def by auto
    then show ?thesis
      using r None by (simp add: attach_one_def owner_step_def pub_handles_def)
  next
    case (Some port)
    note q = pa.alloc_Some [OF p(1) r [unfolded Some]]
    show ?thesis
    proof (cases "t_connect T i (new_tcp_socket T) (TUN_ADDR, namespace_port (ac_spec a)) (TUN_GW, port)")
      case None
      from pa.alloc_free [OF p(1) r [unfolded Some]] inv
      have "pub_inv L (self\<lparr>ports := release pa port\<rparr>) ss" unfolding pub_inv_def by auto
      then show ?thesis
        using r Some None by (simp add: attach_one_def owner_step_def pub_handles_def Let_def)
    next
      case (Some it)
      obtain i' t where it: "it = (i', t)" by (cases it)
      define h where "h = alloc ss"
      have h: "h \<notin> dom ss" using alloc fin by (simp add: alloc_spec_def h_def)
      with pub.handles_live [OF inv] have h': "h \<notin> dom (pub_states self)" by (auto simp: pub_handles_def)
      then have h'': "h \<notin> dom (handle_to_port self)" using p(4) by simp
      let ?self = "self\<lparr>ports := pa, pub_states := (pub_states self)(h \<mapsto> PConnecting (ac_stream a) (ac_peer_addr a) (now h)),
        handle_to_port := (handle_to_port self)(h \<mapsto> port)\<rparr>"
      have eq: "attach_one T alloc now a (self, ss, i) = Inr (?self, ss(h \<mapsto> Tcp t), i')"
        using r \<open>r = Some port\<close> Some it by (simp add: attach_one_def Let_def ss_add_def h_def)
      have ok: "pub_state_ok L (PConnecting (ac_stream a) (ac_peer_addr a) (now h)) t"
        using fresh_connect [OF pub_envD(3) [OF env] Some [unfolded it]] a by (simp add: pub_state_ok_def fresh_accepted_def)
      note tab = pa.table_alloc [OF p(1,2,3) h'' r [unfolded \<open>r = Some port\<close>]]
      have "pub_inv L ?self (ss(h \<mapsto> Tcp t))"
        using inv h' ok tab unfolding pub_inv_def by auto
      moreover have "keeps_others (pub_handles self) ss (pub_handles ?self) (ss(h \<mapsto> Tcp t))"
        using h h' by (auto simp: keeps_others_def pub_handles_def)
      ultimately show ?thesis using eq by (simp add: owner_step_def)
    qed
  qed
qed

lemma attach_accepted_step:
  fixes ss :: "('t, 'u) socket_set" and self :: "('s, 'c, 'a) published_tcp" and T :: "('t, 'i) tcp_lib"
  assumes env: "pub_env N T L" and chan: "chan_spec C waiting L" and alloc: "alloc_spec alloc"
    and inv: "pub_inv L self ss" and fin: "finite (dom ss)"
  shows "\<exists>self' ss' i'. attach_accepted T C alloc now self ss i = Some (Inr (self', ss', i')) \<and>
    pub_step L (self, ss) (self', ss')"
proof -
  have "\<forall>a \<in> set (pending self). fresh_accepted L a" using inv by (simp add: pub_inv_def)
  from drain_accepted_total [OF chan this] obtain c acc where
    d: "drain_accepted C (accepted_rx self) (pending self) = Some (c, acc)" "\<forall>a \<in> set acc. fresh_accepted L a" by blast
  let ?s = "(self\<lparr>accepted_rx := c, pending := []\<rparr>, ss, i)"
  have inv1: "pub_inv L (self\<lparr>accepted_rx := c, pending := []\<rparr>) ss"
    using inv unfolding pub_inv_def by auto
  have "\<exists>s'. fold_handles (attach_one T alloc now) acc ?s = Inr s' \<and> pub_step L (pr2 ?s) (pr2 s')"
  proof (rule pubt.loop)
    fix a and s :: "('s, 'c, 'a) published_tcp \<times> ('t, 'u) socket_set \<times> 'i"
    assume "a \<in> set acc" "pub_inv L (fst (pr2 s)) (snd (pr2 s))" "finite (dom (snd (pr2 s)))"
    with attach_one_step [OF env alloc] d(2)
    show "\<exists>s'. attach_one T alloc now a s = Inr s' \<and> pub_step L (pr2 s) (pr2 s')"
      by (cases s) fastforce
  qed (use inv1 fin in simp_all)
  then show ?thesis by (auto simp: attach_accepted_def d(1) owner_step_def pub_handles_def)
qed

text \<open>What one pass does to a handshake.\<close>

inductive handshake_edge ::
  "('t, 'i) tcp_lib \<Rightarrow> clock \<Rightarrow> handle \<Rightarrow> 's pub_state option \<times> ('t, 'u) socket option \<Rightarrow>
   's pub_state option \<times> ('t, 'u) socket option \<Rightarrow> bool"
  for T now h where
  he_up: "t_state T t \<in> {TEstablished, TCloseWait} \<Longrightarrow>
    handshake_edge T now h (Some (PConnecting s peer c), Some (Tcp t))
      (Some (PEstablished \<lparr>cc_stream = s, cc_peer_addr = peer, host_to_namespace = [], close_after_drain = False\<rparr>), Some (Tcp t))"
| he_refused: "t_state T t \<in> {TClosed, TTimeWait} \<Longrightarrow>
    handshake_edge T now h (Some (PConnecting s peer c), Some (Tcp t)) (Some PClosing, Some (Tcp t))"
| he_timeout: "t_state T t \<notin> {TEstablished, TCloseWait, TClosed, TTimeWait} \<Longrightarrow>
    TCP_HANDSHAKE_TIMEOUT \<le> elapsed (now h) c \<Longrightarrow>
    handshake_edge T now h (Some (PConnecting s peer c), Some (Tcp t)) (Some PClosing, Some (Tcp (t_abort T t)))"
| he_wait: "t_state T t \<notin> {TEstablished, TCloseWait, TClosed, TTimeWait} \<Longrightarrow>
    elapsed (now h) c < TCP_HANDSHAKE_TIMEOUT \<Longrightarrow>
    handshake_edge T now h (Some (PConnecting s peer c), Some (Tcp t)) (Some (PConnecting s peer c), Some (Tcp t))"

lemma pub_connecting_step:
  assumes inv: "pub_inv L self ss" and st: "pub_states self h = Some (PConnecting s peer c)"
  shows "\<exists>self' ss'. pub_connecting_one T now h (self, ss) = Inr (self', ss') \<and>
    pub_handle_step L h (self, ss) (self', ss') \<and> handshake_edge T now h (pub_view h (self, ss)) (pub_view h (self', ss'))"
proof -
  from pub_inv_state [OF inv st] obtain t where
    t: "ss h = Some (Tcp t)" "get_tcp ss h = Inr t" "pub_state_ok L (PConnecting s peer c) t" by blast
  have st': "pub_states self h \<noteq> None" using st by simp
  let ?ctx = "\<lparr>cc_stream = s, cc_peer_addr = peer, host_to_namespace = [], close_after_drain = False\<rparr>"
  have state: "pub_connecting_one T now h (self, ss) = Inr (pub_set h st1 self, ss) \<Longrightarrow> pub_state_ok L st1 t \<Longrightarrow>
      handshake_edge T now h (pub_view h (self, ss)) (Some st1, ss h) \<Longrightarrow> ?thesis" for st1
    using pub_handle_step_state [OF inv st' t(1)] by (fastforce simp: table_view_def)
  show ?thesis
  proof (cases rule: handshake_cases [where T = T and t = t and now = "now h" and c = c])
    case up
    show ?thesis
    proof (rule state [of "PEstablished ?ctx"])
      show "pub_connecting_one T now h (self, ss) = Inr (pub_set h (PEstablished ?ctx) self, ss)"
        using up st t(2) by (simp add: pub_connecting_one_def Let_def)
      show "pub_state_ok L (PEstablished ?ctx) t" using t(3) by (simp add: pub_state_ok_def)
      show "handshake_edge T now h (pub_view h (self, ss)) (Some (PEstablished ?ctx), ss h)"
        using he_up [OF up] st t(1) by (simp add: table_view_def)
    qed
  next
    case closed
    show ?thesis
    proof (rule state [of PClosing])
      show "pub_connecting_one T now h (self, ss) = Inr (pub_set h PClosing self, ss)"
        using closed st t(2) by (auto simp: pub_connecting_one_def Let_def)
      show "handshake_edge T now h (pub_view h (self, ss)) (Some PClosing, ss h)"
        using he_refused [OF closed] st t(1) by (simp add: table_view_def)
    qed simp
  next
    case timeout
    then have "pub_connecting_one T now h (self, ss) = Inr (pub_set h PClosing self, ss(h \<mapsto> Tcp (t_abort T t)))"
      using st t(2) by (simp add: pub_connecting_one_def Let_def)
    moreover have "handshake_edge T now h (pub_view h (self, ss)) (pub_view h (pub_set h PClosing self, ss(h \<mapsto> Tcp (t_abort T t))))"
      using he_timeout [of T t now h c, OF timeout] st t(1) by (simp add: table_view_def)
    ultimately show ?thesis using pub_handle_step_set [OF inv st' pub_state_ok_closing] by blast
  next
    case wait
    show ?thesis
    proof (rule state [of "PConnecting s peer c"])
      show "pub_connecting_one T now h (self, ss) = Inr (pub_set h (PConnecting s peer c) self, ss)"
        using wait st t(2) by (simp add: pub_connecting_one_def Let_def)
      show "handshake_edge T now h (pub_view h (self, ss)) (Some (PConnecting s peer c), ss h)"
        using he_wait [of T t now h c, OF wait] st t(1) by (simp add: table_view_def)
    qed (rule t(3))
  qed
qed

lemma pub_poll_connecting_step:
  fixes self :: "('s, 'c, 'a) published_tcp" and ss :: "('t, 'u) socket_set"
  assumes "pub_inv L self ss" and "order_spec ord"
  shows "\<exists>self' ss'. pub_poll_connecting T ord now self ss = Inr (self', ss') \<and> pub_step L (self, ss) (self', ss') \<and>
    (\<forall>h. is_pconnecting (pub_states self h) \<longrightarrow> handshake_edge T now h (pub_view h (self, ss)) (pub_view h (self', ss'))) \<and>
    (\<forall>h. \<not> is_pconnecting (pub_states self h) \<longrightarrow> pub_view h (self', ss') = pub_view h (self, ss))"
proof -
  let ?s = "(self, ss)"
  have "\<exists>s'. fold_handles (pub_connecting_one T now)
        (filter (\<lambda>h. is_pconnecting (pub_states self h)) (ord (dom (pub_states self)))) ?s = Inr s' \<and>
      pub_step L (id ?s) (id s') \<and>
      (\<forall>h. pub_states (fst (id ?s)) h \<noteq> None \<longrightarrow> is_pconnecting (pub_states (fst (id ?s)) h) \<longrightarrow>
         handshake_edge T now h (pub_view h (id ?s)) (pub_view h (id s'))) \<and>
      (\<forall>h. \<not> (pub_states (fst (id ?s)) h \<noteq> None \<and> is_pconnecting (pub_states (fst (id ?s)) h)) \<longrightarrow>
         pub_view h (id s') = pub_view h (id ?s))"
  proof (rule pubt.loop_views [OF _ assms(2), where P = is_pconnecting])
    fix h and s :: "('s, 'c, 'a) published_tcp \<times> ('t, 'u) socket_set"
    assume "pub_inv L (fst (id s)) (snd (id s))" "is_pconnecting (pub_states (fst (id s)) h)"
    then show "\<exists>s'. pub_connecting_one T now h s = Inr s' \<and> pub_handle_step L h (id s) (id s') \<and>
        handshake_edge T now h (pub_view h (id s)) (pub_view h (id s'))"
      using pub_connecting_step by (cases s) (fastforce simp: is_pconnecting_iff)
  qed (use assms(1) in simp_all)
  then show ?thesis by (auto simp: pub_poll_connecting_def is_pconnecting_iff)
qed

text \<open>The stages of a pass keep the pipe.\<close>

lemma pub_read_ok:
  assumes "pub_env N T L" and "pub_state_ok L (PEstablished ctx) t" and "pub_read_host N ctx = (ctx', failed)"
  shows "pub_state_ok L (PEstablished ctx') t"
proof (cases "\<not> close_after_drain ctx \<and> length (host_to_namespace ctx) < TCP_BUF_SIZE")
  case False
  with assms(2,3) show ?thesis by (auto simp: pub_read_host_def)
next
  case True
  obtain st r where r: "sock_try_read N (cc_stream ctx) (TCP_BUF_SIZE - length (host_to_namespace ctx)) = (st, r)" by fastforce
  note read = stream_read(3,4) [OF pub_envD(1) [OF assms(1)]]
  show ?thesis
  proof (cases r)
    case (Inl e)
    with read(2) r have "lg_taken L st = lg_taken L (cc_stream ctx) \<and> lg_sent L st = lg_sent L (cc_stream ctx)" by blast
    with True Inl r assms(2,3) show ?thesis by (cases e) (auto simp: pub_read_host_def pub_state_ok_def)
  next
    case (Inr bs)
    with read(1) r have "length bs \<le> TCP_BUF_SIZE - length (host_to_namespace ctx) \<and>
        lg_taken L st = lg_taken L (cc_stream ctx) @ bs \<and> lg_sent L st = lg_sent L (cc_stream ctx)" by blast
    with True Inr r assms(2,3) show ?thesis
      by (cases "bs = []") (auto simp: pub_read_host_def pub_state_ok_def)
  qed
qed

lemma pub_send_ok:
  assumes "pub_env N T L" and "pub_state_ok L (PEstablished ctx) t"
  shows "\<exists>ctx' t' failed. pub_send_namespace T ctx t = Inr (ctx', t', failed) \<and> pub_state_ok L (PEstablished ctx') t'"
  using send_front_moves [OF pub_envD(2) [OF assms(1)], of t "host_to_namespace ctx"] assms(2)
  by (fastforce simp: pub_send_namespace_def pub_state_ok_def)

lemma pub_write_ok:
  assumes "pub_env N T L" and "pub_state_ok L (PEstablished ctx) t" and "pub_write_host N T ctx t = (ctx', t', failed)"
  shows "pub_state_ok L (PEstablished ctx') t'"
proof (cases "t_can_recv T t")
  case False
  with assms(2,3) show ?thesis by (simp add: pub_write_host_def)
next
  case True
  obtain t1 s1 f where r: "recv_to_stream N T t (cc_stream ctx) = (t1, s1, f)"
    by (cases "recv_to_stream N T t (cc_stream ctx)")
  with True assms(3) have eq: "ctx' = ctx\<lparr>cc_stream := s1\<rparr>" "t' = t1" by (simp_all add: pub_write_host_def)
  from recv_to_stream_moves [OF pub_envD(1,2) [OF assms(1)] r] assms(2) show ?thesis
    by (auto simp: eq pub_state_ok_def)
qed

lemma pub_finish_ok:
  assumes "pub_env N T L" and "pub_state_ok L (PEstablished ctx) t" and "pub_finish T failed ctx t = (ctx', t', close)"
  shows "pub_state_ok L (PEstablished ctx') t'"
    and "close \<longleftrightarrow> t_state T t' \<in> {TClosed, TTimeWait}"
proof -
  note spec = pub_envD(2) [OF assms(1)]
  have eq: "cc_stream ctx' = cc_stream ctx" "host_to_namespace ctx' = host_to_namespace ctx"
    "t' = abort_if T (close \<and> t_state T t \<notin> {TClosed, TTimeWait}) t"
    "t_state T t \<in> {TClosed, TTimeWait} \<longrightarrow> close"
    using assms(3) by (auto simp: pub_finish_def Let_def split: if_splits)
  then show "pub_state_ok L (PEstablished ctx') t'"
    using assms(2) abort_if_logs [OF spec] by (simp add: pub_state_ok_def)
  show "close \<longleftrightarrow> t_state T t' \<in> {TClosed, TTimeWait}"
    using eq(3,4) tcp_specD(6) [OF spec] by (auto simp: abort_if_def)
qed

lemma pub_shuttle_one_result:
  assumes env: "pub_env N T L" and ok: "pub_state_ok L (PEstablished ctx) t"
  shows "\<exists>ctx' t' close. pub_shuttle_one N T ctx t = Inr (ctx', t', close) \<and> pub_state_ok L (PEstablished ctx') t' \<and>
    (close \<longleftrightarrow> t_state T t' \<in> {TClosed, TTimeWait})"
proof -
  obtain c1 f1 where r: "pub_read_host N ctx = (c1, f1)" by fastforce
  from pub_send_ok [OF env pub_read_ok [OF env ok r]] obtain c2 t2 f2 where
    s: "pub_send_namespace T c1 t = Inr (c2, t2, f2)" "pub_state_ok L (PEstablished c2) t2" by blast
  obtain c3 t3 f3 where w: "pub_write_host N T c2 t2 = (c3, t3, f3)" by (cases "pub_write_host N T c2 t2")
  obtain c4 t4 close where f: "pub_finish T (f1 \<or> f2 \<or> f3) c3 t3 = (c4, t4, close)"
    by (cases "pub_finish T (f1 \<or> f2 \<or> f3) c3 t3")
  have "pub_shuttle_one N T ctx t = Inr (c4, t4, close)"
    by (simp add: pub_shuttle_one_def r s(1) w f)
  with pub_finish_ok [OF env pub_write_ok [OF env s(2) w] f] show ?thesis by blast
qed

inductive pub_shuttle_edge ::
  "('t, 'i) tcp_lib \<Rightarrow> ('s, 't, 'k) ob_logs \<Rightarrow> 's pub_state option \<times> ('t, 'u) socket option \<Rightarrow>
   's pub_state option \<times> ('t, 'u) socket option \<Rightarrow> bool"
  for T L where
  pe_open: "pub_state_ok L (PEstablished ctx') t' \<Longrightarrow> t_state T t' \<notin> {TClosed, TTimeWait} \<Longrightarrow>
    pub_shuttle_edge T L (Some (PEstablished ctx), Some (Tcp t)) (Some (PEstablished ctx'), Some (Tcp t'))"
| pe_closed: "t_state T t' \<in> {TClosed, TTimeWait} \<Longrightarrow>
    pub_shuttle_edge T L (Some (PEstablished ctx), Some (Tcp t)) (Some PClosing, Some (Tcp t'))"

lemma pub_shuttle_handle_step:
  assumes env: "pub_env N T L" and inv: "pub_inv L self ss" and st: "pub_states self h = Some (PEstablished ctx)"
  shows "\<exists>self' ss'. pub_shuttle_handle N T h (self, ss) = Inr (self', ss') \<and>
    pub_handle_step L h (self, ss) (self', ss') \<and> pub_shuttle_edge T L (pub_view h (self, ss)) (pub_view h (self', ss'))"
proof -
  from pub_inv_state [OF inv st] obtain t where
    t: "ss h = Some (Tcp t)" "get_tcp ss h = Inr t" "pub_state_ok L (PEstablished ctx) t" by blast
  from pub_shuttle_one_result [OF env t(3)] obtain ctx' t' close where
    r: "pub_shuttle_one N T ctx t = Inr (ctx', t', close)" "pub_state_ok L (PEstablished ctx') t'"
      "close \<longleftrightarrow> t_state T t' \<in> {TClosed, TTimeWait}" by blast
  let ?st = "if close then PClosing else PEstablished ctx'"
  let ?s = "(pub_set h ?st self, ss(h \<mapsto> Tcp t'))"
  have "pub_shuttle_handle N T h (self, ss) = Inr ?s"
    by (simp add: pub_shuttle_handle_def st t(2) r(1))
  moreover have ok: "pub_state_ok L ?st t'" using r(2) by simp
  have "pub_handle_step L h (self, ss) ?s"
    by (rule pub_handle_step_set [OF inv _ ok]) (simp add: st)
  moreover have "pub_shuttle_edge T L (pub_view h (self, ss)) (pub_view h ?s)"
    using r(2,3) st t(1) by (cases close) (auto simp: table_view_def intro: pe_open pe_closed)
  ultimately show ?thesis by blast
qed

lemma pub_shuttle_step:
  fixes self :: "('s, 'c, 'a) published_tcp" and ss :: "('t, 'u) socket_set"
  assumes "pub_env N T L" and "pub_inv L self ss" and "order_spec ord"
  shows "\<exists>self' ss'. pub_shuttle_established N T ord self ss = Inr (self', ss') \<and> pub_step L (self, ss) (self', ss') \<and>
    (\<forall>h. is_pestablished (pub_states self h) \<longrightarrow> pub_shuttle_edge T L (pub_view h (self, ss)) (pub_view h (self', ss'))) \<and>
    (\<forall>h. \<not> is_pestablished (pub_states self h) \<longrightarrow> pub_view h (self', ss') = pub_view h (self, ss))"
proof -
  let ?s = "(self, ss)"
  have "\<exists>s'. fold_handles (pub_shuttle_handle N T)
        (filter (\<lambda>h. is_pestablished (pub_states self h)) (ord (dom (pub_states self)))) ?s = Inr s' \<and>
      pub_step L (id ?s) (id s') \<and>
      (\<forall>h. pub_states (fst (id ?s)) h \<noteq> None \<longrightarrow> is_pestablished (pub_states (fst (id ?s)) h) \<longrightarrow>
         pub_shuttle_edge T L (pub_view h (id ?s)) (pub_view h (id s'))) \<and>
      (\<forall>h. \<not> (pub_states (fst (id ?s)) h \<noteq> None \<and> is_pestablished (pub_states (fst (id ?s)) h)) \<longrightarrow>
         pub_view h (id s') = pub_view h (id ?s))"
  proof (rule pubt.loop_views [OF _ assms(3), where P = is_pestablished])
    fix h and s :: "('s, 'c, 'a) published_tcp \<times> ('t, 'u) socket_set"
    assume "pub_inv L (fst (id s)) (snd (id s))" "is_pestablished (pub_states (fst (id s)) h)"
    then show "\<exists>s'. pub_shuttle_handle N T h s = Inr s' \<and> pub_handle_step L h (id s) (id s') \<and>
        pub_shuttle_edge T L (pub_view h (id s)) (pub_view h (id s'))"
      using pub_shuttle_handle_step [OF assms(1)] by (cases s) (fastforce simp: is_pestablished_iff)
  qed (use assms(2) in simp_all)
  then show ?thesis by (auto simp: pub_shuttle_established_def is_pestablished_iff)
qed

lemma pub_process_step:
  assumes "pub_env N T L" and "pub_inv L self ss" and "order_spec ord1" and "order_spec ord2"
  shows "\<exists>self' ss'. pub_process N T ord1 ord2 now self ss = Inr (self', ss') \<and> pub_step L (self, ss) (self', ss')"
proof -
  from pub_poll_connecting_step [OF assms(2,3), of T now] obtain self1 ss1 where
    c: "pub_poll_connecting T ord1 now self ss = Inr (self1, ss1)" "pub_step L (self, ss) (self1, ss1)" by blast
  then have "pub_inv L self1 ss1" by (simp add: owner_step_def)
  from pub_shuttle_step [OF assms(1) this assms(4)] obtain self2 ss2 where
    s: "pub_shuttle_established N T ord2 self1 ss1 = Inr (self2, ss2)" "pub_step L (self1, ss1) (self2, ss2)" by blast
  with c pubt.step_trans [OF c(2) s(2)] show ?thesis by (simp add: pub_process_def)
qed

lemma pub_cleanup_one_step:
  assumes inv: "pub_inv L self ss" and st: "pub_states self h = Some st"
  shows "\<exists>self' ss'. pub_cleanup_one h (self, ss) = Inr (self', ss') \<and>
    pub_handle_step L h (self, ss) (self', ss') \<and> pub_view h (self', ss') = (None, None)"
proof -
  from pub_inv_state [OF inv st] obtain t where t: "ss h = Some (Tcp t)" by blast
  note p = pub_inv_ports [OF inv]
  have h: "h \<in> dom (pub_states self)" using st by auto
  with p(4) obtain q where q: "handle_to_port self h = Some q" by blast
  let ?self = "self\<lparr>pub_states := (pub_states self)(h := None), handle_to_port := (handle_to_port self)(h := None),
    ports := release (ports self) q\<rparr>"
  have eq: "pub_cleanup_one h (self, ss) = Inr (?self, ss(h := None))"
    by (simp add: pub_cleanup_one_def Let_def q ss_remove_def t)
  have "pub_inv L ?self (ss(h := None))"
    using inv pa.table_free [OF p(1,2,3) q] unfolding pub_inv_def by auto
  moreover have "keeps_others (pub_handles self) ss (pub_handles ?self) (ss(h := None))"
    using h by (auto simp: keeps_others_def pub_handles_def)
  ultimately show ?thesis
    using eq by (simp add: handle_step_def owner_step_def table_view_def)
qed

lemma pub_cleanup_step:
  fixes self :: "('s, 'c, 'a) published_tcp" and ss :: "('t, 'u) socket_set"
  assumes "pub_inv L self ss" and "order_spec ord"
  shows "\<exists>self' ss'. pub_cleanup ord self ss = Inr (self', ss') \<and> pub_step L (self, ss) (self', ss') \<and>
    (\<forall>h. pub_view h (self', ss') = (if pub_states self h = Some PClosing then (None, None) else pub_view h (self, ss)))"
proof -
  let ?s = "(self, ss)"
  have "\<exists>s'. fold_handles pub_cleanup_one
        (filter (\<lambda>h. is_pclosing (pub_states self h)) (ord (dom (pub_states self)))) ?s = Inr s' \<and>
      pub_step L (id ?s) (id s') \<and>
      (\<forall>h. pub_states (fst (id ?s)) h \<noteq> None \<longrightarrow> is_pclosing (pub_states (fst (id ?s)) h) \<longrightarrow>
         pub_view h (id s') = (None, None)) \<and>
      (\<forall>h. \<not> (pub_states (fst (id ?s)) h \<noteq> None \<and> is_pclosing (pub_states (fst (id ?s)) h)) \<longrightarrow>
         pub_view h (id s') = pub_view h (id ?s))"
  proof (rule pubt.loop_views [OF _ assms(2), where P = is_pclosing and E = "\<lambda>h v v'. v' = (None, None)"])
    fix h and s :: "('s, 'c, 'a) published_tcp \<times> ('t, 'u) socket_set"
    assume "pub_inv L (fst (id s)) (snd (id s))" "is_pclosing (pub_states (fst (id s)) h)"
    then show "\<exists>s'. pub_cleanup_one h s = Inr s' \<and> pub_handle_step L h (id s) (id s') \<and> pub_view h (id s') = (None, None)"
      using pub_cleanup_one_step by (cases s) (fastforce simp: is_pclosing_iff)
  qed (use assms(1) in simp_all)
  then show ?thesis by (fastforce simp: pub_cleanup_def is_pclosing_iff)
qed

lemma pub_ready_total:
  assumes "pub_inv L self ss"
  shows "\<exists>b. fold_handles (pub_ready_one N T self ss) hs ready = Inr b"
proof -
  have "\<exists>b. pub_ready_one N T self ss h r = Inr b" for h r
  proof (cases "pub_states self h")
    case (Some st)
    from pub_inv_state [OF assms Some] obtain t where t: "get_tcp ss h = Inr t" by blast
    show ?thesis by (cases st) (simp_all add: pub_ready_one_def Some t Let_def)
  qed (simp add: pub_ready_one_def)
  then show ?thesis
    using fold_handles_inv [where I = "\<lambda>_. True" and f = "pub_ready_one N T self ss" and hs = hs and s = ready] by simp
qed

lemma pub_poll_ready_step:
  assumes "chan_spec C waiting L" and "pub_inv L self ss"
  shows "\<exists>self' ready. pub_poll_ready N T C ord self ss = Inr (self', ready) \<and> pub_inv L self' ss \<and>
    pub_handles self' = pub_handles self"
proof -
  obtain c polled where c: "chan_poll_recv C (accepted_rx self) = (c, polled)" by fastforce
  define self1 where "self1 = (case polled of Ready (Some a) \<Rightarrow> self\<lparr>accepted_rx := c, pending := pending self @ [a]\<rparr>
    | _ \<Rightarrow> self\<lparr>accepted_rx := c\<rparr>)"
  have "fresh_accepted L a" if "polled = Ready (Some a)" for a
    using assms(1) c that unfolding chan_spec_def by blast
  then have inv: "pub_inv L self1 ss" and h: "pub_handles self1 = pub_handles self"
    using assms(2) by (auto simp: self1_def pub_inv_def pub_handles_def split: poll.splits option.splits)
  define ready where "ready = (case polled of Ready (Some a) \<Rightarrow> True | _ \<Rightarrow> False)"
  have r: "pub_poll_ready N T C ord self ss =
      result_bind (fold_handles (pub_ready_one N T self1 ss) (ord (dom (pub_states self1))) ready) (\<lambda>ready. Inr (self1, ready))"
    by (simp add: pub_poll_ready_def c self1_def ready_def Let_def split: poll.splits option.splits)
  from pub_ready_total [OF inv] obtain b where
    "fold_handles (pub_ready_one N T self1 ss) (ord (dom (pub_states self1))) ready = Inr b" by blast
  with r inv h show ?thesis by simp
qed

section \<open>Properties\<close>

text \<open>
  C10. Attaching is safe: however many connections were accepted, draining the channel ends and
  connecting them does not panic; the ports in use are afterwards exactly the source ports of
  the live connections, no two of which share one, also when the pool is exhausted or a connect
  fails half-way; sockets of other components are untouched.
\<close>

theorem attach_keeps_ports:
  assumes "pub_env N T L" and "chan_spec C waiting L" and "alloc_spec alloc"
    and "pub_inv L self ss" and "finite (dom ss)"
  shows "\<exists>self' ss' i'. attach_accepted T C alloc now self ss i = Some (Inr (self', ss', i')) \<and> pub_inv L self' ss' \<and>
    used (ports self') = ran (handle_to_port self') \<and> inj_on (handle_to_port self') (dom (pub_states self')) \<and>
    keeps_others (pub_handles self) ss (pub_handles self') ss'"
proof -
  from attach_accepted_step [OF assms, of now i] obtain self' ss' i' where
    a: "attach_accepted T C alloc now self ss i = Some (Inr (self', ss', i'))" "pub_step L (self, ss) (self', ss')" by blast
  then have "pub_inv L self' ss'" by (simp add: owner_step_def)
  with a pub_inv_ports [OF this] show ?thesis by (auto simp: owner_step_def)
qed

text \<open>
  C11. A pass over the published connections: every handshake that is complete becomes a forwarded
  connection, a refused or late one is scheduled for removal; each forwarded connection stays a
  faithful pipe, or is closed and scheduled for removal; nothing panics.
\<close>

theorem published_pass:
  assumes "pub_env N T L" and "pub_inv L self ss" and "order_spec ord1" and "order_spec ord2"
  shows "\<exists>self1 ss1 self' ss'. pub_poll_connecting T ord1 now self ss = Inr (self1, ss1) \<and>
    pub_process N T ord1 ord2 now self ss = Inr (self', ss') \<and> pub_inv L self' ss' \<and>
    (\<forall>h. is_pconnecting (pub_states self h) \<longrightarrow> handshake_edge T now h (pub_view h (self, ss)) (pub_view h (self1, ss1))) \<and>
    (\<forall>h. is_pestablished (pub_states self1 h) \<longrightarrow> pub_shuttle_edge T L (pub_view h (self1, ss1)) (pub_view h (self', ss')))"
proof -
  from pub_poll_connecting_step [OF assms(2,3), of T now] obtain self1 ss1 where
    c: "pub_poll_connecting T ord1 now self ss = Inr (self1, ss1)" "pub_step L (self, ss) (self1, ss1)"
      "\<forall>h. is_pconnecting (pub_states self h) \<longrightarrow> handshake_edge T now h (pub_view h (self, ss)) (pub_view h (self1, ss1))"
    by blast
  then have "pub_inv L self1 ss1" by (simp add: owner_step_def)
  from pub_shuttle_step [OF assms(1) this assms(4)] obtain self2 ss2 where
    s: "pub_shuttle_established N T ord2 self1 ss1 = Inr (self2, ss2)" "pub_step L (self1, ss1) (self2, ss2)"
      "\<forall>h. is_pestablished (pub_states self1 h) \<longrightarrow> pub_shuttle_edge T L (pub_view h (self1, ss1)) (pub_view h (self2, ss2))"
    by blast
  have "pub_process N T ord1 ord2 now self ss = Inr (self2, ss2)" by (simp add: pub_process_def c(1) s(1))
  moreover have "pub_inv L self2 ss2" using s(2) by (simp add: owner_step_def)
  ultimately show ?thesis using c(1,3) s(3) by blast
qed

text \<open>
  Cleanup removes exactly the closing connections and gives exactly their source ports back to
  the pool.
\<close>

lemma published_cleanup_exact:
  assumes "pub_inv L self ss" and "order_spec ord"
  shows "\<exists>self' ss'. pub_cleanup ord self ss = Inr (self', ss') \<and> pub_inv L self' ss' \<and>
    (\<forall>h. pub_view h (self', ss') = (if pub_states self h = Some PClosing then (None, None) else pub_view h (self, ss))) \<and>
    used (ports self') = ran (handle_to_port self') \<and> dom (handle_to_port self') = dom (pub_states self')"
  using pub_cleanup_step [OF assms] pub_inv_ports by (fastforce simp: owner_step_def)

section \<open>Witnesses\<close>

text \<open>A channel as the list of its messages.\<close>

definition list_chan :: "(script, script accepted_connection list) chan_lib" where
  "list_chan = \<lparr>chan_new = (\<lambda>n. []),
     chan_try_recv = (\<lambda>c. case c of [] \<Rightarrow> ([], None) | a # c \<Rightarrow>
       (c, Some (a\<lparr>ac_stream := \<lparr>script_in = script_in (ac_stream a), script_sent = [], script_taken = []\<rparr>\<rparr>))),
     chan_poll_recv = (\<lambda>c. (c, Pending))\<rparr>"

lemma list_chan_spec: "chan_spec list_chan length sample_logs"
  by (auto simp: chan_spec_def list_chan_def fresh_accepted_def sample_logs_def split: list.splits)

lemma sample_pub_env: "pub_env (script_lib input) pipe_tcp sample_logs"
  by (simp add: pub_env_def sample_logs_def script_lib_spec pipe_tcp_spec pipe_fresh_spec)

definition sample_accepted :: "script accepted_connection" where
  "sample_accepted = \<lparr>ac_stream = \<lparr>script_in = [], script_sent = [], script_taken = []\<rparr>, ac_peer_addr = (V4 1, 2),
     ac_spec = \<lparr>host_ip = 0, host_port = 8080, namespace_port = 80\<rparr>\<rparr>"

definition sample_published ::
  "script pub_state \<Rightarrow> (script, script accepted_connection list, unit) published_tcp" where
  "sample_published st = \<lparr>pub_states = [7 \<mapsto> st], handle_to_port = [7 \<mapsto> 50000],
     ports = \<lparr>next_port = 50001, used = {50000}\<rparr>, accepted_rx = [sample_accepted], pending = [], accept_tasks = []\<rparr>"

lemma sample_pub_inv:
  "pub_state_ok sample_logs st t \<Longrightarrow> pub_inv sample_logs (sample_published st) (sample_sockets t)"
  by (auto simp: pub_inv_def sample_published_def sample_sockets_def ran_def allocator_inv_def pool_ports_def
      PORT_MIN_def PORT_MAX_def split: if_splits)

theorem attach_keeps_ports_witness:
  "\<exists>self' ss' i'. attach_accepted pipe_tcp list_chan least_alloc (\<lambda>h. 0) (sample_published PClosing)
       (sample_sockets (sample_pipe TClosed [])) () = Some (Inr (self', ss', i')) \<and>
     used (ports self') = ran (handle_to_port self')"
proof -
  have "finite (dom (sample_sockets (sample_pipe TClosed [])))" by (simp add: sample_sockets_def)
  from attach_keeps_ports [OF sample_pub_env list_chan_spec least_alloc_spec
      sample_pub_inv [OF pub_state_ok_closing] this] show ?thesis by blast
qed

theorem published_pass_witness:
  "\<exists>self1 ss1 self' ss'. pub_poll_connecting pipe_tcp sorted_list_of_set (\<lambda>h. 0)
       (sample_published (PConnecting (ac_stream sample_accepted) (V4 1, 2) 0))
       (sample_sockets (sample_pipe TEstablished [])) = Inr (self1, ss1) \<and>
     is_pestablished (pub_states self1 7) \<and>
     pub_process (script_lib []) pipe_tcp sorted_list_of_set sorted_list_of_set (\<lambda>h. 0)
       (sample_published (PConnecting (ac_stream sample_accepted) (V4 1, 2) 0))
       (sample_sockets (sample_pipe TEstablished [])) = Inr (self', ss')"
proof -
  let ?self = "sample_published (PConnecting (ac_stream sample_accepted) (V4 1, 2) 0)"
  let ?ss = "sample_sockets (sample_pipe TEstablished [])"
  have "pub_inv sample_logs ?self ?ss"
    by (rule sample_pub_inv) (simp add: pub_state_ok_def sample_logs_def sample_pipe_def sample_accepted_def)
  from published_pass [OF sample_pub_env [of "[]"] this sorted_order sorted_order, of "\<lambda>h. 0"] obtain self1 ss1 self' ss' where
    p: "pub_poll_connecting pipe_tcp sorted_list_of_set (\<lambda>h. 0) ?self ?ss = Inr (self1, ss1)"
      "pub_process (script_lib []) pipe_tcp sorted_list_of_set sorted_list_of_set (\<lambda>h. 0) ?self ?ss = Inr (self', ss')"
    and e: "\<forall>h. is_pconnecting (pub_states ?self h) \<longrightarrow>
      handshake_edge pipe_tcp (\<lambda>h. 0) h (pub_view h (?self, ?ss)) (pub_view h (self1, ss1))" by blast
  have "handshake_edge pipe_tcp (\<lambda>h. 0) 7 (pub_view 7 (?self, ?ss)) (pub_view 7 (self1, ss1))"
    by (rule e [rule_format]) (simp add: is_pconnecting_iff sample_published_def)
  then have "is_pestablished (pub_states self1 7)"
    by cases (auto simp: table_view_def sample_published_def sample_sockets_def sample_pipe_def pipe_tcp_def is_pestablished_iff)
  with p show ?thesis by blast
qed

end
