(* ===== verification/Event_Loop.thy ===== *)
theory Event_Loop
  imports Published_Tcp
begin

text \<open>
  The event loop of \<open>src/src/event_loop.rs\<close>: it owns the TUN device, the network interface and the
  socket set, waits for work, and in each tick drives the stack and the three components that
  own sockets. The libraries it runs on are gathered in one record, as are the choices that are
  made outside the program (iteration orders, clock readings).
\<close>

unbundle bit_operations_syntax

section \<open>The libraries and the state\<close>

text \<open>The interface of the stack; \<open>iface_poll_delay\<close> is in microseconds.\<close>

record ('i, 't, 'u, 'w) iface_lib =
  iface_new :: "64 word \<Rightarrow> instant \<Rightarrow> 'i"
  iface_push_addr :: "'i \<Rightarrow> ipv4 \<Rightarrow> u8 \<Rightarrow> 'i option"
  iface_default_route :: "'i \<Rightarrow> ipv4 \<Rightarrow> 'i option"
  iface_set_any_ip :: "'i \<Rightarrow> bool \<Rightarrow> 'i"
  iface_poll :: "'i \<Rightarrow> instant \<Rightarrow> 'w \<times> tun_device \<Rightarrow> ('t, 'u) socket_set \<Rightarrow> 'i \<times> ('w \<times> tun_device) \<times> ('t, 'u) socket_set"
  iface_poll_delay :: "'i \<Rightarrow> instant \<Rightarrow> ('t, 'u) socket_set \<Rightarrow> nat option"
  async_fd_new :: "'w \<Rightarrow> int \<Rightarrow> bool"

record ('s, 't, 'i, 'u, 'm, 'r, 'k, 'rs, 'c, 'l, 'a, 'w) libs =
  net :: "'s net_lib"
  tcp :: "('t, 'i) tcp_lib"
  udp :: "('u, 'm) udp_lib"
  tasks :: "('r, 'k, 's) task_lib"
  regex :: "'rs regex_lib"
  chan :: "('s, 'c) chan_lib"
  acceptor :: "('r, 'l, 'c, 'a) accept_lib"
  iface :: "('i, 't, 'u, 'w) iface_lib"
  tun :: "'w tun_lib"
  new_handle :: "('t, 'u) alloc"

text \<open>The state of the loop, with the runtime and the kernel it runs on.\<close>

record ('s, 't, 'i, 'u, 'r, 'k, 'rs, 'c, 'a, 'w) event_loop =
  el_config :: "'rs app_config"
  el_device :: tun_device
  el_interface :: 'i
  el_sockets :: "('t, 'u) socket_set"
  el_dns :: dns_interceptor
  el_outbound :: "('k, 's) outbound_tcp"
  el_published :: "('s, 'c, 'a) published_tcp"
  el_runtime :: 'r
  el_kernel :: 'w

text \<open>
  What is decided outside: the iteration order of the \<open>i\<close>-th loop over a hash map, the clock as
  the \<open>i\<close>-th operation of a tick reads it, and the time of the polls of the interface.
\<close>

record schedule =
  loop_order :: "nat \<Rightarrow> order"
  reading :: "nat \<Rightarrow> clock"
  poll_time :: "nat \<Rightarrow> instant"

definition schedule_ok :: "schedule \<Rightarrow> bool" where
  "schedule_ok sc \<longleftrightarrow> (\<forall>i. order_spec (loop_order sc i))"

section \<open>Construction\<close>

definition MAX_POLL_DELAY :: nat where "MAX_POLL_DELAY = from_millis 100"

definition DEFAULT_POLL_DELAY :: nat where "DEFAULT_POLL_DELAY = 50000"

definition rand_seed :: "nat \<Rightarrow> 64 word" where
  "rand_seed nanos = of_nat nanos XOR 0xdeadbeefcafebabe"

datatype el_error = TunDeviceFailed | AsyncFdFailed | ElPanic

definition el_new ::
  "('s, 't, 'i, 'u, 'm, 'r, 'k, 'rs, 'c, 'l, 'a, 'w) libs \<Rightarrow> int \<Rightarrow> 'rs app_config \<Rightarrow> 'l bound_publish list \<Rightarrow>
   nat \<Rightarrow> instant \<Rightarrow> 'r \<Rightarrow> 'w \<Rightarrow> el_error + ('s, 't, 'i, 'u, 'r, 'k, 'rs, 'c, 'a, 'w) event_loop" where
  "el_new P tun_fd config registered wall now rt w =
     (case tun_new (tun P) w tun_fd of
        (w, None) \<Rightarrow> Inl TunDeviceFailed
      | (w, Some device) \<Rightarrow>
          let interface = iface_new (iface P) (rand_seed wall) now in
          result_bind (or_err ElPanic (iface_push_addr (iface P) interface TUN_GW TUN_PREFIX)) (\<lambda>interface.
          result_bind (or_err ElPanic (iface_default_route (iface P) interface TUN_GW)) (\<lambda>interface.
          let interface = iface_set_any_ip (iface P) interface True in
          if \<not> async_fd_new (iface P) w tun_fd then Inl AsyncFdFailed
          else
            result_bind (map_sum (\<lambda>_. ElPanic) id (dns_new (udp P) (new_handle P) Map.empty)) (\<lambda>(dns, sockets).
            case pub_new (chan P) (acceptor P) registered rt of
              (rt, published) \<Rightarrow>
                Inr \<lparr>el_config = config, el_device = device, el_interface = interface, el_sockets = sockets,
                     el_dns = dns, el_outbound = ob_new, el_published = published,
                     el_runtime = rt, el_kernel = w\<rparr>))))"

section \<open>Waiting\<close>

text \<open>How long the loop sleeps at most, in nanoseconds.\<close>

definition wait_timeout :: "nat option \<Rightarrow> nat" where
  "wait_timeout delay =
     (let poll_delay = (case delay of Some d \<Rightarrow> d | None \<Rightarrow> DEFAULT_POLL_DELAY);
          total_millis = poll_delay div 1000
      in min (max (from_millis total_millis) (from_millis 1)) MAX_POLL_DELAY)"

text \<open>The future that polls the connections.\<close>

definition poll_connections ::
  "('s, 't, 'i, 'u, 'm, 'r, 'k, 'rs, 'c, 'l, 'a, 'w) libs \<Rightarrow> schedule \<Rightarrow>
   ('s, 't, 'i, 'u, 'r, 'k, 'rs, 'c, 'a, 'w) event_loop \<Rightarrow>
   panic + (('s, 't, 'i, 'u, 'r, 'k, 'rs, 'c, 'a, 'w) event_loop \<times> bool)" where
  "poll_connections P sc self =
     result_bind (ob_poll_ready (net P) (tcp P) (tasks P) (loop_order sc 0) (loop_order sc 1)
         (el_outbound self) (el_sockets self) (el_runtime self)) (\<lambda>(outbound, sockets, rt, ob_ready).
     let self = self\<lparr>el_outbound := outbound, el_sockets := sockets, el_runtime := rt\<rparr> in
     result_bind (pub_poll_ready (net P) (tcp P) (chan P) (loop_order sc 2) (el_published self) (el_sockets self))
       (\<lambda>(published, pub_ready).
     Inr (self\<lparr>el_published := published\<rparr>, ob_ready \<or> pub_ready)))"

text \<open>
  The \<open>select!\<close> (biased): it is polled each time something wakes the task, in the order shutdown,
  connections, TUN device, timer, and completes with the first branch that is ready. A wake-up
  says which of the others are ready and how long, in nanoseconds, the loop has been waiting;
  without one, the loop is still waiting.
\<close>

record wake_up =
  shutdown_changed :: bool
  tun_readable :: bool
  woken_after :: nat
  wake_schedule :: schedule

fun select_loop ::
  "('s, 't, 'i, 'u, 'm, 'r, 'k, 'rs, 'c, 'l, 'a, 'w) libs \<Rightarrow> nat \<Rightarrow> wake_up list \<Rightarrow>
   ('s, 't, 'i, 'u, 'r, 'k, 'rs, 'c, 'a, 'w) event_loop \<Rightarrow>
   panic + (('s, 't, 'i, 'u, 'r, 'k, 'rs, 'c, 'a, 'w) event_loop \<times> bool)" where
  "select_loop P timeout [] self = Inr (self, False)"
| "select_loop P timeout (wake # wakes) self =
     (if shutdown_changed wake then Inr (self, True)
      else result_bind (poll_connections P (wake_schedule wake) self) (\<lambda>(self, ready).
        if ready \<or> tun_readable wake \<or> timeout \<le> woken_after wake then Inr (self, True)
        else select_loop P timeout wakes self))"

text \<open>
  \<open>None\<close> as the answer: still waiting. The two flags are the shutdown signal as it is read before
  and after, \<open>now\<close> the clock as the wait begins.
\<close>

definition wait_for_work ::
  "('s, 't, 'i, 'u, 'm, 'r, 'k, 'rs, 'c, 'l, 'a, 'w) libs \<Rightarrow> instant \<Rightarrow> bool \<Rightarrow> wake_up list \<Rightarrow> bool \<Rightarrow>
   ('s, 't, 'i, 'u, 'r, 'k, 'rs, 'c, 'a, 'w) event_loop \<Rightarrow>
   panic + (('s, 't, 'i, 'u, 'r, 'k, 'rs, 'c, 'a, 'w) event_loop \<times> bool option)" where
  "wait_for_work P now shutdown wakes shutdown' self =
     (if shutdown then Inr (self, Some False)
      else
        let timeout = wait_timeout (iface_poll_delay (iface P) (el_interface self) now (el_sockets self)) in
        result_bind (select_loop P timeout wakes self) (\<lambda>(self, completed).
        Inr (self, if completed then Some (\<not> shutdown') else None)))"

section \<open>A tick\<close>

text \<open>Sequencing of operations that may panic or not return.\<close>

definition tick_bind :: "(panic + 'x) option \<Rightarrow> ('x \<Rightarrow> (panic + 'y) option) \<Rightarrow> (panic + 'y) option" where
  "tick_bind m f = (case m of None \<Rightarrow> None | Some (Inl p) \<Rightarrow> Some (Inl p) | Some (Inr x) \<Rightarrow> f x)"

lemma tick_bind_simps [simp]:
  "tick_bind (Some (Inr x)) f = f x" "tick_bind (Some (Inl p)) f = Some (Inl p)" "tick_bind None f = None"
  by (simp_all add: tick_bind_def)

definition poll_interface ::
  "('s, 't, 'i, 'u, 'm, 'r, 'k, 'rs, 'c, 'l, 'a, 'w) libs \<Rightarrow> instant \<Rightarrow>
   ('s, 't, 'i, 'u, 'r, 'k, 'rs, 'c, 'a, 'w) event_loop \<Rightarrow> ('s, 't, 'i, 'u, 'r, 'k, 'rs, 'c, 'a, 'w) event_loop" where
  "poll_interface P now self =
     (case iface_poll (iface P) (el_interface self) now (el_kernel self, el_device self) (el_sockets self) of
        (interface, (w, device), sockets) \<Rightarrow>
          self\<lparr>el_interface := interface, el_kernel := w, el_device := device, el_sockets := sockets\<rparr>)"

definition tick ::
  "('s, 't, 'i, 'u, 'm, 'r, 'k, 'rs, 'c, 'l, 'a, 'w) libs \<Rightarrow> schedule \<Rightarrow>
   ('s, 't, 'i, 'u, 'r, 'k, 'rs, 'c, 'a, 'w) event_loop \<Rightarrow>
   (panic + ('s, 't, 'i, 'u, 'r, 'k, 'rs, 'c, 'a, 'w) event_loop) option" where
  "tick P sc self =
     tick_bind (map_option Inr (read_packets (tun P) (el_kernel self) (el_device self))) (\<lambda>(w, device).
     let self = self\<lparr>el_kernel := w, el_device := device\<rparr> in
     tick_bind (Some (observe_syns (tcp P) (new_handle P) (reading sc 0) (el_device self) (el_outbound self) (el_sockets self)))
       (\<lambda>(outbound, sockets).
     let self = self\<lparr>el_outbound := outbound, el_sockets := sockets\<rparr> in
     tick_bind (attach_accepted (tcp P) (chan P) (new_handle P) (reading sc 1) (el_published self) (el_sockets self) (el_interface self))
       (\<lambda>(published, sockets, interface).
     let self = self\<lparr>el_published := published, el_sockets := sockets, el_interface := interface\<rparr>;
         self = poll_interface P (poll_time sc 0) self in
     tick_bind (dns_process (udp P) (el_dns self) (el_sockets self)) (\<lambda>(dns, sockets).
     let self = self\<lparr>el_dns := dns, el_sockets := sockets\<rparr> in
     tick_bind (Some (ob_process (net P) (tcp P) (tasks P) (regex P) (loop_order sc 0) (loop_order sc 1) (loop_order sc 2)
         (reading sc 2) (el_dns self) (el_config self) (el_outbound self) (el_sockets self) (el_runtime self)))
       (\<lambda>(outbound, sockets, rt).
     let self = self\<lparr>el_outbound := outbound, el_sockets := sockets, el_runtime := rt\<rparr> in
     tick_bind (Some (pub_process (net P) (tcp P) (loop_order sc 3) (loop_order sc 4) (reading sc 3)
         (el_published self) (el_sockets self))) (\<lambda>(published, sockets).
     let self = self\<lparr>el_published := published, el_sockets := sockets\<rparr>;
         self = poll_interface P (poll_time sc 1) self in
     tick_bind (Some (ob_cleanup (loop_order sc 5) (el_outbound self) (el_sockets self))) (\<lambda>(outbound, sockets).
     let self = self\<lparr>el_outbound := outbound, el_sockets := sockets\<rparr> in
     tick_bind (Some (pub_cleanup (loop_order sc 6) (el_published self) (el_sockets self))) (\<lambda>(published, sockets).
     Some (Inr (self\<lparr>el_published := published, el_sockets := sockets\<rparr>))))))))))"

section \<open>The loop\<close>

text \<open>
  One round: the clock and the shutdown signal before waiting, the wake-ups, the signal afterwards,
  and the choices of the tick. The result says whether the loop has ended.
\<close>

record round =
  rd_now :: instant
  rd_shutdown :: bool
  rd_wakes :: "wake_up list"
  rd_shutdown' :: bool
  rd_schedule :: schedule

primrec el_run ::
  "('s, 't, 'i, 'u, 'm, 'r, 'k, 'rs, 'c, 'l, 'a, 'w) libs \<Rightarrow> round list \<Rightarrow>
   ('s, 't, 'i, 'u, 'r, 'k, 'rs, 'c, 'a, 'w) event_loop \<Rightarrow>
   (panic + (('s, 't, 'i, 'u, 'r, 'k, 'rs, 'c, 'a, 'w) event_loop \<times> bool)) option" where
  "el_run P [] self = Some (Inr (self, False))"
| "el_run P (r # rs) self =
     tick_bind (Some (wait_for_work P (rd_now r) (rd_shutdown r) (rd_wakes r) (rd_shutdown' r) self)) (\<lambda>(self, answer).
       case answer of
         None \<Rightarrow> Some (Inr (self, False))
       | Some False \<Rightarrow> Some (Inr (self, True))
       | Some True \<Rightarrow> tick_bind (tick P (rd_schedule r) self) (\<lambda>self. el_run P rs self))"

text \<open>
  A record of the run for the properties: the pool of fake addresses at the end of every tick, which
  is the pool that the tick looked the addresses of new connections up in.
\<close>

primrec tick_pools ::
  "('s, 't, 'i, 'u, 'm, 'r, 'k, 'rs, 'c, 'l, 'a, 'w) libs \<Rightarrow> round list \<Rightarrow>
   ('s, 't, 'i, 'u, 'r, 'k, 'rs, 'c, 'a, 'w) event_loop \<Rightarrow> fake_dns list" where
  "tick_pools P [] self = []"
| "tick_pools P (r # rs) self =
     (case wait_for_work P (rd_now r) (rd_shutdown r) (rd_wakes r) (rd_shutdown' r) self of
        Inr (self, Some True) \<Rightarrow>
          (case tick P (rd_schedule r) self of
             Some (Inr self) \<Rightarrow> dns_pool (el_dns self) # tick_pools P rs self
           | _ \<Rightarrow> [])
      | _ \<Rightarrow> [])"

text \<open>The entry point: construction, then the loop.\<close>

definition run_event_loop ::
  "('s, 't, 'i, 'u, 'm, 'r, 'k, 'rs, 'c, 'l, 'a, 'w) libs \<Rightarrow> int \<Rightarrow> 'rs app_config \<Rightarrow> 'l bound_publish list \<Rightarrow>
   nat \<Rightarrow> instant \<Rightarrow> 'r \<Rightarrow> 'w \<Rightarrow> round list \<Rightarrow>
   (el_error + (('s, 't, 'i, 'u, 'r, 'k, 'rs, 'c, 'a, 'w) event_loop \<times> bool)) option" where
  "run_event_loop P tun_fd config registered wall now rt w rs =
     (case el_new P tun_fd config registered wall now rt w of
        Inl e \<Rightarrow> Some (Inl e)
      | Inr self \<Rightarrow> map_option (map_sum (\<lambda>_. ElPanic) id) (el_run P rs self))"

section \<open>What the loop relies on\<close>

text \<open>Packets waiting in the kernel: every successful read takes one.\<close>

definition tun_spec :: "'w tun_lib \<Rightarrow> ('w \<Rightarrow> nat) \<Rightarrow> bool" where
  "tun_spec K backlog \<longleftrightarrow>
     (\<forall>w f n w' r buf. sys_read K w f n = (w', r, buf) \<longrightarrow> 0 < r \<longrightarrow> backlog w' < backlog w)"

lemma read_packets_total:
  assumes "tun_spec K backlog"
  shows "\<exists>w' device'. read_packets K w device = Some (w', device')"
proof (induction "backlog w" arbitrary: w device rule: less_induct)
  case less
  obtain w1 r buf where r: "sys_read K w (fd device) (MTU + 100) = (w1, r, buf)"
    by (cases "sys_read K w (fd device) (MTU + 100)")
  show ?case
  proof (cases "0 < r")
    case True
    with assms r have "backlog w1 < backlog w" unfolding tun_spec_def by blast
    from less.hyps [OF this] True r show ?thesis
      by (subst read_packets.simps) (simp add: tun_poll_read_def)
  next
    case False
    with r show ?thesis by (subst read_packets.simps) (simp add: tun_poll_read_def)
  qed
qed

text \<open>
  Polling the interface moves packets: it neither adds nor removes sockets nor changes their kind,
  and the bytes that the program queued or removed so far and the local endpoint of a connection
  are not affected.
\<close>

definition iface_spec :: "('i, 't, 'u, 'w) iface_lib \<Rightarrow> ('s, 't, 'k) ob_logs \<Rightarrow> bool" where
  "iface_spec I L \<longleftrightarrow>
     (\<forall>i now d ss i' d' ss' h. iface_poll I i now d ss = (i', d', ss') \<longrightarrow>
        same_logs (lg_queued L) (lg_removed L) (lg_local L) (ss h) (ss' h))"

definition el_env ::
  "('s, 't, 'i, 'u, 'm, 'r, 'k, 'rs, 'c, 'l, 'a, 'w) libs \<Rightarrow> ('s, 'b) buf_lib \<Rightarrow> ('s, 't, 'k) ob_logs \<Rightarrow>
   ('u \<Rightarrow> nat) \<Rightarrow> ('c \<Rightarrow> nat) \<Rightarrow> ('w \<Rightarrow> nat) \<Rightarrow> bool" where
  "el_env P B L datagrams messages backlog \<longleftrightarrow>
     ob_env (net P) B (tcp P) (tasks P) L \<and> udp_spec (udp P) datagrams \<and> chan_spec (chan P) messages L \<and>
     tun_spec (tun P) backlog \<and> iface_spec (iface P) L \<and> alloc_spec (new_handle P)"

lemma el_envD:
  assumes "el_env P B L datagrams messages backlog"
  shows "ob_env (net P) B (tcp P) (tasks P) L" "udp_spec (udp P) datagrams" "chan_spec (chan P) messages L"
    "tun_spec (tun P) backlog" "iface_spec (iface P) L" "alloc_spec (new_handle P)" "pub_env (net P) (tcp P) L"
  using assms by (simp_all add: el_env_def ob_env_def pub_env_def)

section \<open>The invariant of the loop\<close>

text \<open>
  Every component's invariant, and the handles of the socket set are exactly those of the
  components, each owned by one of them: no socket is leaked, none is shared. \<open>past\<close> are the pools
  of the ticks so far.
\<close>

definition owners_ok ::
  "('s, 't, 'i, 'u, 'm, 'r, 'k, 'rs, 'c, 'l, 'a, 'w) libs \<Rightarrow> ('s, 't, 'k) ob_logs \<Rightarrow> fake_dns set \<Rightarrow> 'rs app_config \<Rightarrow>
   dns_interceptor \<Rightarrow> ('k, 's) outbound_tcp \<Rightarrow> ('s, 'c, 'a) published_tcp \<Rightarrow> ('t, 'u) socket_set \<Rightarrow> bool" where
  "owners_ok P L past config dns ob pub ss \<longleftrightarrow>
     dns_inv dns ss \<and> ob_inv (regex P) config (net P) L past ob ss \<and> pub_inv L pub ss \<and> finite (dom ss) \<and>
     dom ss = {dns_handle dns} \<union> ob_handles ob \<union> pub_handles pub \<and>
     {dns_handle dns} \<inter> ob_handles ob = {} \<and> {dns_handle dns} \<inter> pub_handles pub = {} \<and>
     ob_handles ob \<inter> pub_handles pub = {}"

lemma owners_okD:
  assumes "owners_ok P L past config dns ob pub ss"
  shows "dns_inv dns ss" "ob_inv (regex P) config (net P) L past ob ss" "pub_inv L pub ss" "finite (dom ss)"
  using assms unfolding owners_ok_def by blast+

definition el_inv ::
  "('s, 't, 'i, 'u, 'm, 'r, 'k, 'rs, 'c, 'l, 'a, 'w) libs \<Rightarrow> ('s, 't, 'k) ob_logs \<Rightarrow> fake_dns set \<Rightarrow>
   ('s, 't, 'i, 'u, 'r, 'k, 'rs, 'c, 'a, 'w) event_loop \<Rightarrow> bool" where
  "el_inv P L past self \<longleftrightarrow>
     owners_ok P L past (el_config self) (el_dns self) (el_outbound self) (el_published self) (el_sockets self)"

lemma owners_mono: "owners_ok P L past config dns ob pub ss \<Longrightarrow> past \<subseteq> past' \<Longrightarrow> owners_ok P L past' config dns ob pub ss"
  unfolding owners_ok_def by (elim conjE, intro conjI) (erule (1) ob_inv_mono | assumption)+

text \<open>One owner acts; the owned handles stay a partition.\<close>

lemma partition_keep:
  assumes "dom ss = B \<union> A" and "B \<inter> A = {}" and "keeps_others A ss A' ss'" and "A' \<subseteq> dom ss'"
  shows "dom ss' = B \<union> A'"
  using assms unfolding keeps_others_def by blast

lemma owners_ob:
  assumes ok: "owners_ok P L past config dns ob pub ss" and step: "ob_step (regex P) config (net P) L past (ob, ss) (ob', ss')"
  shows "owners_ok P L past config dns ob' pub ss'"
proof -
  from step have inv: "ob_inv (regex P) config (net P) L past ob' ss'" and keep: "keeps_others (ob_handles ob) ss (ob_handles ob') ss'"
    by (simp_all add: owner_step_def)
  have o: "dns_inv dns ss" "pub_inv L pub ss" "{dns_handle dns} \<inter> ob_handles ob = {}" "pub_handles pub \<inter> ob_handles ob = {}"
    "finite (dom ss)" "{dns_handle dns} \<inter> pub_handles pub = {}"
    and d: "dom ss = ({dns_handle dns} \<union> pub_handles pub) \<union> ob_handles ob"
    using ok by (auto simp: owners_ok_def)
  note k = dns.others_keep [OF o(1) keep o(3)] pub.others_keep [OF o(2) keep o(4)]
  have "({dns_handle dns} \<union> pub_handles pub) \<inter> ob_handles ob = {}" using o by blast
  from partition_keep [OF d this keep ob.handles_live [OF inv]]
  have "dom ss' = {dns_handle dns} \<union> pub_handles pub \<union> ob_handles ob'" .
  moreover have "finite (dom ss')" using keep o(5) by (simp add: keeps_others_def)
  ultimately show ?thesis using k inv o(6) unfolding owners_ok_def by auto
qed

lemma owners_pub:
  assumes ok: "owners_ok P L past config dns ob pub ss" and step: "pub_step L (pub, ss) (pub', ss')"
  shows "owners_ok P L past config dns ob pub' ss'"
proof -
  from step have inv: "pub_inv L pub' ss'" and keep: "keeps_others (pub_handles pub) ss (pub_handles pub') ss'"
    by (simp_all add: owner_step_def)
  have o: "dns_inv dns ss" "ob_inv (regex P) config (net P) L past ob ss" "{dns_handle dns} \<inter> pub_handles pub = {}"
    "ob_handles ob \<inter> pub_handles pub = {}" "finite (dom ss)" "{dns_handle dns} \<inter> ob_handles ob = {}"
    and d: "dom ss = ({dns_handle dns} \<union> ob_handles ob) \<union> pub_handles pub"
    using ok by (auto simp: owners_ok_def)
  note k = dns.others_keep [OF o(1) keep o(3)] ob.others_keep [OF o(2) keep o(4)]
  have "({dns_handle dns} \<union> ob_handles ob) \<inter> pub_handles pub = {}" using o by blast
  from partition_keep [OF d this keep pub.handles_live [OF inv]]
  have "dom ss' = {dns_handle dns} \<union> ob_handles ob \<union> pub_handles pub'" .
  moreover have "finite (dom ss')" using keep o(5) by (simp add: keeps_others_def)
  ultimately show ?thesis using k inv o(6) unfolding owners_ok_def by auto
qed

lemma owners_dns:
  assumes ok: "owners_ok P L past config dns ob pub ss" and inv: "dns_inv dns' ss'"
    and same: "dns_handle dns' = dns_handle dns" and keep: "keeps_others {dns_handle dns} ss {dns_handle dns'} ss'"
  shows "owners_ok P L past config dns' ob pub ss'"
proof -
  have o: "ob_inv (regex P) config (net P) L past ob ss" "pub_inv L pub ss" "ob_handles ob \<inter> {dns_handle dns} = {}"
    "pub_handles pub \<inter> {dns_handle dns} = {}" "finite (dom ss)" "ob_handles ob \<inter> pub_handles pub = {}"
    and d: "dom ss = (ob_handles ob \<union> pub_handles pub) \<union> {dns_handle dns}"
    using ok by (auto simp: owners_ok_def)
  note k = ob.others_keep [OF o(1) keep o(3)] pub.others_keep [OF o(2) keep o(4)]
  have "(ob_handles ob \<union> pub_handles pub) \<inter> {dns_handle dns} = {}" using o by blast
  from partition_keep [OF d this keep dns.handles_live [OF inv]]
  have "dom ss' = ob_handles ob \<union> pub_handles pub \<union> {dns_handle dns'}" .
  moreover have "finite (dom ss')" using keep o(5) by (simp add: keeps_others_def)
  ultimately show ?thesis using k inv o(6) unfolding owners_ok_def by auto
qed

lemma owners_poll:
  assumes ok: "owners_ok P L past config dns ob pub ss" and same: "\<And>h. same_logs (lg_queued L) (lg_removed L) (lg_local L) (ss h) (ss' h)"
  shows "owners_ok P L past config dns ob pub ss'"
proof -
  have kind: "same_kind (ss h) (ss' h)" for h using same_logs_kind [OF same] .
  then have dom: "dom ss' = dom ss" using same_kind_dom by blast
  have "dns_inv dns ss'" "ob_inv (regex P) config (net P) L past ob ss'" "pub_inv L pub ss'"
    using ok dns.same_keep [of dns ss ss'] ob.same_keep [of "regex P" config "net P" L past ob ss ss'] pub.same_keep [of L pub ss ss'] same kind
    by (auto simp: owners_ok_def)
  with ok show ?thesis unfolding owners_ok_def dom by blast
qed

section \<open>The operations keep the invariant\<close>

lemma dns_new_owner:
  assumes "dns_new U alloc Map.empty = Inr (dns, ss)"
  shows "dns_inv dns ss \<and> dom ss = {dns_handle dns}"
  using assms by (auto simp: dns_new_def ss_add_def dns_inv_def udp_handles_def fake_dns_ok_new split: option.splits if_splits)

lemma ob_handles_new: "ob_handles ob_new = {}"
  by (simp add: ob_handles_def ob_new_def)

lemma el_new_inv:
  assumes "el_new P tun_fd config registered wall now rt w = Inr self"
  shows "el_inv P L past self \<and> el_config self = config"
proof -
  obtain rt1 pub where p: "pub_new (chan P) (acceptor P) registered rt = (rt1, pub)" by fastforce
  obtain dns ss where
    d: "dns_new (udp P) (new_handle P) Map.empty = Inr (dns, ss)"
    and self: "el_config self = config" "el_dns self = dns" "el_sockets self = ss" "el_outbound self = ob_new" "el_published self = pub"
    using assms
    by (auto simp: el_new_def Let_def result_bind_Inr_iff map_sum_def p split: prod.splits option.splits if_splits sum.splits)
  have pub: "pub_inv L pub ss" using pub_inv_new [of L "chan P" "acceptor P" registered rt ss] p by simp
  have "pub_handles pub = {}"
    using p by (auto simp: pub_new_def Let_def pub_handles_def split: prod.splits)
  then show ?thesis
    using dns_new_owner [OF d] pub by (simp add: el_inv_def owners_ok_def self ob_inv_new ob_handles_new)
qed

lemma poll_connections_step:
  assumes env: "el_env P B L datagrams messages backlog" and sc: "schedule_ok sc" and inv: "el_inv P L past self"
  shows "\<exists>self' ready. poll_connections P sc self = Inr (self', ready) \<and> el_inv P L past self' \<and> el_config self' = el_config self"
proof -
  note ok = inv [unfolded el_inv_def]
  note ob = owners_okD(2) [OF ok]
  have ord: "order_spec (loop_order sc i)" for i using sc by (simp add: schedule_ok_def)
  from ob_poll_ready_step [OF el_envD(1) [OF env] ob ord [of 0], of "loop_order sc 1" "el_runtime self"] obtain ob' ss' rt' r where
    o: "ob_poll_ready (net P) (tcp P) (tasks P) (loop_order sc 0) (loop_order sc 1) (el_outbound self) (el_sockets self) (el_runtime self) =
        Inr (ob', ss', rt', r)"
      "ob_step (regex P) (el_config self) (net P) L past (el_outbound self, el_sockets self) (ob', ss')" by blast
  note ok1 = owners_ob [OF ok o(2)]
  from pub_poll_ready_step [OF el_envD(3) [OF env] owners_okD(3) [OF ok1], of "net P" "tcp P" "loop_order sc 2"] obtain pub' r' where
    p: "pub_poll_ready (net P) (tcp P) (chan P) (loop_order sc 2) (el_published self) ss' = Inr (pub', r')"
      "pub_inv L pub' ss'" "pub_handles pub' = pub_handles (el_published self)" by blast
  have "owners_ok P L past (el_config self) (el_dns self) ob' pub' ss'"
    using ok1 p(2,3) unfolding owners_ok_def by metis
  then show ?thesis
    by (simp add: poll_connections_def o(1) p(1) Let_def el_inv_def del: One_nat_def)
qed

lemma select_loop_step:
  assumes env: "el_env P B L datagrams messages backlog"
  shows "\<forall>wake \<in> set wakes. schedule_ok (wake_schedule wake) \<Longrightarrow> el_inv P L past self \<Longrightarrow>
    \<exists>self' completed. select_loop P timeout wakes self = Inr (self', completed) \<and> el_inv P L past self' \<and> el_config self' = el_config self"
proof (induction wakes arbitrary: self)
  case (Cons wake wakes)
  from Cons.prems(1) have "schedule_ok (wake_schedule wake)" by simp
  from poll_connections_step [OF env this Cons.prems(2)] obtain self1 ready where
    p: "poll_connections P (wake_schedule wake) self = Inr (self1, ready)" "el_inv P L past self1" "el_config self1 = el_config self" by blast
  with Cons.IH [OF _ p(2)] Cons.prems show ?case by auto
qed auto

lemma poll_interface_step:
  assumes "el_env P B L datagrams messages backlog" and "el_inv P L past self"
  shows "el_inv P L past (poll_interface P now self)"
    and "el_config (poll_interface P now self) = el_config self" "el_dns (poll_interface P now self) = el_dns self"
    "el_outbound (poll_interface P now self) = el_outbound self" "el_published (poll_interface P now self) = el_published self"
    "el_runtime (poll_interface P now self) = el_runtime self"
proof -
  obtain i' w' d' ss' where r: "iface_poll (iface P) (el_interface self) now (el_kernel self, el_device self) (el_sockets self) =
      (i', (w', d'), ss')" by (metis prod.exhaust)
  with el_envD(5) [OF assms(1)] have "same_logs (lg_queued L) (lg_removed L) (lg_local L) (el_sockets self h) (ss' h)" for h
    unfolding iface_spec_def by blast
  from owners_poll [OF assms(2) [unfolded el_inv_def] this] show "el_inv P L past (poll_interface P now self)"
    by (simp add: poll_interface_def r el_inv_def)
  show "el_config (poll_interface P now self) = el_config self" "el_dns (poll_interface P now self) = el_dns self"
    "el_outbound (poll_interface P now self) = el_outbound self" "el_published (poll_interface P now self) = el_published self"
    "el_runtime (poll_interface P now self) = el_runtime self"
    by (simp_all add: poll_interface_def r)
qed

text \<open>The two halves of a tick: until the components have run, and from there to the end.\<close>

definition tick_front ::
  "('s, 't, 'i, 'u, 'm, 'r, 'k, 'rs, 'c, 'l, 'a, 'w) libs \<Rightarrow> schedule \<Rightarrow>
   ('s, 't, 'i, 'u, 'r, 'k, 'rs, 'c, 'a, 'w) event_loop \<Rightarrow>
   (panic + ('s, 't, 'i, 'u, 'r, 'k, 'rs, 'c, 'a, 'w) event_loop) option" where
  "tick_front P sc self =
     tick_bind (map_option Inr (read_packets (tun P) (el_kernel self) (el_device self))) (\<lambda>(w, device).
     let self = self\<lparr>el_kernel := w, el_device := device\<rparr> in
     tick_bind (Some (observe_syns (tcp P) (new_handle P) (reading sc 0) (el_device self) (el_outbound self) (el_sockets self)))
       (\<lambda>(outbound, sockets).
     let self = self\<lparr>el_outbound := outbound, el_sockets := sockets\<rparr> in
     tick_bind (attach_accepted (tcp P) (chan P) (new_handle P) (reading sc 1) (el_published self) (el_sockets self) (el_interface self))
       (\<lambda>(published, sockets, interface).
     Some (Inr (self\<lparr>el_published := published, el_sockets := sockets, el_interface := interface\<rparr>)))))"

definition tick_middle ::
  "('s, 't, 'i, 'u, 'm, 'r, 'k, 'rs, 'c, 'l, 'a, 'w) libs \<Rightarrow> schedule \<Rightarrow>
   ('s, 't, 'i, 'u, 'r, 'k, 'rs, 'c, 'a, 'w) event_loop \<Rightarrow>
   (panic + ('s, 't, 'i, 'u, 'r, 'k, 'rs, 'c, 'a, 'w) event_loop) option" where
  "tick_middle P sc self =
     tick_bind (dns_process (udp P) (el_dns self) (el_sockets self)) (\<lambda>(dns, sockets).
     let self = self\<lparr>el_dns := dns, el_sockets := sockets\<rparr> in
     tick_bind (Some (ob_process (net P) (tcp P) (tasks P) (regex P) (loop_order sc 0) (loop_order sc 1) (loop_order sc 2)
         (reading sc 2) (el_dns self) (el_config self) (el_outbound self) (el_sockets self) (el_runtime self)))
       (\<lambda>(outbound, sockets, rt).
     let self = self\<lparr>el_outbound := outbound, el_sockets := sockets, el_runtime := rt\<rparr> in
     tick_bind (Some (pub_process (net P) (tcp P) (loop_order sc 3) (loop_order sc 4) (reading sc 3)
         (el_published self) (el_sockets self))) (\<lambda>(published, sockets).
     Some (Inr (self\<lparr>el_published := published, el_sockets := sockets\<rparr>)))))"

definition tick_end ::
  "schedule \<Rightarrow> ('s, 't, 'i, 'u, 'r, 'k, 'rs, 'c, 'a, 'w) event_loop \<Rightarrow>
   (panic + ('s, 't, 'i, 'u, 'r, 'k, 'rs, 'c, 'a, 'w) event_loop) option" where
  "tick_end sc self =
     tick_bind (Some (ob_cleanup (loop_order sc 5) (el_outbound self) (el_sockets self))) (\<lambda>(outbound, sockets).
     let self = self\<lparr>el_outbound := outbound, el_sockets := sockets\<rparr> in
     tick_bind (Some (pub_cleanup (loop_order sc 6) (el_published self) (el_sockets self))) (\<lambda>(published, sockets).
     Some (Inr (self\<lparr>el_published := published, el_sockets := sockets\<rparr>))))"

lemma tick_bind_assoc: "tick_bind (tick_bind m f) g = tick_bind m (\<lambda>x. tick_bind (f x) g)"
  by (auto simp: tick_bind_def split: option.splits sum.splits)

lemma tick_eq:
  "tick P sc self =
     tick_bind (tick_front P sc self) (\<lambda>self.
     tick_bind (tick_middle P sc (poll_interface P (poll_time sc 0) self)) (\<lambda>self.
     tick_end sc (poll_interface P (poll_time sc 1) self)))"
  unfolding tick_def tick_front_def tick_middle_def tick_end_def
  by (simp add: tick_bind_assoc case_prod_unfold Let_def)

lemma tick_front_step:
  assumes env: "el_env P B L datagrams messages backlog" and inv: "el_inv P L past self"
  shows "\<exists>self'. tick_front P sc self = Some (Inr self') \<and> el_inv P L past self' \<and> el_config self' = el_config self"
proof -
  note ok = inv [unfolded el_inv_def]
  note ob = owners_okD(2) [OF ok] and fin = owners_okD(4) [OF ok]
  from read_packets_total [OF el_envD(4) [OF env], of "el_kernel self" "el_device self"] obtain w device where
    r: "read_packets (tun P) (el_kernel self) (el_device self) = Some (w, device)" by blast
  from observe_syns_step [OF el_envD(1,6) [OF env] ob fin, of "reading sc 0" device] obtain ob1 ss1 where
    s: "observe_syns (tcp P) (new_handle P) (reading sc 0) device (el_outbound self) (el_sockets self) = Inr (ob1, ss1)"
      "ob_step (regex P) (el_config self) (net P) L past (el_outbound self, el_sockets self) (ob1, ss1)" by blast
  note ok1 = owners_ob [OF ok s(2)]
  from attach_accepted_step [OF el_envD(7,3,6) [OF env] owners_okD(3,4) [OF ok1], of "reading sc 1" "el_interface self"] obtain pub2 ss2 i2 where
    a: "attach_accepted (tcp P) (chan P) (new_handle P) (reading sc 1) (el_published self) ss1 (el_interface self) = Some (Inr (pub2, ss2, i2))"
      "pub_step L (el_published self, ss1) (pub2, ss2)" by blast
  from owners_pub [OF ok1 a(2)] show ?thesis
    by (simp add: tick_front_def r s(1) a(1) Let_def el_inv_def del: One_nat_def)
qed

lemma tick_middle_step:
  assumes env: "el_env P B L datagrams messages backlog" and sc: "schedule_ok sc"
    and routes: "\<And>target. \<exists>p. proxy_for (regex P) (el_config self) target = Inr p" and inv: "el_inv P L past self"
  shows "\<exists>self'. tick_middle P sc self = Some (Inr self') \<and> el_inv P L (insert (dns_pool (el_dns self')) past) self' \<and>
    el_config self' = el_config self"
proof -
  note ok = inv [unfolded el_inv_def]
  have ord: "order_spec (loop_order sc i)" for i using sc by (simp add: schedule_ok_def)
  from ok have "dns_inv (el_dns self) (el_sockets self)" by (simp add: owners_ok_def)
  from dns_process_total [OF el_envD(2) [OF env] this] obtain dns1 ss1 where
    d: "dns_process (udp P) (el_dns self) (el_sockets self) = Some (Inr (dns1, ss1))" "dns_inv dns1 ss1"
      "dns_handle dns1 = dns_handle (el_dns self)" "keeps_others {dns_handle (el_dns self)} (el_sockets self) {dns_handle dns1} ss1" by blast
  note ok1 = owners_mono [OF owners_dns [OF ok d(2,3,4)] subset_insertI [of past "dns_pool dns1"]]
  from ob_process_step [OF el_envD(1) [OF env] routes owners_okD(2) [OF ok1] ord ord insertI1] obtain ob2 ss2 rt2 where
    o: "ob_process (net P) (tcp P) (tasks P) (regex P) (loop_order sc 0) (loop_order sc 1) (loop_order sc 2)
         (reading sc 2) dns1 (el_config self) (el_outbound self) ss1 (el_runtime self) = Inr (ob2, ss2, rt2)"
      "ob_step (regex P) (el_config self) (net P) L (insert (dns_pool dns1) past) (el_outbound self, ss1) (ob2, ss2)" by blast
  note ok2 = owners_ob [OF ok1 o(2)]
  then have "pub_inv L (el_published self) ss2" by (simp add: owners_ok_def)
  from pub_process_step [OF el_envD(7) [OF env] this ord ord] obtain pub3 ss3 where
    p: "pub_process (net P) (tcp P) (loop_order sc 3) (loop_order sc 4) (reading sc 3) (el_published self) ss2 = Inr (pub3, ss3)"
      "pub_step L (el_published self, ss2) (pub3, ss3)" by blast
  from owners_pub [OF ok2 p(2)] show ?thesis
    by (simp add: tick_middle_def d(1) o(1) p(1) Let_def el_inv_def del: One_nat_def)
qed

lemma tick_end_step:
  assumes sc: "schedule_ok sc" and inv: "el_inv P L past self"
  shows "\<exists>self'. tick_end sc self = Some (Inr self') \<and> el_inv P L past self' \<and> el_config self' = el_config self \<and>
    el_dns self' = el_dns self \<and>
    (\<forall>h. ob_states (el_outbound self') h \<noteq> Some Closing \<and> pub_states (el_published self') h \<noteq> Some PClosing)"
proof -
  note ok = inv [unfolded el_inv_def]
  have ord: "order_spec (loop_order sc i)" for i using sc by (simp add: schedule_ok_def)
  from ok have "ob_inv (regex P) (el_config self) (net P) L past (el_outbound self) (el_sockets self)" by (simp add: owners_ok_def)
  from ob_cleanup_step [OF this ord [of 5]] obtain ob1 ss1 where
    c: "ob_cleanup (loop_order sc 5) (el_outbound self) (el_sockets self) = Inr (ob1, ss1)"
      "ob_step (regex P) (el_config self) (net P) L past (el_outbound self, el_sockets self) (ob1, ss1)"
      "\<forall>h. ob_view h (ob1, ss1) = (if ob_states (el_outbound self) h = Some Closing then (None, None)
         else ob_view h (el_outbound self, el_sockets self))" by blast
  note ok1 = owners_ob [OF ok c(2)]
  then have "pub_inv L (el_published self) ss1" by (simp add: owners_ok_def)
  from pub_cleanup_step [OF this ord [of 6]] obtain pub2 ss2 where
    d: "pub_cleanup (loop_order sc 6) (el_published self) ss1 = Inr (pub2, ss2)" "pub_step L (el_published self, ss1) (pub2, ss2)"
      "\<forall>h. pub_view h (pub2, ss2) = (if pub_states (el_published self) h = Some PClosing then (None, None)
         else pub_view h (el_published self, ss1))" by blast
  have "ob_states ob1 h \<noteq> Some Closing \<and> pub_states pub2 h \<noteq> Some PClosing" for h
    using c(3) [rule_format, of h] d(3) [rule_format, of h] by (auto simp: table_view_def split: if_splits)
  with owners_pub [OF ok1 d(2)] show ?thesis
    by (simp add: tick_end_def c(1) d(1) Let_def el_inv_def)
qed

lemma tick_step:
  assumes env: "el_env P B L datagrams messages backlog" and sc: "schedule_ok sc"
    and routes: "\<And>target. \<exists>p. proxy_for (regex P) (el_config self) target = Inr p" and inv: "el_inv P L past self"
  shows "\<exists>self'. tick P sc self = Some (Inr self') \<and> el_inv P L (insert (dns_pool (el_dns self')) past) self' \<and>
    el_config self' = el_config self \<and>
    (\<forall>h. ob_states (el_outbound self') h \<noteq> Some Closing \<and> pub_states (el_published self') h \<noteq> Some PClosing)"
proof -
  from tick_front_step [OF env inv, of sc] obtain s1 where
    s1: "tick_front P sc self = Some (Inr s1)" "el_inv P L past s1" "el_config s1 = el_config self" by blast
  let ?s1 = "poll_interface P (poll_time sc 0) s1"
  note p1 = poll_interface_step [OF env s1(2), of "poll_time sc 0"]
  have "\<exists>p. proxy_for (regex P) (el_config ?s1) target = Inr p" for target using routes p1(2) s1(3) by simp
  from tick_middle_step [OF env sc this p1(1)] obtain s2 where
    s2: "tick_middle P sc ?s1 = Some (Inr s2)" "el_inv P L (insert (dns_pool (el_dns s2)) past) s2" "el_config s2 = el_config self"
    using p1(2) s1(3) by auto
  note p2 = poll_interface_step [OF env s2(2), of "poll_time sc 1"]
  from tick_end_step [OF sc p2(1)] s2(3) p2(2,3) show ?thesis
    by (auto simp: tick_eq s1(1) s2(1))
qed

text \<open>The loop as a whole: rounds of waiting and ticking.\<close>

definition rounds_ok :: "round list \<Rightarrow> bool" where
  "rounds_ok rs \<longleftrightarrow>
     (\<forall>r \<in> set rs. schedule_ok (rd_schedule r) \<and> (\<forall>wake \<in> set (rd_wakes r). schedule_ok (wake_schedule wake)))"

lemma wait_for_work_step:
  assumes "el_env P B L datagrams messages backlog" and "\<forall>wake \<in> set wakes. schedule_ok (wake_schedule wake)"
    and "el_inv P L past self"
  shows "\<exists>self' answer. wait_for_work P now b wakes b' self = Inr (self', answer) \<and> el_inv P L past self' \<and> el_config self' = el_config self"
proof (cases b)
  case False
  from select_loop_step [OF assms] obtain self' completed where
    "select_loop P (wait_timeout (iface_poll_delay (iface P) (el_interface self) now (el_sockets self))) wakes self = Inr (self', completed)"
    "el_inv P L past self'" "el_config self' = el_config self" by blast
  with False show ?thesis by (simp add: wait_for_work_def)
qed (simp add: wait_for_work_def assms(3))

text \<open>The \<open>select!\<close> completes at the latest when it is woken after its timeout.\<close>

lemma select_loop_completes:
  assumes env: "el_env P B L datagrams messages backlog"
  shows "\<forall>wake \<in> set wakes. schedule_ok (wake_schedule wake) \<Longrightarrow> el_inv P L past self \<Longrightarrow>
    \<exists>wake \<in> set wakes. timeout \<le> woken_after wake \<Longrightarrow>
    \<exists>self'. select_loop P timeout wakes self = Inr (self', True) \<and> el_inv P L past self'"
proof (induction wakes arbitrary: self)
  case (Cons wake wakes)
  from Cons.prems(1) have "schedule_ok (wake_schedule wake)" by simp
  from poll_connections_step [OF env this Cons.prems(2)] obtain self1 ready where
    p: "poll_connections P (wake_schedule wake) self = Inr (self1, ready)" "el_inv P L past self1" by blast
  show ?case
  proof (cases "shutdown_changed wake \<or> ready \<or> tun_readable wake \<or> timeout \<le> woken_after wake")
    case True
    with p Cons.prems(2) show ?thesis by (cases "shutdown_changed wake") simp_all
  next
    case False
    with Cons.prems(1,3) have "\<forall>wake \<in> set wakes. schedule_ok (wake_schedule wake)" "\<exists>wake \<in> set wakes. timeout \<le> woken_after wake"
      by simp_all
    from Cons.IH [OF this(1) p(2) this(2)] False show ?thesis by (simp add: p(1))
  qed
qed simp

text \<open>It does not complete before, unless there is something to do.\<close>

lemma select_loop_waits:
  "\<forall>wake \<in> set wakes. \<not> shutdown_changed wake \<and> \<not> tun_readable wake \<and> woken_after wake < timeout \<and>
     poll_connections P (wake_schedule wake) self = Inr (self, False) \<Longrightarrow>
   select_loop P timeout wakes self = Inr (self, False)"
proof (induction wakes)
  case (Cons wake wakes)
  from Cons.prems have now: "\<not> shutdown_changed wake" "\<not> tun_readable wake" "\<not> timeout \<le> woken_after wake"
    "poll_connections P (wake_schedule wake) self = Inr (self, False)"
    by (simp_all add: not_le)
  from Cons.IH Cons.prems have "select_loop P timeout wakes self = Inr (self, False)" by (meson list.set_intros(2))
  then show ?case by (simp only: select_loop.simps now result_bind_simps prod.case) simp
qed simp

lemma el_run_step:
  assumes env: "el_env P B L datagrams messages backlog"
    and routes: "\<And>target. \<exists>p. proxy_for (regex P) config target = Inr p"
  shows "rounds_ok rs \<Longrightarrow> el_inv P L past self \<Longrightarrow> el_config self = config \<Longrightarrow>
    \<exists>self' ended. el_run P rs self = Some (Inr (self', ended)) \<and> el_inv P L (past \<union> set (tick_pools P rs self)) self' \<and>
      el_config self' = config"
proof (induction rs arbitrary: self past)
  case (Cons r rs)
  from Cons.prems(1) have r: "schedule_ok (rd_schedule r)" "\<forall>wake \<in> set (rd_wakes r). schedule_ok (wake_schedule wake)" "rounds_ok rs"
    by (simp_all add: rounds_ok_def)
  from wait_for_work_step [OF env r(2) Cons.prems(2)] obtain self1 answer where
    w: "wait_for_work P (rd_now r) (rd_shutdown r) (rd_wakes r) (rd_shutdown' r) self = Inr (self1, answer)"
      "el_inv P L past self1" "el_config self1 = config" using Cons.prems(3) by metis
  show ?case
  proof (cases "answer = Some True")
    case True
    have "\<exists>p. proxy_for (regex P) (el_config self1) target = Inr p" for target using routes w(3) by simp
    from tick_step [OF env r(1) this w(2)] obtain self2 where
      t: "tick P (rd_schedule r) self1 = Some (Inr self2)" "el_inv P L (insert (dns_pool (el_dns self2)) past) self2"
        "el_config self2 = config"
      using w(3) by auto
    from Cons.IH [OF r(3) t(2,3)] show ?thesis by (simp add: w(1) True t(1))
  next
    case False
    then consider "answer = None" | "answer = Some False" by (cases answer) auto
    then show ?thesis using w by cases (simp, blast)+
  qed
qed auto

text \<open>
  The loop neither spins nor oversleeps: the time it sleeps is at least one and at most a hundred
  milliseconds, and in between it is the delay the stack asked for, in whole milliseconds.
\<close>

lemma wait_timeout_bounds:
  "from_millis 1 \<le> wait_timeout delay \<and> wait_timeout delay \<le> MAX_POLL_DELAY \<and>
   wait_timeout None = from_millis 50 \<and>
   (d \<in> {1000..100999} \<longrightarrow> wait_timeout (Some d) = from_millis (d div 1000))"
proof -
  have "d div 1000 \<le> 100" if "d \<in> {1000..100999}" using that by auto
  moreover have "1 \<le> d div 1000" if "d \<in> {1000..100999}" using that by (simp add: Suc_le_eq div_greater_zero_iff)
  ultimately show ?thesis
    by (auto simp: wait_timeout_def MAX_POLL_DELAY_def DEFAULT_POLL_DELAY_def from_millis_def Let_def)
qed

lemma wait_for_work_completes:
  assumes "el_env P B L datagrams messages backlog" and "\<forall>wake \<in> set wakes. schedule_ok (wake_schedule wake)"
    and "el_inv P L past self" and "\<exists>wake \<in> set wakes. MAX_POLL_DELAY \<le> woken_after wake"
  shows "\<exists>self'. wait_for_work P now b wakes b' self = Inr (self', Some (\<not> b \<and> \<not> b'))"
proof (cases b)
  case False
  have "\<exists>wake \<in> set wakes. wait_timeout delay \<le> woken_after wake" for delay
    using assms(4) wait_timeout_bounds [of delay] by (meson order_trans)
  from select_loop_completes [OF assms(1-3) this] obtain self' where
    "select_loop P (wait_timeout (iface_poll_delay (iface P) (el_interface self) now (el_sockets self))) wakes self = Inr (self', True)"
    by blast
  with False show ?thesis by (simp add: wait_for_work_def)
qed (simp add: wait_for_work_def)

lemma el_run_ends_iff:
  assumes env: "el_env P B L datagrams messages backlog"
    and routes: "\<And>target. \<exists>p. proxy_for (regex P) config target = Inr p"
  shows "rounds_ok rs \<Longrightarrow> \<forall>r \<in> set rs. \<exists>wake \<in> set (rd_wakes r). MAX_POLL_DELAY \<le> woken_after wake \<Longrightarrow>
    el_inv P L past self \<Longrightarrow> el_config self = config \<Longrightarrow>
    \<exists>self' ended. el_run P rs self = Some (Inr (self', ended)) \<and>
      (ended \<longleftrightarrow> (\<exists>r \<in> set rs. rd_shutdown r \<or> rd_shutdown' r))"
proof (induction rs arbitrary: self past)
  case (Cons r rs)
  from Cons.prems(1) have r: "schedule_ok (rd_schedule r)" "\<forall>wake \<in> set (rd_wakes r). schedule_ok (wake_schedule wake)" "rounds_ok rs"
    by (simp_all add: rounds_ok_def)
  from Cons.prems(2) have late: "\<exists>wake \<in> set (rd_wakes r). MAX_POLL_DELAY \<le> woken_after wake"
    "\<forall>r \<in> set rs. \<exists>wake \<in> set (rd_wakes r). MAX_POLL_DELAY \<le> woken_after wake" by simp_all
  let ?stop = "rd_shutdown r \<or> rd_shutdown' r"
  from wait_for_work_completes [OF env r(2) Cons.prems(3) late(1), of "rd_now r" "rd_shutdown r" "rd_shutdown' r"] obtain self1 where
    w1: "wait_for_work P (rd_now r) (rd_shutdown r) (rd_wakes r) (rd_shutdown' r) self = Inr (self1, Some (\<not> ?stop))"
    by auto
  from wait_for_work_step [OF env r(2) Cons.prems(3)] Cons.prems(4) w1
  have w: "el_inv P L past self1" "el_config self1 = config" by (metis Inr_inject prod.inject)+
  show ?case
  proof (cases ?stop)
    case False
    have "\<exists>p. proxy_for (regex P) (el_config self1) target = Inr p" for target using routes w(2) by simp
    from tick_step [OF env r(1) this w(1)] obtain self2 where
      t: "tick P (rd_schedule r) self1 = Some (Inr self2)" "el_inv P L (insert (dns_pool (el_dns self2)) past) self2"
        "el_config self2 = config"
      using w(2) by auto
    have "el_run P (r # rs) self = el_run P rs self2" unfolding el_run.simps w1 using False t(1) by simp
    moreover have "(\<exists>r \<in> set (r # rs). rd_shutdown r \<or> rd_shutdown' r) \<longleftrightarrow> (\<exists>r \<in> set rs. rd_shutdown r \<or> rd_shutdown' r)"
      using False by simp
    ultimately show ?thesis using Cons.IH [OF r(3) late(2) t(2,3)] by (simp only:)
  next
    case True
    have "el_run P (r # rs) self = Some (Inr (self1, True))" unfolding el_run.simps w1 using True by simp
    moreover have "\<exists>r \<in> set (r # rs). rd_shutdown r \<or> rd_shutdown' r" using True by simp
    ultimately show ?thesis by blast
  qed
qed auto

lemma el_inv_dom:
  assumes "el_inv P L past self"
  shows "dom (el_sockets self) =
    {dns_handle (el_dns self)} \<union> dom (ob_states (el_outbound self)) \<union> dom (pub_states (el_published self))"
  using assms unfolding el_inv_def owners_ok_def ob_handles_def pub_handles_def by (elim conjE) assumption

text \<open>The run of a freshly built loop, and its forwarded connections.\<close>

lemma el_run_from_new:
  assumes "el_env P B L datagrams messages backlog" and "regex_set_spec (regex P) is_match"
    and "built_from (regex P) rule_list config" and "el_new P tun_fd config registered wall now rt w = Inr self"
    and "rounds_ok rs"
  shows "\<exists>self' ended. el_run P rs self = Some (Inr (self', ended)) \<and> el_inv P L (set (tick_pools P rs self)) self' \<and>
    el_config self' = config"
proof -
  from el_new_inv [OF assms(4), of L "{}"] have "el_inv P L {} self" "el_config self = config" by simp_all
  from el_run_step [OF assms(1) proxy_for_no_panic [OF assms(2,3)] assms(5) this] show ?thesis by simp
qed

lemma el_inv_tunnel:
  assumes "el_inv P L past self" and "ob_states (el_outbound self) h = Some (Established ctx)"
  shows "\<exists>t. el_sockets self h = Some (Tcp t) \<and> tunnel (regex P) (el_config self) (net P) L past ctx t \<and>
    length (proxy_to_app ctx) \<le> TCP_BUF_SIZE"
proof -
  from assms(1) have "ob_inv (regex P) (el_config self) (net P) L past (el_outbound self) (el_sockets self)"
    unfolding el_inv_def owners_ok_def by blast
  from ob_inv_state [OF this assms(2)] show ?thesis by (auto simp: state_ok_def)
qed

section \<open>Properties\<close>

text \<open>
  C2. The event loop is safe: started on any configuration that was built from rules, and whatever
  wakes it, in whatever order the tables are iterated and the clock advances, it never panics
  and every tick ends; in every state it reaches the sockets are exactly those of the three
  components, each owned by one, and every component's invariant holds.
\<close>

theorem event_loop_safe:
  assumes "el_env P B L datagrams messages backlog" and "regex_set_spec (regex P) is_match"
    and "built_from (regex P) rule_list config" and "el_new P tun_fd config registered wall now rt w = Inr self"
    and "rounds_ok rs"
  shows "\<exists>self' ended. el_run P rs self = Some (Inr (self', ended)) \<and> el_inv P L (set (tick_pools P rs self)) self' \<and>
    dom (el_sockets self') =
      {dns_handle (el_dns self')} \<union> dom (ob_states (el_outbound self')) \<union> dom (pub_states (el_published self'))"
  using el_run_from_new [OF assms] el_inv_dom by blast

text \<open>
  C3. End to end: in every state the loop reaches, each forwarded connection is a tunnel. Its target is
  the address and port that the program in the namespace connected to, which are the local endpoint
  of the socket, or, if the address is one of the fake ones, the name that the pool had for it in a
  tick of the run. Its upstream was dialled through the route the rules give for that target; it was
  sent that route's handshake and then exactly the bytes the program sent; the program was given, in
  order and without gaps, what the upstream sent after its answer, up to the bytes still buffered,
  of which there are at most \<open>TCP_BUF_SIZE\<close>.
\<close>

theorem forwarded_connections_are_tunnels:
  assumes "el_env P B L datagrams messages backlog" and "regex_set_spec (regex P) is_match"
    and "built_from (regex P) rule_list config" and "el_new P tun_fd config registered wall now rt w = Inr self"
    and "rounds_ok rs" and "el_run P rs self = Some (Inr (self', ended))"
    and "ob_states (el_outbound self') h = Some (Established ctx)"
  shows "\<exists>t. el_sockets self' h = Some (Tcp t) \<and>
    tunnel (regex P) config (net P) L (set (tick_pools P rs self)) ctx t \<and>
    length (proxy_to_app ctx) \<le> TCP_BUF_SIZE"
  using el_run_from_new [OF assms(1-5)] assms(6) el_inv_tunnel [OF _ assms(7)] by auto

text \<open>
  A tick leaves no closed connection behind: whatever was scheduled for removal during the tick
  or before is removed at its end.
\<close>

lemma tick_ends_clean:
  assumes "el_env P B L datagrams messages backlog" and "schedule_ok sc" and "regex_set_spec (regex P) is_match"
    and "built_from (regex P) rule_list (el_config self)" and "el_inv P L past self"
  shows "\<exists>self'. tick P sc self = Some (Inr self') \<and> el_inv P L (insert (dns_pool (el_dns self')) past) self' \<and>
    Closing \<notin> ran (ob_states (el_outbound self')) \<and> PClosing \<notin> ran (pub_states (el_published self'))"
  using tick_step [OF assms(1,2) proxy_for_no_panic [OF assms(3,4)] assms(5)] by (fastforce simp: ran_def)

text \<open>
  C5. The loop is live: if the runtime's timer works, that is, if the loop is woken at some time
  after a wait of \<open>MAX_POLL_DELAY\<close> in every round, whatever the stack asks for and whatever else
  wakes it or does not, then no round is stuck in waiting, and the loop ends if and only if the
  shutdown signal is set before or after a wait.
\<close>

theorem loop_runs_until_shutdown:
  assumes "el_env P B L datagrams messages backlog" and "regex_set_spec (regex P) is_match"
    and "built_from (regex P) rule_list config" and "el_new P tun_fd config registered wall now rt w = Inr self"
    and "rounds_ok rs" and "\<forall>r \<in> set rs. \<exists>wake \<in> set (rd_wakes r). MAX_POLL_DELAY \<le> woken_after wake"
  shows "\<exists>self' ended. el_run P rs self = Some (Inr (self', ended)) \<and> el_inv P L (set (tick_pools P rs self)) self' \<and>
    (ended \<longleftrightarrow> (\<exists>r \<in> set rs. rd_shutdown r \<or> rd_shutdown' r))"
proof -
  from el_new_inv [OF assms(4), of L "{}"] have "el_inv P L {} self" "el_config self = config" by simp_all
  from el_run_ends_iff [OF assms(1) proxy_for_no_panic [OF assms(2,3)] assms(5,6) this] el_run_from_new [OF assms(1-5)]
  show ?thesis by auto
qed

text \<open>
  Shutdown ends the loop at once: if the signal is set before the loop waits, or is what wakes it,
  no further tick is made and no connection is polled any more.
\<close>

lemma shutdown_ends_the_loop:
  assumes "rd_shutdown r \<or> (\<exists>wake wakes. rd_wakes r = wake # wakes \<and> shutdown_changed wake \<and> rd_shutdown' r)"
  shows "el_run P (r # rs) self = Some (Inr (self, True))"
  using assms by (auto simp: wait_for_work_def)

section \<open>Witnesses\<close>

text \<open>
  An interface that completes every handshake at once, towards one fixed local endpoint, and a TUN
  device with a list of packets.
\<close>

definition complete :: "pipe \<Rightarrow> pipe" where
  "complete p = (if pipe_state p = TListen then p\<lparr>pipe_state := TEstablished, pipe_local := Some (ipv4_new 1 2 3 4, 80)\<rparr> else p)"

definition complete_socket :: "(pipe, 'u) socket option \<Rightarrow> (pipe, 'u) socket option" where
  "complete_socket s = (case s of Some (Tcp p) \<Rightarrow> Some (Tcp (complete p)) | _ \<Rightarrow> s)"

definition eager_iface :: "(unit, pipe, bytes list \<times> bytes list, bytes list) iface_lib" where
  "eager_iface = \<lparr>iface_new = (\<lambda>_ _. ()), iface_push_addr = (\<lambda>_ _ _. Some ()), iface_default_route = (\<lambda>_ _. Some ()),
     iface_set_any_ip = (\<lambda>i _. i),
     iface_poll = (\<lambda>i _ d ss. (i, (fst d, (snd d)\<lparr>rx_queue := []\<rparr>), \<lambda>h. complete_socket (ss h))),
     iface_poll_delay = (\<lambda>_ _ _. None), async_fd_new = (\<lambda>_ _. True)\<rparr>"

definition list_tun :: "bytes list tun_lib" where
  "list_tun = \<lparr>fcntl_getfl = (\<lambda>_ _. 0), fcntl_setfl = (\<lambda>w _ _. (w, 0)), or_nonblock = id,
     sys_read = (\<lambda>w _ _. case w of [] \<Rightarrow> ([], 0, []) | p # w \<Rightarrow> (w, int (length p), p)), sys_write = (\<lambda>w _ _. (w, 0))\<rparr>"

definition no_accept :: "(unit, nat, script accepted_connection list, unit) accept_lib" where
  "no_accept = \<lparr>spawn_accept = (\<lambda>rt _ _ _. (rt, ())), accept_abort = (\<lambda>rt _. rt)\<rparr>"

definition sample_libs ::
  "bytes \<Rightarrow> (script, pipe, unit, bytes list \<times> bytes list, unit, unit, proxy_config \<times> proxy_target, string list,
    script accepted_connection list, nat, unit, bytes list) libs" where
  "sample_libs input = \<lparr>net = script_lib input, tcp = pipe_tcp, udp = queue_udp, tasks = eager_tasks input, regex = literal_lib,
     chan = list_chan, acceptor = no_accept, iface = eager_iface, tun = list_tun, new_handle = least_alloc\<rparr>"

definition sample_schedule :: schedule where
  "sample_schedule = \<lparr>loop_order = (\<lambda>i. sorted_list_of_set), reading = (\<lambda>i h. 0), poll_time = (\<lambda>i. 0)\<rparr>"

definition sample_round :: round where
  "sample_round = \<lparr>rd_now = 0, rd_shutdown = False,
     rd_wakes = [\<lparr>shutdown_changed = False, tun_readable = True, woken_after = 0, wake_schedule = sample_schedule\<rparr>],
     rd_shutdown' = False, rd_schedule = sample_schedule\<rparr>"

lemma sample_rounds_ok: "rounds_ok [sample_round]" "schedule_ok sample_schedule"
  by (simp_all add: rounds_ok_def sample_round_def sample_schedule_def schedule_ok_def sorted_order)

lemma sample_libs_sel [simp]:
  "net (sample_libs input) = script_lib input" "tcp (sample_libs input) = pipe_tcp" "udp (sample_libs input) = queue_udp"
  "tasks (sample_libs input) = eager_tasks input" "regex (sample_libs input) = literal_lib" "chan (sample_libs input) = list_chan"
  "acceptor (sample_libs input) = no_accept" "iface (sample_libs input) = eager_iface" "tun (sample_libs input) = list_tun"
  "new_handle (sample_libs input) = least_alloc"
  by (simp_all add: sample_libs_def)

lemma sample_el_env:
  "el_env (sample_libs input) script_buf sample_logs (\<lambda>(q, out). length q) length length"
proof -
  have "tun_spec list_tun length"
    by (auto simp: tun_spec_def list_tun_def split: list.splits)
  moreover have "same_logs pipe_queued pipe_removed pipe_conn s (complete_socket s)" for s :: "(pipe, bytes list \<times> bytes list) socket option"
    by (auto simp: same_logs_def complete_socket_def complete_def pipe_conn_def split: option.splits socket.splits)
  then have "iface_spec eager_iface sample_logs"
    by (simp add: iface_spec_def eager_iface_def sample_logs_def)
  ultimately show ?thesis
    by (simp add: el_env_def sample_env queue_udp_spec list_chan_spec least_alloc_spec)
qed

lemma sample_new:
  "\<exists>self. el_new (sample_libs input) 3 plain_config [] 0 0 () packets = Inr self"
  by (simp add: el_new_def tun_new_def list_tun_def eager_iface_def dns_new_def queue_udp_def Let_def ss_add_def
      pub_new_def list_chan_def)

theorem event_loop_safe_witness:
  "\<exists>self self' ended. el_new (sample_libs []) 3 plain_config [] 0 0 () [] = Inr self \<and>
     el_run (sample_libs []) [sample_round] self = Some (Inr (self', ended)) \<and>
     el_inv (sample_libs []) sample_logs (set (tick_pools (sample_libs []) [sample_round] self)) self'"
proof -
  obtain self where s: "el_new (sample_libs []) 3 plain_config [] 0 0 () [] = Inr self" using sample_new by blast
  have "regex_set_spec (regex (sample_libs [])) literal_match" "built_from (regex (sample_libs [])) [] plain_config"
    by (simp_all add: literal_lib_set plain_config_built)
  from event_loop_safe [OF sample_el_env this s sample_rounds_ok(1)] s show ?thesis by blast
qed

text \<open>Nothing ever happens but the timer, until the shutdown signal is seen after the second wait.\<close>

definition late_round :: "bool \<Rightarrow> round" where
  "late_round stop = \<lparr>rd_now = 0, rd_shutdown = False,
     rd_wakes = [\<lparr>shutdown_changed = False, tun_readable = False, woken_after = from_millis 100, wake_schedule = sample_schedule\<rparr>],
     rd_shutdown' = stop, rd_schedule = sample_schedule\<rparr>"

theorem loop_runs_until_shutdown_witness:
  "\<exists>self self'. el_new (sample_libs []) 3 plain_config [] 0 0 () [] = Inr self \<and>
     el_run (sample_libs []) [late_round False, late_round True] self = Some (Inr (self', True))"
proof -
  let ?rs = "[late_round False, late_round True]"
  obtain self where s: "el_new (sample_libs []) 3 plain_config [] 0 0 () [] = Inr self" using sample_new by blast
  have "regex_set_spec (regex (sample_libs [])) literal_match" "built_from (regex (sample_libs [])) [] plain_config"
    by (simp_all add: literal_lib_set plain_config_built)
  moreover have "rounds_ok ?rs" by (simp add: rounds_ok_def late_round_def sample_rounds_ok(2))
  moreover have "\<forall>r \<in> set ?rs. \<exists>wake \<in> set (rd_wakes r). MAX_POLL_DELAY \<le> woken_after wake"
    by (simp add: late_round_def MAX_POLL_DELAY_def)
  ultimately obtain self' ended where
    "el_run (sample_libs []) ?rs self = Some (Inr (self', ended))" "ended \<longleftrightarrow> (\<exists>r \<in> set ?rs. rd_shutdown r \<or> rd_shutdown' r)"
    using loop_runs_until_shutdown [OF sample_el_env _ _ s] by blast
  moreover have "\<exists>r \<in> set ?rs. rd_shutdown r \<or> rd_shutdown' r" by (simp add: late_round_def)
  ultimately show ?thesis using s by auto
qed

text \<open>A connection from the request to the tunnel, in one tick and the wait that follows.\<close>

definition sample_start :: "(script, pipe, unit, bytes list \<times> bytes list, unit, proxy_config \<times> proxy_target, string list,
    script accepted_connection list, unit, bytes list) event_loop" where
  "sample_start = \<lparr>el_config = plain_config, el_device = \<lparr>fd = 3, rx_queue = []\<rparr>, el_interface = (),
     el_sockets = [0 \<mapsto> Udp ([], [])], el_dns = \<lparr>dns_handle = 0, dns_pool = new\<rparr>, el_outbound = ob_new,
     el_published = \<lparr>pub_states = Map.empty, handle_to_port = Map.empty, ports = allocator_new, accepted_rx = [],
       pending = [], accept_tasks = []\<rparr>, el_runtime = (), el_kernel = [sample_syn]\<rparr>"

lemma sample_start_new: "el_new (sample_libs input) 3 plain_config [] 0 0 () [sample_syn] = Inr sample_start"
  by (simp add: el_new_def tun_new_def list_tun_def eager_iface_def dns_new_def queue_udp_def Let_def ss_add_def
      pub_new_def list_chan_def sample_start_def least_alloc_def)

lemma sample_front:
  "tick_front (sample_libs [9]) sample_schedule sample_start =
     Some (Inr (sample_start\<lparr>el_kernel := [], el_device := \<lparr>fd = 3, rx_queue = [sample_syn]\<rparr>,
       el_outbound := \<lparr>ob_states = [1 \<mapsto> Listening 0],
         listening_endpoints = {(ipv4_new 10 0 0 1, 12345, ipv4_new 1 2 3 4, 80)},
         handle_to_endpoint = [1 \<mapsto> (ipv4_new 10 0 0 1, 12345, ipv4_new 1 2 3 4, 80)]\<rparr>,
       el_sockets := [0 \<mapsto> Udp ([], []),
         1 \<mapsto> Tcp \<lparr>pipe_state = TListen, pipe_in = [], pipe_queued = [], pipe_removed = [], pipe_local = None\<rparr>]\<rparr>))"
proof -
  have r: "read_packets list_tun [sample_syn] \<lparr>fd = 3, rx_queue = []\<rparr> = Some ([], \<lparr>fd = 3, rx_queue = [sample_syn]\<rparr>)"
    by (subst read_packets.simps, simp add: tun_poll_read_def list_tun_def, subst read_packets.simps)
      (simp add: tun_poll_read_def list_tun_def sample_syn_def)
  have d: "drain_accepted list_chan [] [] = Some ([], [])"
    by (subst drain_accepted.simps) (simp add: list_chan_def)
  show ?thesis
    by (simp add: tick_front_def sample_start_def r observe_syns_def observe_syn_def sample_syn_parse
        attach_accepted_def d ob_new_def pipe_tcp_def new_tcp_socket_def ss_add_def least_alloc_def sample_schedule_def Let_def)
qed

definition sample_connecting :: "(script, pipe, unit, bytes list \<times> bytes list, unit, proxy_config \<times> proxy_target, string list,
    script accepted_connection list, unit, bytes list) event_loop" where
  "sample_connecting = sample_start\<lparr>el_kernel := [],
     el_outbound := \<lparr>ob_states = [1 \<mapsto> Connecting (Direct, Ip (V4 (ipv4_new 1 2 3 4)) 80)],
       listening_endpoints = {(ipv4_new 10 0 0 1, 12345, ipv4_new 1 2 3 4, 80)},
       handle_to_endpoint = [1 \<mapsto> (ipv4_new 10 0 0 1, 12345, ipv4_new 1 2 3 4, 80)]\<rparr>,
     el_sockets := [0 \<mapsto> Udp ([], []),
       1 \<mapsto> Tcp \<lparr>pipe_state = TEstablished, pipe_in = [], pipe_queued = [], pipe_removed = [],
         pipe_local = Some (ipv4_new 1 2 3 4, 80)\<rparr>]\<rparr>"

lemma sample_route: "proxy_for literal_lib plain_config (Ip (V4 (ipv4_new 1 2 3 4)) 80) = Inr Direct"
  by code_simp

lemma sample_poll:
  "poll_interface (sample_libs [9]) now (sample_start\<lparr>el_kernel := [], el_device := \<lparr>fd = 3, rx_queue = [sample_syn]\<rparr>,
       el_outbound := ob, el_sockets := [0 \<mapsto> Udp ([], []),
         1 \<mapsto> Tcp \<lparr>pipe_state = TListen, pipe_in = [], pipe_queued = [], pipe_removed = [], pipe_local = None\<rparr>]\<rparr>) =
   sample_connecting\<lparr>el_outbound := ob\<rparr>"
  by (auto simp: poll_interface_def eager_iface_def sample_start_def sample_connecting_def complete_socket_def complete_def fun_eq_iff)

lemma sample_tick: "tick (sample_libs [9]) sample_schedule sample_start = Some (Inr sample_connecting)"
proof -
  have d: "dns_loop queue_udp ([], []) new = Some (Inr (([], []), new))"
    by (subst dns_loop.simps) (simp add: queue_udp_def)
  have t: "target_for \<lparr>dns_handle = 0, dns_pool = new\<rparr> (ipv4_new 1 2 3 4) 80 = Ip (V4 (ipv4_new 1 2 3 4)) 80"
    by (simp add: target_for_def new_def lookup_def)
  have m: "tick_middle (sample_libs [9]) sample_schedule
      (sample_connecting\<lparr>el_outbound := \<lparr>ob_states = [1 \<mapsto> Listening 0],
         listening_endpoints = {(ipv4_new 10 0 0 1, 12345, ipv4_new 1 2 3 4, 80)},
         handle_to_endpoint = [1 \<mapsto> (ipv4_new 10 0 0 1, 12345, ipv4_new 1 2 3 4, 80)]\<rparr>\<rparr>) = Some (Inr sample_connecting)"
    by (simp add: tick_middle_def dns_process_def get_udp_def sample_connecting_def sample_start_def d t
        ob_process_def log_listener_transitions_def update_listeners_def update_listener_def ob_shuttle_established_def
        is_established_def sample_schedule_def get_tcp_def pipe_tcp_def sample_route eager_tasks_def set_state_def
        pub_process_def pub_poll_connecting_def pub_shuttle_established_def Let_def fun_upd_twist)
  have p: "poll_interface (sample_libs [9]) now sample_connecting = sample_connecting" for now
    by (auto simp: poll_interface_def eager_iface_def sample_start_def sample_connecting_def complete_socket_def complete_def fun_eq_iff)
  have e: "tick_end sample_schedule sample_connecting = Some (Inr sample_connecting)"
    by (simp add: tick_end_def sample_connecting_def sample_start_def ob_cleanup_def pub_cleanup_def is_closing_def sample_schedule_def Let_def)
  show ?thesis
    by (simp only: tick_eq sample_front tick_bind_simps sample_poll m p e)
qed

definition sample_stream :: "script proxy_stream" where
  "sample_stream = proxy_stream_new \<lparr>script_in = [9], script_sent = [], script_taken = []\<rparr> []"

lemma sample_established:
  "\<exists>self. poll_connections (sample_libs [9]) sample_schedule sample_connecting = Inr (self, True) \<and>
     ob_states (el_outbound self) 1 = Some (Established (new_context sample_stream))"
proof -
  have t: "task_poll (eager_tasks [9]) () (Direct, Ip (V4 (ipv4_new 1 2 3 4)) 80) = ((), Ready (Inr (Inr sample_stream)))"
    by (simp add: eager_tasks_def connect_def direct_connect_def dial_out_def script_lib_def sample_stream_def)
  have c: "ob_poll_connecting pipe_tcp (eager_tasks [9]) sorted_list_of_set (el_outbound sample_connecting)
      (el_sockets sample_connecting) () =
      Inr (set_state 1 (Established (new_context sample_stream)) (el_outbound sample_connecting), el_sockets sample_connecting, (), True)"
    by (simp add: ob_poll_connecting_def sample_connecting_def is_connecting_def poll_connecting_one_def Let_def t set_state_def)
  show ?thesis
    by (simp add: poll_connections_def ob_poll_ready_def sample_schedule_def c)
      (simp add: sample_connecting_def sample_start_def ob_ready_one_def set_state_def get_tcp_def pub_poll_ready_def list_chan_def Let_def)
qed

theorem forwarded_connections_are_tunnels_witness:
  "\<exists>self self' t. el_new (sample_libs [9]) 3 plain_config [] 0 0 () [sample_syn] = Inr self \<and>
     el_run (sample_libs [9]) [sample_round, sample_round\<lparr>rd_shutdown' := True\<rparr>] self = Some (Inr (self', True)) \<and>
     ob_states (el_outbound self') 1 = Some (Established (new_context sample_stream)) \<and>
     el_sockets self' 1 = Some (Tcp t) \<and>
     tunnel literal_lib plain_config (script_lib [9]) sample_logs {new} (new_context sample_stream) t"
proof -
  let ?rs = "[sample_round, sample_round\<lparr>rd_shutdown' := True\<rparr>]"
  obtain self' where e: "poll_connections (sample_libs [9]) sample_schedule sample_connecting = Inr (self', True)"
    "ob_states (el_outbound self') 1 = Some (Established (new_context sample_stream))" using sample_established by blast
  have idle: "poll_connections (sample_libs [9]) sample_schedule sample_start = Inr (sample_start, False)"
    by (simp add: poll_connections_def ob_poll_ready_def ob_poll_connecting_def sample_start_def ob_new_def sample_schedule_def
        pub_poll_ready_def list_chan_def Let_def)
  have r: "el_run (sample_libs [9]) ?rs sample_start = Some (Inr (self', True))"
    using idle e(1) sample_tick by (auto simp: sample_round_def wait_for_work_def Let_def)
  have ok: "rounds_ok ?rs" using sample_rounds_ok by (simp add: rounds_ok_def sample_round_def)
  have set: "regex_set_spec (regex (sample_libs [9])) literal_match" "built_from (regex (sample_libs [9])) [] plain_config"
    by (simp_all add: literal_lib_set plain_config_built)
  have pools: "tick_pools (sample_libs [9]) ?rs sample_start = [new]"
    using idle e(1) sample_tick by (simp add: sample_round_def wait_for_work_def Let_def sample_connecting_def sample_start_def)
  from forwarded_connections_are_tunnels [OF sample_el_env set sample_start_new ok r e(2), unfolded pools sample_libs_sel]
  obtain t where "el_sockets self' 1 = Some (Tcp t)"
    "tunnel literal_lib plain_config (script_lib [9]) sample_logs (set [new]) (new_context sample_stream) t" by blast
  with r e(2) sample_start_new show ?thesis unfolding list.set by blast
qed

end
