(* ===== verification/Bind_Mounts.thy ===== *)
theory Bind_Mounts
  imports App_Config
begin

text \<open>
  The bind mounts of the command line: \<open>parse_bind_mounts\<close> and \<open>inspect_bind_path\<close> of
  \<open>src/src/namespace.rs\<close>, with the functions of \<open>std::path\<close> they use. What \<open>lstat\<close> says of
  a path (\<open>std::fs::symlink_metadata\<close>) is a parameter, a snapshot of the file system taken while
  the command line is parsed; so is the current directory that \<open>std::path::absolute\<close> falls back to.
\<close>

section \<open>Paths\<close>

text \<open>\<open>Path::is_absolute\<close>, \<open>PathBuf::push\<close> (and \<open>Path::join\<close>) on Unix.\<close>

definition is_absolute :: "string \<Rightarrow> bool" where
  "is_absolute p \<longleftrightarrow> starts_with ''/'' p"

definition path_push :: "string \<Rightarrow> string \<Rightarrow> string" where
  "path_push b p =
     (if is_absolute p then p
      else if b = [] \<or> last b = CHR ''/'' then b @ p
      else b @ CHR ''/'' # p)"

text \<open>
  \<open>Path::components\<close> after the root and after a leading \<open>.\<close> has been stripped: empty and
  \<open>.\<close> components are dropped, \<open>..\<close> stays.
\<close>

definition path_names :: "string \<Rightarrow> string list" where
  "path_names p = filter (\<lambda>c. c \<noteq> [] \<and> c \<noteq> ''.'') (str_split CHR ''/'' p)"

text \<open>
  \<open>std::path::absolute\<close> on Unix: an empty path is an error; exactly two leading slashes are
  kept, any other number becomes one; a trailing slash is kept; a relative path is put under
  the current directory.
\<close>

definition path_absolute :: "('e + string) \<Rightarrow> 'e \<Rightarrow> string \<Rightarrow> 'e + string" where
  "path_absolute cur e0 p =
     (if p = [] then Inl e0
      else result_bind
        (if is_absolute p
         then Inr (if starts_with ''//'' p \<and> \<not> starts_with ''///'' p then ''//'' else ''/'')
         else cur)
        (\<lambda>base. let normalized = foldl path_push base (path_names p)
           in Inr (if last p = CHR ''/'' then path_push normalized [] else normalized)))"

section \<open>Files\<close>

type_synonym errno = int

datatype file_type = RegularFile | Symlink | OtherFile

record metadata =
  md_dev :: "64 word"
  md_ino :: "64 word"
  md_type :: file_type

type_synonym file_id = "64 word \<times> 64 word"

definition file_identity :: "metadata \<Rightarrow> file_id" where
  "file_identity m = (md_dev m, md_ino m)"

datatype bind_error =
    InspectInternal errno
  | InvalidBind string
  | NotAbsolute string string errno
  | InspectFailed string string errno
  | NotFileOrSymlink string string
  | InternalTarget string
  | DuplicateTarget string

definition EINVAL :: errno where "EINVAL = 22"

definition INTERNAL_BIND_TARGETS :: "string list" where
  "INTERNAL_BIND_TARGETS = [''/etc/resolv.conf'', ''/etc/nsswitch.conf'']"

text \<open>The file system while the command line is parsed.\<close>

record file_system =
  symlink_metadata :: "string \<Rightarrow> errno + metadata"
  current_dir :: "errno + string"

section \<open>Parsing\<close>

definition map_error :: "('e \<Rightarrow> 'f) \<Rightarrow> 'e + 'a \<Rightarrow> 'f + 'a" where
  "map_error f r = (case r of Inl e \<Rightarrow> Inl (f e) | Inr x \<Rightarrow> Inr x)"

definition inspect_bind_path ::
  "file_system \<Rightarrow> string \<Rightarrow> string \<Rightarrow> string \<Rightarrow> bind_error + string \<times> file_id" where
  "inspect_bind_path F p cwd side =
     (let p = (if is_absolute p then p else path_push cwd p)
      in result_bind (map_error (NotAbsolute side p) (path_absolute (current_dir F) EINVAL p)) (\<lambda>p.
         result_bind (map_error (InspectFailed side p) (symlink_metadata F p)) (\<lambda>md.
           if md_type md \<noteq> RegularFile \<and> md_type md \<noteq> Symlink then Inl (NotFileOrSymlink side p)
           else Inr (p, file_identity md))))"

primrec parse_bind_loop ::
  "file_system \<Rightarrow> string \<Rightarrow> file_id set \<Rightarrow> string list \<Rightarrow> file_id set \<Rightarrow> bind_mount list \<Rightarrow>
   bind_error + bind_mount list" where
  "parse_bind_loop F cwd internal_targets [] targets mounts = Inr mounts"
| "parse_bind_loop F cwd internal_targets (spec # specs) targets mounts =
     (let fields = str_split CHR '':'' spec;
          source = (case fields of s # _ \<Rightarrow> s | [] \<Rightarrow> []);
          target = (case fields of _ # t # _ \<Rightarrow> t | _ \<Rightarrow> [])
      in if source = [] \<or> target = [] \<or> length fields > 2 then Inl (InvalidBind spec)
         else
           result_bind (inspect_bind_path F source cwd ''source'') (\<lambda>(source, _).
           result_bind (inspect_bind_path F target cwd ''target'') (\<lambda>(target, target_id).
             if target_id \<in> internal_targets then Inl (InternalTarget target)
             else if target_id \<in> targets then Inl (DuplicateTarget target)
             else parse_bind_loop F cwd internal_targets specs (insert target_id targets)
               (mounts @ [\<lparr>bm_source = source, bm_target = target\<rparr>]))))"

definition internal_ids :: "file_system \<Rightarrow> errno + file_id list" where
  "internal_ids F =
     result_map (\<lambda>p. result_bind (symlink_metadata F p) (\<lambda>md. Inr (file_identity md))) INTERNAL_BIND_TARGETS"

definition parse_bind_mounts :: "file_system \<Rightarrow> string list \<Rightarrow> string \<Rightarrow> bind_error + bind_mount list" where
  "parse_bind_mounts F specs cwd =
     (if specs = [] then Inr []
      else result_bind (map_error InspectInternal (internal_ids F)) (\<lambda>ids.
        parse_bind_loop F cwd (set ids) specs {} []))"

section \<open>Lemmas on paths\<close>

lemma is_absolute_Cons: "is_absolute p \<longleftrightarrow> (\<exists>q. p = CHR ''/'' # q)"
  by (cases p) (auto simp: is_absolute_def starts_with_def)

lemma path_push_absolute: "is_absolute b \<Longrightarrow> is_absolute (path_push b p)"
  by (auto simp: path_push_def is_absolute_Cons)

lemma foldl_push_absolute: "is_absolute b \<Longrightarrow> is_absolute (foldl path_push b ps)"
  by (induction ps arbitrary: b) (auto intro: path_push_absolute)

lemma is_absolute_roots [simp]: "is_absolute ''/''" "is_absolute ''//''"
  by (simp_all add: is_absolute_Cons)

lemma path_absolute_is_absolute:
  assumes "path_absolute cur e p = Inr q" and "is_absolute p \<or> (\<exists>d. cur = Inr d \<and> is_absolute d)"
  shows "is_absolute q"
  using assms
  by (auto simp: path_absolute_def Let_def result_bind_Inr_iff
      split: if_splits intro!: path_push_absolute foldl_push_absolute)

text \<open>Paths that are already normal are left alone.\<close>

definition plain_name :: "string \<Rightarrow> bool" where
  "plain_name c \<longleftrightarrow> c \<noteq> [] \<and> c \<noteq> ''.'' \<and> CHR ''/'' \<notin> set c"

definition abs_path :: "string list \<Rightarrow> string" where
  "abs_path cs = CHR ''/'' # str_join CHR ''/'' cs"

lemma foldl_push_names:
  assumes "\<forall>c \<in> set cs. plain_name c" and "b \<noteq> []" and "last b \<noteq> CHR ''/''"
  shows "foldl path_push b cs = b @ concat (map (\<lambda>c. CHR ''/'' # c) cs)"
  using assms
proof (induction cs arbitrary: b)
  case (Cons c cs)
  from Cons.prems have "\<not> is_absolute c" "c \<noteq> []" "last c \<noteq> CHR ''/''"
    by (auto simp: plain_name_def is_absolute_Cons dest: last_in_set)
  with Cons show ?case by (simp add: path_push_def)
qed simp

lemma str_join_concat:
  "str_join c (s # ss) = s @ concat (map (\<lambda>t. c # t) ss)"
  by (induction ss arbitrary: s) simp_all

lemma foldl_push_root:
  assumes "\<forall>c \<in> set cs. plain_name c"
  shows "foldl path_push ''/'' cs = abs_path cs"
proof (cases cs)
  case (Cons c ds)
  with assms have "\<not> is_absolute c" "last (''/'' @ c) \<noteq> CHR ''/''"
    by (auto simp: plain_name_def is_absolute_Cons dest: last_in_set)
  with Cons assms foldl_push_names [of ds "''/'' @ c"] show ?thesis
    by (simp add: path_push_def abs_path_def str_join_concat)
qed (simp add: abs_path_def)

lemma path_names_abs:
  assumes "\<forall>c \<in> set cs. plain_name c"
  shows "path_names (abs_path cs) = cs"
proof -
  have "filter (\<lambda>c. c \<noteq> [] \<and> c \<noteq> ''.'') cs = cs"
    using assms by (auto simp: plain_name_def intro: filter_True)
  with assms show ?thesis
    by (cases cs) (auto simp: path_names_def abs_path_def plain_name_def str_split_join)
qed

lemma last_str_join: "ss \<noteq> [] \<Longrightarrow> last ss \<noteq> [] \<Longrightarrow> last (str_join c ss) = last (last ss)"
  by (induction c ss rule: str_join.induct) (auto simp: str_join_eq_Nil)

lemma abs_path_last:
  assumes "\<forall>c \<in> set cs. plain_name c" and "cs \<noteq> []"
  shows "last (abs_path cs) \<noteq> CHR ''/'' \<and> \<not> starts_with ''//'' (abs_path cs)"
proof
  have l: "plain_name (last cs)" using assms by simp
  then have "str_join CHR ''/'' cs \<noteq> []" "last (last cs) \<noteq> CHR ''/''"
    using assms(2) by (auto simp: plain_name_def str_join_eq_Nil dest: last_in_set)
  with l assms(2) show "last (abs_path cs) \<noteq> CHR ''/''"
    by (simp add: abs_path_def last_str_join plain_name_def)
  obtain c d ds where "cs = (c # d) # ds" "c \<noteq> CHR ''/''"
    using assms by (cases cs; cases "hd cs") (auto simp: plain_name_def)
  then show "\<not> starts_with ''//'' (abs_path cs)"
    by (simp add: abs_path_def starts_with_def str_join_concat)
qed

lemma path_absolute_normal:
  assumes "\<forall>c \<in> set cs. plain_name c" and "cs \<noteq> []"
  shows "path_absolute cur e0 (abs_path cs) = Inr (abs_path cs)"
  using abs_path_last [OF assms] assms
  by (simp add: path_absolute_def foldl_push_root path_names_abs Let_def)
    (simp add: abs_path_def is_absolute_Cons)

lemma map_error_Inr [simp]: "map_error f r = Inr x \<longleftrightarrow> r = Inr x"
  by (cases r) (auto simp: map_error_def)

section \<open>What is accepted\<close>

text \<open>
  The object a path names, by its device and inode number: a regular file, or a symbolic link that
  is not followed. A side of a specification stands for the absolute path it is completed to.
\<close>

definition names_object :: "file_system \<Rightarrow> string \<Rightarrow> file_id \<Rightarrow> bool" where
  "names_object F p i \<longleftrightarrow>
     (\<exists>md. symlink_metadata F p = Inr md \<and> md_type md \<in> {RegularFile, Symlink} \<and> i = (md_dev md, md_ino md))"

definition side_path :: "file_system \<Rightarrow> string \<Rightarrow> string \<Rightarrow> string \<Rightarrow> bool" where
  "side_path F cwd p q \<longleftrightarrow> path_absolute (current_dir F) EINVAL (if is_absolute p then p else path_push cwd p) = Inr q"

text \<open>One mount specification, its mount and the identity of the object it covers.\<close>

definition bind_text :: "file_system \<Rightarrow> string \<Rightarrow> string \<Rightarrow> bind_mount \<times> file_id \<Rightarrow> bool" where
  "bind_text F cwd spec mi \<longleftrightarrow>
     (\<exists>s t sid. spec = s @ CHR '':'' # t \<and> CHR '':'' \<notin> set s \<union> set t \<and> s \<noteq> [] \<and> t \<noteq> [] \<and>
        side_path F cwd s (bm_source (fst mi)) \<and> names_object F (bm_source (fst mi)) sid \<and>
        side_path F cwd t (bm_target (fst mi)) \<and> names_object F (bm_target (fst mi)) (snd mi))"

lemma inspect_bind_path_iff:
  "inspect_bind_path F p cwd side = Inr (q, i) \<longleftrightarrow> side_path F cwd p q \<and> names_object F q i"
  by (auto simp: inspect_bind_path_def side_path_def names_object_def file_identity_def Let_def result_bind_Inr_iff
      split: if_splits)

lemma str_split_two: "str_split c s = [a, b] \<longleftrightarrow> s = a @ c # b \<and> c \<notin> set a \<union> set b"
proof
  assume l: "str_split c s = [a, b]"
  then have "s = str_join c [a, b]" by (metis str_join_split)
  moreover from l str_split_pieces [of a c s] str_split_pieces [of b c s]
  have "c \<notin> set a" "c \<notin> set b" by simp_all
  ultimately show "s = a @ c # b \<and> c \<notin> set a \<union> set b" by simp
qed simp

lemma bind_text_split:
  "bind_text F cwd spec (m, tid) \<longleftrightarrow>
     (case str_split CHR '':'' spec of
        [s, t] \<Rightarrow> s \<noteq> [] \<and> t \<noteq> [] \<and>
          (\<exists>sid. inspect_bind_path F s cwd ''source'' = Inr (bm_source m, sid)) \<and>
          inspect_bind_path F t cwd ''target'' = Inr (bm_target m, tid)
      | _ \<Rightarrow> False)" (is "_ \<longleftrightarrow> ?rhs")
proof
  assume "bind_text F cwd spec (m, tid)"
  then obtain s t sid where "str_split CHR '':'' spec = [s, t]" "s \<noteq> []" "t \<noteq> []"
    "inspect_bind_path F s cwd ''source'' = Inr (bm_source m, sid)"
    "inspect_bind_path F t cwd ''target'' = Inr (bm_target m, tid)"
    unfolding bind_text_def inspect_bind_path_iff by auto
  then show ?rhs by simp
next
  assume ?rhs
  then obtain s t sid where "str_split CHR '':'' spec = [s, t]" and st: "s \<noteq> []" "t \<noteq> []"
    "inspect_bind_path F s cwd ''source'' = Inr (bm_source m, sid)"
    "inspect_bind_path F t cwd ''target'' = Inr (bm_target m, tid)"
    by (auto split: list.splits)
  then have "spec = s @ CHR '':'' # t" "CHR '':'' \<notin> set s \<union> set t"
    using str_split_two by blast+
  with st show "bind_text F cwd spec (m, tid)"
    unfolding bind_text_def inspect_bind_path_iff by (intro exI [of _ s] exI [of _ t] exI [of _ sid]) simp
qed

lemma parse_bind_loop_Cons:
  "parse_bind_loop F cwd internal (spec # specs) targets mounts = Inr ms \<longleftrightarrow>
     (\<exists>m tid. bind_text F cwd spec (m, tid) \<and> tid \<notin> internal \<and> tid \<notin> targets \<and>
        parse_bind_loop F cwd internal specs (insert tid targets) (mounts @ [m]) = Inr ms)"
    (is "?l \<longleftrightarrow> ?r")
proof (cases "str_split CHR '':'' spec")
  case (Cons s ts)
  show ?thesis
  proof (cases "\<exists>t. ts = [t]")
    case True
    then obtain t where f: "str_split CHR '':'' spec = [s, t]" using Cons by blast
    have mk: "(\<exists>m. bm_source m = a \<and> bm_target m = b \<and> P m) \<longleftrightarrow> P \<lparr>bm_source = a, bm_target = b\<rparr>"
      for a b and P :: "bind_mount \<Rightarrow> bool"
      by (metis (full_types) bind_mount.surjective bind_mount.select_convs(1,2) old.unit.exhaust)
    have "?l \<longleftrightarrow> s \<noteq> [] \<and> t \<noteq> [] \<and> (\<exists>a sid b tid.
        inspect_bind_path F s cwd ''source'' = Inr (a, sid) \<and>
        inspect_bind_path F t cwd ''target'' = Inr (b, tid) \<and> tid \<notin> internal \<and> tid \<notin> targets \<and>
        parse_bind_loop F cwd internal specs (insert tid targets)
          (mounts @ [\<lparr>bm_source = a, bm_target = b\<rparr>]) = Inr ms)"
      using f by (auto simp: result_bind_Inr_iff)
    also have "\<dots> \<longleftrightarrow> (\<exists>a b m. bm_source m = a \<and> bm_target m = b \<and> (\<exists>tid sid. s \<noteq> [] \<and> t \<noteq> [] \<and>
        inspect_bind_path F s cwd ''source'' = Inr (a, sid) \<and>
        inspect_bind_path F t cwd ''target'' = Inr (b, tid) \<and> tid \<notin> internal \<and> tid \<notin> targets \<and>
        parse_bind_loop F cwd internal specs (insert tid targets) (mounts @ [m]) = Inr ms))"
      by (simp only: mk) blast
    also have "\<dots> \<longleftrightarrow> ?r"
      unfolding bind_text_split f list.case by blast
    finally show ?thesis .
  next
    case False
    with Cons show ?thesis
      by (cases ts; cases "tl ts") (auto simp: bind_text_split)
  qed
qed simp

lemma parse_bind_loop_iff:
  "parse_bind_loop F cwd internal specs targets mounts = Inr ms \<longleftrightarrow>
     (\<exists>ps. list_all2 (bind_text F cwd) specs ps \<and> ms = mounts @ map fst ps \<and>
        distinct (map snd ps) \<and> snd ` set ps \<inter> (internal \<union> targets) = {})"
proof (induction specs arbitrary: targets mounts)
  case (Cons spec specs)
  have ex: "(\<exists>p. Q p) \<longleftrightarrow> (\<exists>m tid. Q (m, tid))" for Q :: "bind_mount \<times> file_id \<Rightarrow> bool"
    by (rule split_paired_Ex)
  have "parse_bind_loop F cwd internal (spec # specs) targets mounts = Inr ms \<longleftrightarrow>
     (\<exists>m tid ps. bind_text F cwd spec (m, tid) \<and> tid \<notin> internal \<and> tid \<notin> targets \<and>
        list_all2 (bind_text F cwd) specs ps \<and> ms = (mounts @ [m]) @ map fst ps \<and>
        distinct (map snd ps) \<and> snd ` set ps \<inter> (internal \<union> insert tid targets) = {})"
    by (simp only: parse_bind_loop_Cons Cons.IH) blast
  also have "\<dots> \<longleftrightarrow> (\<exists>p ps. bind_text F cwd spec p \<and> list_all2 (bind_text F cwd) specs ps \<and>
        ms = mounts @ map fst (p # ps) \<and> distinct (map snd (p # ps)) \<and>
        snd ` set (p # ps) \<inter> (internal \<union> targets) = {})"
    unfolding ex
    by (simp only: fst_conv snd_conv list.map list.set distinct.simps image_insert append.simps
        append_assoc set_map) blast
  finally show ?case
    by (simp only: list_all2_Cons1) blast
qed auto

lemma internal_ids_iff:
  "internal_ids F = Inr ids \<longleftrightarrow>
     (\<exists>r n. symlink_metadata F ''/etc/resolv.conf'' = Inr r \<and> symlink_metadata F ''/etc/nsswitch.conf'' = Inr n \<and>
        ids = [(md_dev r, md_ino r), (md_dev n, md_ino n)])"
  by (auto simp: internal_ids_def INTERNAL_BIND_TARGETS_def file_identity_def result_bind_Inr_iff)

section \<open>Properties\<close>

text \<open>
  C22. Bind mounts are accepted exactly when each specification is one source and one target
  separated by a single colon, neither of them empty, both completed to absolute paths that name a
  regular file or a symbolic link (which is not followed), and the covered objects are pairwise
  different, by device and inode number, and are neither the object at \<open>/etc/resolv.conf\<close> nor the one at
  \<open>/etc/nsswitch.conf\<close>, which must both exist; the mounts then come in command-line order. Without a
  specification nothing is required.
\<close>

theorem parse_bind_mounts_iff:
  "parse_bind_mounts F specs cwd = Inr ms \<longleftrightarrow>
     (if specs = [] then ms = []
      else \<exists>r n ps. symlink_metadata F ''/etc/resolv.conf'' = Inr r \<and> symlink_metadata F ''/etc/nsswitch.conf'' = Inr n \<and>
        list_all2 (bind_text F cwd) specs ps \<and> ms = map fst ps \<and> distinct (map snd ps) \<and>
        snd ` set ps \<inter> {(md_dev r, md_ino r), (md_dev n, md_ino n)} = {})"
proof (cases specs)
  case (Cons spec specs')
  then have "specs \<noteq> []" by simp
  then show ?thesis
    by (simp only: parse_bind_mounts_def result_bind_Inr_iff parse_bind_loop_iff map_error_Inr internal_ids_iff
        if_False append_Nil Un_empty_right) auto
qed (auto simp: parse_bind_mounts_def)

lemma inspect_bind_path_names:
  assumes "inspect_bind_path F p cwd side = Inr (q, i)" and "is_absolute cwd"
  shows "is_absolute q \<and> names_object F q i"
proof -
  have "is_absolute (if is_absolute p then p else path_push cwd p)" using assms(2) path_push_absolute by simp
  with assms(1) path_absolute_is_absolute [OF _ disjI1] show ?thesis
    unfolding inspect_bind_path_iff side_path_def by metis
qed

lemma bind_text_names:
  assumes "bind_text F cwd spec (m, i)" and "is_absolute cwd"
  shows "is_absolute (bm_source m) \<and> is_absolute (bm_target m) \<and> names_object F (bm_target m) i \<and>
    (\<exists>j. names_object F (bm_source m) j)"
  using assms inspect_bind_path_names unfolding bind_text_def inspect_bind_path_iff by fastforce

lemma list_all2_in_set2: "list_all2 P xs ys \<Longrightarrow> y \<in> set ys \<Longrightarrow> \<exists>x \<in> set xs. P x y"
  by (metis in_set_conv_nth list_all2_conv_all_nth)

lemma internal_ids_Inr:
  "internal_ids F = Inr ids \<Longrightarrow> p \<in> set INTERNAL_BIND_TARGETS \<Longrightarrow>
     \<exists>md. symlink_metadata F p = Inr md \<and> file_identity md \<in> set ids"
  by (auto simp: internal_ids_def INTERNAL_BIND_TARGETS_def result_bind_Inr_iff)

text \<open>What the later setup relies on: targets are absolute and name no internal object.\<close>

lemma accepted_targets:
  assumes "parse_bind_mounts F specs cwd = Inr ms" and "is_absolute cwd" and "m \<in> set ms"
  shows "is_absolute (bm_source m) \<and> is_absolute (bm_target m) \<and>
    (\<exists>i. names_object F (bm_target m) i \<and>
      (\<forall>p \<in> set INTERNAL_BIND_TARGETS. \<not> names_object F p i))"
proof -
  from assms(1,3) obtain ids ps i where ids: "internal_ids F = Inr ids"
    and ps: "list_all2 (bind_text F cwd) specs ps" "(m, i) \<in> set ps" "snd ` set ps \<inter> set ids = {}"
    by (auto simp: parse_bind_mounts_def result_bind_Inr_iff parse_bind_loop_iff split: if_splits)
  from list_all2_in_set2 [OF ps(1,2)] obtain spec where "bind_text F cwd spec (m, i)" by blast
  note n = bind_text_names [OF this assms(2)]
  have "\<not> names_object F p i" if "p \<in> set INTERNAL_BIND_TARGETS" for p
    using internal_ids_Inr [OF ids that] ps(2,3) by (fastforce simp: names_object_def file_identity_def)
  with n show ?thesis by blast
qed

end
