(* ===== verification/Namespace.thy ===== *)
theory Namespace
  imports Bind_Mounts Tun
begin

text \<open>
  The namespace helpers of \<open>src/src/namespace.rs\<close>: entering the network namespace, writing the
  identity maps, setting up the mount namespace, bringing up the loopback interface, and creating
  and configuring the TUN device. The kernel is a parameter, the record \<open>os_lib\<close> of the calls
  the code makes over a state \<open>'w\<close>; a call returns a number, negative on failure, and the error
  number is read from the state, as in C. What the code relies on is \<open>os_spec\<close>: how each call
  changes the set of open descriptors, the set of temporary files (and which of them could not be
  removed) and the list of calls that took effect.
\<close>

section \<open>Kernel interface\<close>

datatype clone_flag = CLONE_NEWNET | CLONE_NEWUSER | CLONE_NEWNS

datatype mount_flag = MS_REC | MS_PRIVATE | MS_BIND

record sockaddr_in =
  sin_family :: u16
  sin_addr :: bytes

text \<open>The union of an \<open>ifreq\<close> holds the field that was written last.\<close>

datatype ifru = IfruZero | IfruFlags u16 | IfruMtu u32 | IfruAddr sockaddr_in

record ifreq =
  ifr_name :: bytes
  ifr_ifru :: ifru

record rtentry =
  rt_dst :: sockaddr_in
  rt_gateway :: sockaddr_in
  rt_genmask :: sockaddr_in
  rt_flags :: u16
  rt_dev :: bytes

datatype ioctl_arg = IfReq ifreq | RtEntry rtentry

datatype sys_call =
    OpenRdWr string
  | OpenWrite string
  | SocketDgram
  | OpenTree string u32
  | MoveMount int string string u32
  | Ioctl int u32 ioctl_arg
  | Unshare "clone_flag list"
  | Mount "string option" string "string option" "mount_flag list"
  | WriteAll int bytes
  | Fchmod int nat
  | Close int
  | Unlink string

record 'w os_lib =
  os_call :: "sys_call \<Rightarrow> 'w \<Rightarrow> 'w \<times> int"
  os_errno :: "'w \<Rightarrow> errno"
  os_mkstemp :: "string \<Rightarrow> 'w \<Rightarrow> 'w \<times> (errno + int \<times> string)"

datatype ns_error =
    OsError string errno
  | NulByte string
  | NeedsLinux52 string errno
  | AppArmorHint errno
  | NameTooLong string
  | TempPathNotUtf8
  | NsPanic

text \<open>The wrappers of \<open>nix\<close> and \<open>std\<close>: a negative result becomes the error with its context.\<close>

definition sys :: "'w os_lib \<Rightarrow> string \<Rightarrow> sys_call \<Rightarrow> ('w, ns_error, int) io" where
  "sys L ctx c w =
     (case os_call L c w of
        (w, r) \<Rightarrow> if r < 0 then (w, Inl (OsError ctx (os_errno L w))) else (w, Inr r))"

definition sys_ignore :: "'w os_lib \<Rightarrow> sys_call \<Rightarrow> 'w \<Rightarrow> 'w" where
  "sys_ignore L c w = fst (os_call L c w)"

definition ENOSYS :: errno where "ENOSYS = 38"
definition EPERM :: errno where "EPERM = 1"
definition AF_INET :: u16 where "AF_INET = 2"
definition IF_NAMESIZE :: nat where "IF_NAMESIZE = 16"
definition IFF_UP :: u16 where "IFF_UP = 0x1"
definition IFF_RUNNING :: u16 where "IFF_RUNNING = 0x40"
definition RTF_UP :: u16 where "RTF_UP = 0x1"
definition RTF_GATEWAY :: u16 where "RTF_GATEWAY = 0x2"
definition SIOCADDRT :: u32 where "SIOCADDRT = 0x890B"
definition SIOCSIFFLAGS :: u32 where "SIOCSIFFLAGS = 0x8914"
definition SIOCSIFADDR :: u32 where "SIOCSIFADDR = 0x8916"
definition SIOCSIFNETMASK :: u32 where "SIOCSIFNETMASK = 0x891C"
definition SIOCSIFMTU :: u32 where "SIOCSIFMTU = 0x8922"
definition OPEN_TREE_CLONE :: u32 where "OPEN_TREE_CLONE = 0x1"
definition OPEN_TREE_CLOEXEC :: u32 where "OPEN_TREE_CLOEXEC = 0x80000"
definition AT_SYMLINK_NOFOLLOW :: u32 where "AT_SYMLINK_NOFOLLOW = 0x100"

section \<open>Constants of the TUN request\<close>

datatype target_arch = Mips | Mips64 | Powerpc | Powerpc64 | Sparc64 | OtherArch

definition TUNSETIFF :: "target_arch \<Rightarrow> u32" where
  "TUNSETIFF arch =
     (if arch \<in> {Mips, Mips64, Powerpc, Powerpc64, Sparc64} then 0x800454CA else 0x400454CA)"

definition IFF_TUN :: u16 where "IFF_TUN = 0x0001"
definition IFF_NO_PI :: u16 where "IFF_NO_PI = 0x1000"

definition ifreq_zeroed :: ifreq where
  "ifreq_zeroed = \<lparr>ifr_name = replicate IF_NAMESIZE 0, ifr_ifru = IfruZero\<rparr>"

definition ifreq_for :: "string \<Rightarrow> ifreq" where
  "ifreq_for name =
     (let bs = take (IF_NAMESIZE - 1) (as_bytes name)
      in ifreq_zeroed\<lparr>ifr_name := bs @ drop (length bs) (ifr_name ifreq_zeroed)\<rparr>)"

section \<open>Network namespace\<close>

definition create_namespace :: "'w os_lib \<Rightarrow> ('w, ns_error, bool) io" where
  "create_namespace L w =
     (case sys L ''unshare(CLONE_NEWNET)'' (Unshare [CLONE_NEWNET]) w of
        (w, Inr _) \<Rightarrow> (w, Inr False)
      | (w, Inl _) \<Rightarrow>
          io_bind (sys L ''unshare(CLONE_NEWUSER|CLONE_NEWNET)'' (Unshare [CLONE_NEWUSER, CLONE_NEWNET]))
            (\<lambda>_. io_return True) w)"

definition proc_write :: "'w os_lib \<Rightarrow> string \<Rightarrow> string \<Rightarrow> ('w, ns_error, unit) io" where
  "proc_write L path data =
     io_bind (sys L (''open '' @ path) (OpenWrite path)) (\<lambda>f.
       io_finally
         (io_bind (sys L (''write '' @ path) (WriteAll f (as_bytes data))) (\<lambda>_. io_return ()))
         (sys_ignore L (Close f)))"

definition proc_path :: "u32 \<Rightarrow> string \<Rightarrow> string" where
  "proc_path pid file = ''/proc/'' @ show_nat (unat pid) @ ''/'' @ file"

definition id_map :: "u32 \<Rightarrow> string" where
  "id_map i = show_nat (unat i) @ '' '' @ show_nat (unat i) @ '' 1'' @ [CHR 0x0A]"

definition write_id_maps :: "'w os_lib \<Rightarrow> u32 \<Rightarrow> u32 \<Rightarrow> u32 \<Rightarrow> ('w, ns_error, unit) io" where
  "write_id_maps L child_pid uid gid =
     io_bind (proc_write L (proc_path child_pid ''setgroups'') ''deny'') (\<lambda>_.
     io_bind (proc_write L (proc_path child_pid ''uid_map'') (id_map uid)) (\<lambda>_.
       proc_write L (proc_path child_pid ''gid_map'') (id_map gid)))"

section \<open>Mount namespace\<close>

definition bind_mount_nofollow :: "'w os_lib \<Rightarrow> bind_mount \<Rightarrow> ('w, ns_error, unit) io" where
  "bind_mount_nofollow L bm =
     (if CHR 0x00 \<in> set (bm_source bm) then io_fail (NulByte (bm_source bm))
      else if CHR 0x00 \<in> set (bm_target bm) then io_fail (NulByte (bm_target bm))
      else (\<lambda>w. case os_call L (OpenTree (bm_source bm)
                   (OPEN_TREE_CLONE OR OPEN_TREE_CLOEXEC OR AT_SYMLINK_NOFOLLOW)) w of
          (w, mount_fd) \<Rightarrow>
            if mount_fd = -1 then
              let e = os_errno L w
              in (w, Inl (if e = ENOSYS then NeedsLinux52 ''open_tree'' e else OsError ''open bind-mount source object'' e))
            else
              io_finally (\<lambda>w. case os_call L (MoveMount mount_fd [] (bm_target bm) 4) w of
                  (w, moved) \<Rightarrow>
                    if moved = -1 then
                      let e = os_errno L w
                      in (w, Inl (if e = ENOSYS then NeedsLinux52 ''move_mount'' e
                                  else OsError ''attach bind-mount source'' e))
                    else (w, Inr ()))
                (sys_ignore L (Close mount_fd)) w))"

definition bind_mount_tmpfile :: "'w os_lib \<Rightarrow> string \<Rightarrow> string \<Rightarrow> ('w, ns_error, unit) io" where
  "bind_mount_tmpfile L content target w =
     (case os_mkstemp L ''/tmp/nsproxy-XXXXXX'' w of
        (w, Inl e) \<Rightarrow> (w, Inl (OsError ''mkstemp'' e))
      | (w, Inr (file_fd, path)) \<Rightarrow>
          io_finally
            (io_bind
              (io_finally
                (io_bind (sys L (''write '' @ path) (WriteAll file_fd (as_bytes content))) (\<lambda>_.
                   sys L ''make internal DNS configuration readable by all users'' (Fchmod file_fd 0x1A4)))
                (sys_ignore L (Close file_fd)))
              (\<lambda>_. if \<not> valid_str path then io_fail TempPathNotUtf8
                 else io_bind (sys L (''bind-mount '' @ target) (Mount (Some path) target None [MS_BIND]))
                   (\<lambda>_. io_return ())))
            (sys_ignore L (Unlink path)) w)"

primrec bind_mount_all :: "'w os_lib \<Rightarrow> bind_mount list \<Rightarrow> ('w, ns_error, unit) io" where
  "bind_mount_all L [] = io_return ()"
| "bind_mount_all L (bm # bs) = io_bind (bind_mount_nofollow L bm) (\<lambda>_. bind_mount_all L bs)"

definition resolv_conf :: string where
  "resolv_conf = ''nameserver '' @ show_ipv4 DNS_ADDR @ [CHR 0x0A]"

definition nsswitch_conf :: string where
  "nsswitch_conf = ''hosts: files dns'' @ [CHR 0x0A]"

definition setup_mount_namespace :: "'w os_lib \<Rightarrow> bind_mount list \<Rightarrow> ('w, ns_error, unit) io" where
  "setup_mount_namespace L mounts =
     io_bind (sys L ''unshare(CLONE_NEWNS)'' (Unshare [CLONE_NEWNS])) (\<lambda>_.
     io_bind (sys L ''make root mount private'' (Mount None ''/'' None [MS_REC, MS_PRIVATE])) (\<lambda>_.
     io_bind (bind_mount_tmpfile L resolv_conf ''/etc/resolv.conf'') (\<lambda>_.
     io_bind (bind_mount_tmpfile L nsswitch_conf ''/etc/nsswitch.conf'') (\<lambda>_.
     io_bind (bind_mount_all L mounts) (\<lambda>_.
       (\<lambda>w. (sys_ignore L (Mount (Some ''tmpfs'') ''/etc/ssh/ssh_config.d'' (Some ''tmpfs'') []) w, Inr ())))))))"

section \<open>Loopback\<close>

definition bringup_loopback :: "'w os_lib \<Rightarrow> ('w, ns_error, unit) io" where
  "bringup_loopback L =
     io_bind (sys L ''socket() for loopback'' SocketDgram) (\<lambda>sock w.
       let ifr = ifreq_zeroed\<lparr>ifr_name := as_bytes ''lo'' @ drop 2 (ifr_name ifreq_zeroed),
                   ifr_ifru := IfruFlags (IFF_UP OR IFF_RUNNING)\<rparr>
       in case os_call L (Ioctl sock SIOCSIFFLAGS (IfReq ifr)) w of
            (w, ret) \<Rightarrow>
              if ret < 0 then
                let err = os_errno L w;
                    w = sys_ignore L (Close sock) w
                in (w, Inl (if err = EPERM then AppArmorHint err else OsError ''ioctl SIOCSIFFLAGS lo'' err))
              else (sys_ignore L (Close sock) w, Inr ()))"

section \<open>TUN device\<close>

definition netmask_octets :: "u8 \<Rightarrow> panic + bytes" where
  "netmask_octets prefix_len =
     (if prefix_len = 0 then Inr (be32 0)
      else if 32 < unat prefix_len then Inl Panic
      else Inr (be32 (push_bit (32 - unat prefix_len) (- 1))))"

text \<open>One configuration request of \<open>create_tun\<close>; on failure both descriptors are closed first.\<close>

definition config_ioctl :: "'w os_lib \<Rightarrow> string \<Rightarrow> int \<Rightarrow> int \<Rightarrow> u32 \<Rightarrow> ioctl_arg \<Rightarrow> ('w, ns_error, unit) io" where
  "config_ioctl L ctx sock tun_fd req arg w =
     (case os_call L (Ioctl sock req arg) w of
        (w, ret) \<Rightarrow>
          if ret < 0 then
            let w = sys_ignore L (Close tun_fd) (sys_ignore L (Close sock) w)
            in (w, Inl (OsError ctx (os_errno L w)))
          else (w, Inr ()))"

definition sockaddr_of :: "bytes \<Rightarrow> sockaddr_in" where
  "sockaddr_of bs = \<lparr>sin_family = AF_INET, sin_addr = bs\<rparr>"

text \<open>The part of \<open>create_tun\<close> that configures the interface through the socket.\<close>

definition configure_tun :: "'w os_lib \<Rightarrow> bytes \<Rightarrow> int \<Rightarrow> int \<Rightarrow> ('w, ns_error, int) io" where
  "configure_tun L name_buf sock tun_fd =
     (let ifr = ifreq_zeroed\<lparr>ifr_name := name_buf, ifr_ifru := IfruMtu (of_nat TUN_MTU)\<rparr>;
          addr_ifr = ifreq_zeroed\<lparr>ifr_name := name_buf, ifr_ifru := IfruAddr (sockaddr_of (octets TUN_ADDR))\<rparr>;
          up_ifr = ifr\<lparr>ifr_ifru := IfruFlags (IFF_UP OR IFF_RUNNING)\<rparr>;
          route = \<lparr>rt_dst = sockaddr_of (be32 0), rt_gateway = sockaddr_of (octets TUN_GW),
            rt_genmask = sockaddr_of (be32 0), rt_flags = RTF_UP OR RTF_GATEWAY, rt_dev = name_buf\<rparr>
      in
        io_bind (config_ioctl L ''ioctl SIOCSIFMTU'' sock tun_fd SIOCSIFMTU (IfReq ifr)) (\<lambda>_.
        io_bind (config_ioctl L ''ioctl SIOCSIFADDR'' sock tun_fd SIOCSIFADDR (IfReq addr_ifr)) (\<lambda>_.
        io_bind (io_of (map_error (\<lambda>_. NsPanic) (netmask_octets TUN_PREFIX))) (\<lambda>mask.
        let mask_ifr = ifreq_zeroed\<lparr>ifr_name := name_buf, ifr_ifru := IfruAddr (sockaddr_of mask)\<rparr> in
        io_bind (config_ioctl L ''ioctl SIOCSIFNETMASK'' sock tun_fd SIOCSIFNETMASK (IfReq mask_ifr)) (\<lambda>_.
        io_bind (config_ioctl L ''ioctl SIOCSIFFLAGS UP'' sock tun_fd SIOCSIFFLAGS (IfReq up_ifr)) (\<lambda>_.
        io_bind (config_ioctl L ''ioctl SIOCADDRT'' sock tun_fd SIOCADDRT (RtEntry route)) (\<lambda>_.
          (\<lambda>w. (sys_ignore L (Close sock) w, Inr tun_fd)))))))))"

definition create_tun :: "'w os_lib \<Rightarrow> target_arch \<Rightarrow> ('w, ns_error, int) io" where
  "create_tun L arch w =
     (if IF_NAMESIZE \<le> length TUN_NAME then (w, Inl (NameTooLong TUN_NAME))
      else
        let name_buf = as_bytes TUN_NAME @ replicate (IF_NAMESIZE - length TUN_NAME) 0
        in case os_call L (OpenRdWr ''/dev/net/tun'') w of (w, tun_fd) \<Rightarrow>
          if tun_fd = -1 then (w, Inl (OsError ''open /dev/net/tun'' (os_errno L w)))
          else
            let ifr = (ifreq_for TUN_NAME)\<lparr>ifr_ifru := IfruFlags (IFF_TUN OR IFF_NO_PI)\<rparr>
            in case os_call L (Ioctl tun_fd (TUNSETIFF arch) (IfReq ifr)) w of (w, ret) \<Rightarrow>
              if ret = -1 then
                let e = os_errno L w
                in (sys_ignore L (Close tun_fd) w, Inl (OsError ''ioctl TUNSETIFF'' e))
              else case os_call L SocketDgram w of (w, sock) \<Rightarrow>
                if sock < 0 then
                  let w = sys_ignore L (Close tun_fd) w
                  in (w, Inl (OsError ''socket() for tun config'' (os_errno L w)))
                else configure_tun L name_buf sock tun_fd w)"

section \<open>What the kernel promises\<close>

datatype os_event = Opened sys_call int | Did sys_call | MadeTemp string int

record os_view =
  fds :: "int set"
  temps :: "string set"
  stuck :: "string set"
  trace :: "os_event list"

definition opens :: "sys_call \<Rightarrow> bool" where
  "opens c \<longleftrightarrow> (case c of OpenRdWr _ \<Rightarrow> True | OpenWrite _ \<Rightarrow> True | SocketDgram \<Rightarrow> True
     | OpenTree _ _ \<Rightarrow> True | _ \<Rightarrow> False)"

definition call_effect :: "sys_call \<Rightarrow> int \<Rightarrow> os_view \<Rightarrow> os_view" where
  "call_effect c r v =
     (case c of
        Close n \<Rightarrow> v\<lparr>fds := fds v - {n}\<rparr>
      | Unlink p \<Rightarrow> if r < 0 then v\<lparr>stuck := insert p (stuck v)\<rparr> else v\<lparr>temps := temps v - {p}\<rparr>
      | _ \<Rightarrow> if r < 0 then v
             else if opens c then v\<lparr>fds := insert r (fds v), trace := trace v @ [Opened c r]\<rparr>
             else v\<lparr>trace := trace v @ [Did c]\<rparr>)"

definition os_spec :: "'w os_lib \<Rightarrow> ('w \<Rightarrow> os_view) \<Rightarrow> bool" where
  "os_spec L V \<longleftrightarrow>
     (\<forall>c w w' r. os_call L c w = (w', r) \<longrightarrow>
        V w' = call_effect c r (V w) \<and> (opens c \<and> 0 \<le> r \<longrightarrow> r \<notin> fds (V w)) \<and> -1 \<le> r) \<and>
     (\<forall>t w w' e. os_mkstemp L t w = (w', Inl e) \<longrightarrow> V w' = V w) \<and>
     (\<forall>t w w' n p. os_mkstemp L t w = (w', Inr (n, p)) \<longrightarrow>
        0 \<le> n \<and> n \<notin> fds (V w) \<and> p \<notin> temps (V w) \<and>
        V w' = (V w)\<lparr>fds := insert n (fds (V w)), temps := insert p (temps (V w)),
          trace := trace (V w) @ [MadeTemp p n]\<rparr>)"

section \<open>Rules for the calls\<close>

lemma os_specD:
  assumes "os_spec L V"
  shows "os_call L c w = (w', r) \<Longrightarrow> V w' = call_effect c r (V w)"
    and "os_call L c w = (w', r) \<Longrightarrow> opens c \<Longrightarrow> 0 \<le> r \<Longrightarrow> r \<notin> fds (V w)"
    and "os_call L c w = (w', r) \<Longrightarrow> -1 \<le> r"
    and "os_mkstemp L t w = (w', Inl e) \<Longrightarrow> V w' = V w"
    and "os_mkstemp L t w = (w', Inr (n, p)) \<Longrightarrow>
      0 \<le> n \<and> n \<notin> fds (V w) \<and> p \<notin> temps (V w) \<and>
      V w' = (V w)\<lparr>fds := insert n (fds (V w)), temps := insert p (temps (V w)),
        trace := trace (V w) @ [MadeTemp p n]\<rparr>"
  using assms unfolding os_spec_def by blast+

lemma opens_simps [simp]:
  "opens (OpenRdWr p)" "opens (OpenWrite p)" "opens SocketDgram" "opens (OpenTree p f)"
  "\<not> opens (MoveMount n p q f)" "\<not> opens (Ioctl n k a)" "\<not> opens (Unshare cs)"
  "\<not> opens (Mount x p y z)" "\<not> opens (WriteAll n bs)" "\<not> opens (Fchmod n m)"
  "\<not> opens (Close n)" "\<not> opens (Unlink p)"
  by (simp_all add: opens_def)

definition releases :: "sys_call \<Rightarrow> bool" where
  "releases c \<longleftrightarrow> (case c of Close _ \<Rightarrow> True | Unlink _ \<Rightarrow> True | _ \<Rightarrow> False)"

lemma releases_simps [simp]:
  "\<not> releases (OpenRdWr p)" "\<not> releases (OpenWrite p)" "\<not> releases SocketDgram"
  "\<not> releases (OpenTree p f)" "\<not> releases (MoveMount n p q f)" "\<not> releases (Ioctl n k a)"
  "\<not> releases (Unshare cs)" "\<not> releases (Mount x p y z)" "\<not> releases (WriteAll n bs)"
  "\<not> releases (Fchmod n m)"
  by (simp_all add: releases_def)

lemma call_effect_simps [simp]:
  "call_effect (Close n) r v = v\<lparr>fds := fds v - {n}\<rparr>"
  "call_effect (Unlink p) r v = (if r < 0 then v\<lparr>stuck := insert p (stuck v)\<rparr> else v\<lparr>temps := temps v - {p}\<rparr>)"
  "\<not> releases c \<Longrightarrow> r < 0 \<Longrightarrow> call_effect c r v = v"
  "\<not> releases c \<Longrightarrow> 0 \<le> r \<Longrightarrow> opens c \<Longrightarrow>
     call_effect c r v = v\<lparr>fds := insert r (fds v), trace := trace v @ [Opened c r]\<rparr>"
  "\<not> releases c \<Longrightarrow> 0 \<le> r \<Longrightarrow> \<not> opens c \<Longrightarrow> call_effect c r v = v\<lparr>trace := trace v @ [Did c]\<rparr>"
  by (auto simp: call_effect_def releases_def split: sys_call.splits)

lemma sys_ignore_view:
  assumes "os_spec L V"
  shows "V (sys_ignore L (Close n) w) = (V w)\<lparr>fds := fds (V w) - {n}\<rparr>"
    and "V (sys_ignore L (Unlink p) w) = (V w)\<lparr>temps := temps (V w) - {p}\<rparr> \<or>
      V (sys_ignore L (Unlink p) w) = (V w)\<lparr>stuck := insert p (stuck (V w))\<rparr>"
  using os_specD(1) [OF assms, of "Close n" w] os_specD(1) [OF assms, of "Unlink p" w]
  by (simp_all add: sys_ignore_def prod_eq_iff split: if_splits)

text \<open>A call by its wrapper: an error changes nothing, a success is recorded.\<close>

lemma sys_do:
  assumes "os_spec L V" and "\<not> opens c" and "\<not> releases c"
  shows "io_post (sys L ctx c) w (\<lambda>w' r. case r of Inl e \<Rightarrow> V w' = V w
    | Inr n \<Rightarrow> V w' = (V w)\<lparr>trace := trace (V w) @ [Did c]\<rparr>)"
  using assms(2,3) os_specD(1) [OF assms(1), of c w]
  by (auto simp: io_post_def sys_def split: prod.splits)

lemma sys_open:
  assumes "os_spec L V" and "opens c" and "\<not> releases c"
  shows "io_post (sys L ctx c) w (\<lambda>w' r. case r of Inl e \<Rightarrow> V w' = V w
    | Inr n \<Rightarrow> n \<notin> fds (V w) \<and> V w' = (V w)\<lparr>fds := insert n (fds (V w)), trace := trace (V w) @ [Opened c n]\<rparr>)"
  using assms(2,3) os_specD(1,2) [OF assms(1), of c w]
  by (auto simp: io_post_def sys_def split: prod.splits)

section \<open>Effects of the helpers\<close>

text \<open>
  \<open>tidy V w Q\<close>: an error leaves the descriptors and the temporary files of \<open>w\<close> as they were,
  a success with value \<open>x\<close> ends in a view with \<open>Q x\<close>.
\<close>

definition same_resources :: "os_view \<Rightarrow> os_view \<Rightarrow> bool" where
  "same_resources v v' \<longleftrightarrow> fds v' = fds v \<and> temps v' = temps v \<and> stuck v' = stuck v"

definition tidy :: "('w \<Rightarrow> os_view) \<Rightarrow> 'w \<Rightarrow> ('a \<Rightarrow> os_view \<Rightarrow> bool) \<Rightarrow> 'w \<Rightarrow> ns_error + 'a \<Rightarrow> bool" where
  "tidy V w Q w' r = (case r of Inl e \<Rightarrow> same_resources (V w) (V w') | Inr x \<Rightarrow> Q x (V w'))"

lemma tidy_simps [simp]:
  "tidy V w Q w' (Inl e) \<longleftrightarrow> same_resources (V w) (V w')"
  "tidy V w Q w' (Inr x) \<longleftrightarrow> Q x (V w')"
  by (simp_all add: tidy_def)

lemma tidy_mono: "tidy V w P w' r \<Longrightarrow> (\<And>x v. P x v \<Longrightarrow> Q x v) \<Longrightarrow> tidy V w Q w' r"
  by (cases r) auto

lemma same_resources_refl [simp]: "same_resources v v"
  by (simp add: same_resources_def)

text \<open>The calls \<open>cs\<close> took effect, in this order, and nothing else changed.\<close>

definition did :: "os_event list \<Rightarrow> os_view \<Rightarrow> os_view" where
  "did es v = v\<lparr>trace := trace v @ es\<rparr>"

lemma did_simps [simp]:
  "did [] v = v" "did es (did ds v) = did (ds @ es) v"
  "fds (did es v) = fds v" "temps (did es v) = temps v" "stuck (did es v) = stuck v" "trace (did es v) = trace v @ es"
  by (simp_all add: did_def)

lemma same_resources_did [simp]:
  "same_resources (did es v) v' \<longleftrightarrow> same_resources v v'"
  "same_resources v (did es v') \<longleftrightarrow> same_resources v v'"
  by (simp_all add: same_resources_def)

text \<open>
  \<open>performs V m P\<close>: from every state, \<open>m\<close> leaves descriptors and temporary files as they were,
  and when it succeeds with \<open>x\<close> the calls that took effect are a list \<open>es\<close> with \<open>P x es\<close>.
\<close>

definition performs :: "('w \<Rightarrow> os_view) \<Rightarrow> ('w, ns_error, 'a) io \<Rightarrow> ('a \<Rightarrow> os_event list \<Rightarrow> bool) \<Rightarrow> bool" where
  "performs V m P \<longleftrightarrow> (\<forall>w. io_post m w (tidy V w (\<lambda>x v. \<exists>es. v = did es (V w) \<and> P x es)))"

lemma performsI:
  "(\<And>w. io_post m w (tidy V w (\<lambda>x v. \<exists>es. v = did es (V w) \<and> P x es))) \<Longrightarrow> performs V m P"
  by (simp add: performs_def)

lemma performsD:
  assumes "performs V m P" and "m w = (w', r)"
  shows "case r of Inl e \<Rightarrow> same_resources (V w) (V w') | Inr x \<Rightarrow> \<exists>es. V w' = did es (V w) \<and> P x es"
  using assms by (auto simp: performs_def io_post_def tidy_def split: sum.splits prod.splits)

lemma performs_conseq: "performs V m P \<Longrightarrow> (\<And>x es. P x es \<Longrightarrow> Q x es) \<Longrightarrow> performs V m Q"
  unfolding performs_def
  by (intro allI, rule io_post_conseq, erule spec, erule tidy_mono) blast

lemma performs_bind:
  assumes "performs V m P" and "\<And>x. performs V (f x) (Q x)"
  shows "performs V (io_bind m f) (\<lambda>y es. \<exists>x ds cs. es = ds @ cs \<and> P x ds \<and> Q x y cs)"
proof (rule performsI)
  fix w
  show "io_post (io_bind m f) w (tidy V w (\<lambda>y v. \<exists>es. v = did es (V w) \<and>
      (\<exists>x ds cs. es = ds @ cs \<and> P x ds \<and> Q x y cs)))"
  proof (rule io_post_bind [OF assms(1) [unfolded performs_def, rule_format]], simp)
    fix w' x assume "tidy V w (\<lambda>x v. \<exists>es. v = did es (V w) \<and> P x es) w' (Inr x)"
    then obtain ds where ds: "V w' = did ds (V w)" "P x ds" by auto
    show "io_post (f x) w' (tidy V w (\<lambda>y v. \<exists>es. v = did es (V w) \<and>
        (\<exists>x ds cs. es = ds @ cs \<and> P x ds \<and> Q x y cs)))"
      by (rule io_post_conseq [OF assms(2) [unfolded performs_def, rule_format]])
        (use ds in \<open>auto simp: tidy_def split: sum.splits\<close>)
  qed
qed

lemma performs_return: "performs V (io_return x) (\<lambda>y es. y = x \<and> es = [])"
  by (auto simp: performs_def intro: exI [of _ "[]"])

lemma sys_performs:
  assumes "os_spec L V" and "\<not> opens c" and "\<not> releases c"
  shows "performs V (sys L ctx c) (\<lambda>x es. es = [Did c])"
  by (rule performsI, rule io_post_conseq [OF sys_do [OF assms]])
    (auto simp: tidy_def did_def split: sum.splits)

text \<open>The files below \<open>/proc\<close> are opened, written and closed.\<close>

definition written :: "string \<Rightarrow> string \<Rightarrow> int \<Rightarrow> os_event list" where
  "written path data n = [Opened (OpenWrite path) n, Did (WriteAll n (as_bytes data))]"

lemma proc_write_performs:
  assumes "os_spec L V"
  shows "performs V (proc_write L path data) (\<lambda>x es. \<exists>n. es = written path data n)"
  unfolding proc_write_def
proof (rule performsI, rule io_post_bind [OF sys_open [OF assms]])
  fix w w1 n assume "case Inr n of Inl e \<Rightarrow> V w1 = V w
    | Inr n \<Rightarrow> n \<notin> fds (V w) \<and> V w1 = (V w)\<lparr>fds := insert n (fds (V w)), trace := trace (V w) @ [Opened (OpenWrite path) n]\<rparr>"
  then have n: "n \<notin> fds (V w)" "V w1 = (V w)\<lparr>fds := insert n (fds (V w)), trace := trace (V w) @ [Opened (OpenWrite path) n]\<rparr>"
    by simp_all
  show "io_post (io_finally (io_bind (sys L (''write '' @ path) (WriteAll n (as_bytes data))) (\<lambda>_. io_return ()))
      (sys_ignore L (Close n))) w1
      (tidy V w (\<lambda>x v. \<exists>es. v = did es (V w) \<and> (\<exists>n. es = written path data n)))"
    by (rule io_post_finally, rule io_post_bind [OF sys_do [OF assms]])
      (use n in \<open>auto simp: sys_ignore_view [OF assms] same_resources_def did_def written_def\<close>)
qed simp_all

text \<open>The raw calls, whose results the code tests itself.\<close>

lemma raw_do:
  assumes "os_spec L V" and "os_call L c w = (w', r)" and "\<not> opens c" and "\<not> releases c"
  shows "r = -1 \<and> V w' = V w \<or> 0 \<le> r \<and> V w' = did [Did c] (V w)"
  using os_specD(1,3) [OF assms(1,2)] assms(3,4) by (cases "r < 0") (auto simp: did_def)

lemma raw_open:
  assumes "os_spec L V" and "os_call L c w = (w', r)" and "opens c" and "\<not> releases c"
  shows "r = -1 \<and> V w' = V w \<or>
    0 \<le> r \<and> r \<notin> fds (V w) \<and> V w' = did [Opened c r] ((V w)\<lparr>fds := insert r (fds (V w))\<rparr>)"
  using os_specD(1,2,3) [OF assms(1,2)] assms(3,4) by (cases "r < 0") (auto simp: did_def)

definition nofollow_events :: "bind_mount \<Rightarrow> int \<Rightarrow> os_event list" where
  "nofollow_events bm n =
     [Opened (OpenTree (bm_source bm) (OPEN_TREE_CLONE OR OPEN_TREE_CLOEXEC OR AT_SYMLINK_NOFOLLOW)) n,
      Did (MoveMount n [] (bm_target bm) 4)]"

lemma bind_mount_nofollow_performs:
  assumes "os_spec L V"
  shows "performs V (bind_mount_nofollow L bm) (\<lambda>x es. \<exists>n. es = nofollow_events bm n)"
proof (rule performsI, cases "CHR 0x00 \<in> set (bm_source bm) \<or> CHR 0x00 \<in> set (bm_target bm)")
  case False
  fix w
  obtain w1 n where o: "os_call L (OpenTree (bm_source bm) (OPEN_TREE_CLONE OR OPEN_TREE_CLOEXEC OR AT_SYMLINK_NOFOLLOW)) w = (w1, n)"
    by fastforce
  obtain w2 r where m: "os_call L (MoveMount n [] (bm_target bm) 4) w1 = (w2, r)" by fastforce
  from raw_open [OF assms o] raw_do [OF assms m] False o m
  show "io_post (bind_mount_nofollow L bm) w (tidy V w (\<lambda>x v. \<exists>es. v = did es (V w) \<and> (\<exists>n. es = nofollow_events bm n)))"
    by (auto simp: bind_mount_nofollow_def io_post_def io_finally_def Let_def sys_ignore_view [OF assms]
        same_resources_def did_def nofollow_events_def)
qed (auto simp: bind_mount_nofollow_def)

definition binds_done :: "bind_mount list \<Rightarrow> os_event list \<Rightarrow> bool" where
  "binds_done bms es \<longleftrightarrow>
     (\<exists>ns. length ns = length bms \<and> es = concat (map (\<lambda>(bm, n). nofollow_events bm n) (zip bms ns)))"

lemma binds_done_Cons: "binds_done bms es \<Longrightarrow> binds_done (bm # bms) (nofollow_events bm n @ es)"
  unfolding binds_done_def by (auto intro: exI [of _ "n # _"])

lemma bind_mount_all_performs:
  assumes "os_spec L V"
  shows "performs V (bind_mount_all L bms) (\<lambda>x es. binds_done bms es)"
proof (induction bms)
  case Nil
  show ?case
    unfolding bind_mount_all.simps by (rule performs_conseq [OF performs_return]) (simp add: binds_done_def)
next
  case (Cons bm bms)
  show ?case
    unfolding bind_mount_all.simps
    by (rule performs_conseq [OF performs_bind [OF bind_mount_nofollow_performs [OF assms] Cons.IH]])
      (auto intro: binds_done_Cons)
qed

text \<open>
  The same with temporary files: \<open>leaves V m P\<close> leaves the descriptors as they were, and the
  temporary files up to those whose removal failed.
\<close>

definition strand :: "string set \<Rightarrow> os_view \<Rightarrow> os_view" where
  "strand left v = v\<lparr>temps := temps v \<union> left, stuck := stuck v \<union> left\<rparr>"

definition kept :: "os_view \<Rightarrow> os_view \<Rightarrow> bool" where
  "kept v v' \<longleftrightarrow> fds v' = fds v \<and> (\<exists>left. temps v' = temps v \<union> left \<and> stuck v' = stuck v \<union> left)"

definition left_with :: "('w \<Rightarrow> os_view) \<Rightarrow> 'w \<Rightarrow> ('a \<Rightarrow> os_event list \<Rightarrow> bool) \<Rightarrow> 'w \<Rightarrow> ns_error + 'a \<Rightarrow> bool" where
  "left_with V w P w' r = (case r of Inl e \<Rightarrow> kept (V w) (V w')
     | Inr x \<Rightarrow> \<exists>es left. V w' = did es (strand left (V w)) \<and> P x es)"

definition leaves :: "('w \<Rightarrow> os_view) \<Rightarrow> ('w, ns_error, 'a) io \<Rightarrow> ('a \<Rightarrow> os_event list \<Rightarrow> bool) \<Rightarrow> bool" where
  "leaves V m P \<longleftrightarrow> (\<forall>w. io_post m w (left_with V w P))"

lemma left_with_simps [simp]:
  "left_with V w P w' (Inl e) \<longleftrightarrow> kept (V w) (V w')"
  "left_with V w P w' (Inr x) \<longleftrightarrow> (\<exists>es left. V w' = did es (strand left (V w)) \<and> P x es)"
  by (simp_all add: left_with_def)

lemma leavesI: "(\<And>w. io_post m w (left_with V w P)) \<Longrightarrow> leaves V m P"
  by (simp add: leaves_def)

lemma strand_simps [simp]:
  "fds (strand left v) = fds v" "temps (strand left v) = temps v \<union> left" "stuck (strand left v) = stuck v \<union> left"
  "trace (strand left v) = trace v" "strand {} v = v" "strand left (strand left' v) = strand (left' \<union> left) v"
  "strand left (did es v) = did es (strand left v)"
  by (simp_all add: strand_def did_def Un_assoc)

lemma kept_trans: "kept v1 v2 \<Longrightarrow> kept v2 v3 \<Longrightarrow> kept v1 v3"
  unfolding kept_def by (metis Un_assoc)

lemma kept_strand: "kept v (did es (strand left v))"
  by (auto simp: kept_def)

lemma leavesD:
  assumes "leaves V m P" and "m w = (w', r)"
  shows "case r of Inl e \<Rightarrow> kept (V w) (V w') | Inr x \<Rightarrow> \<exists>es left. V w' = did es (strand left (V w)) \<and> P x es"
  using io_postD [OF assms(1) [unfolded leaves_def, rule_format] assms(2)] by (simp add: left_with_def)

lemma performs_leaves:
  assumes "performs V m P"
  shows "leaves V m P"
proof (rule leavesI, rule io_post_conseq [OF assms [unfolded performs_def, rule_format]])
  fix w w' r assume t: "tidy V w (\<lambda>x v. \<exists>es. v = did es (V w) \<and> P x es) w' r"
  show "left_with V w P w' r"
  proof (cases r)
    case (Inl e)
    with t show ?thesis by (auto simp: same_resources_def kept_def intro: exI [where x = "{}"])
  next
    case (Inr x)
    with t obtain es where "V w' = did es (strand {} (V w))" "P x es" by auto
    with Inr show ?thesis by (simp only: left_with_simps) blast
  qed
qed

lemma leaves_conseq: "leaves V m P \<Longrightarrow> (\<And>x es. P x es \<Longrightarrow> Q x es) \<Longrightarrow> leaves V m Q"
  unfolding leaves_def
  by (intro allI, rule io_post_conseq, erule spec, unfold left_with_def) (fastforce split: sum.splits)

lemma leaves_bind:
  assumes "leaves V m P" and "\<And>x. leaves V (f x) (Q x)"
  shows "leaves V (io_bind m f) (\<lambda>y es. \<exists>x ds cs. es = ds @ cs \<and> P x ds \<and> Q x y cs)"
proof (rule leavesI, rule io_post_bind [OF assms(1) [unfolded leaves_def, rule_format]], simp)
  fix w w1 x assume "left_with V w P w1 (Inr x)"
  then obtain ds left where ds: "V w1 = did ds (strand left (V w))" "P x ds" by auto
  show "io_post (f x) w1 (left_with V w (\<lambda>y es. \<exists>x ds cs. es = ds @ cs \<and> P x ds \<and> Q x y cs))"
  proof (rule io_post_conseq [OF assms(2) [unfolded leaves_def, rule_format]])
    fix w2 r assume r: "left_with V w1 (Q x) w2 r"
    show "left_with V w (\<lambda>y es. \<exists>x ds cs. es = ds @ cs \<and> P x ds \<and> Q x y cs) w2 r"
    proof (cases r)
      case (Inl e)
      with r ds(1) kept_trans [OF kept_strand] show ?thesis by simp
    next
      case (Inr y)
      with r obtain es left' where "V w2 = did es (strand left' (V w1))" "Q x y es" by auto
      with ds have "V w2 = did (ds @ es) (strand (left \<union> left') (V w))" "P x ds" "Q x y es" by simp_all
      with Inr show ?thesis by (simp only: left_with_simps) blast
    qed
  qed
qed

text \<open>Removing a temporary file, whether it succeeds or not.\<close>

lemma unlink_strands:
  assumes "os_spec L V" and "V w = did es (v\<lparr>temps := insert p (temps v)\<rparr>)" and "p \<notin> temps v"
  shows "\<exists>left. V (sys_ignore L (Unlink p) w) = did es (strand left v)"
  using sys_ignore_view(2) [OF assms(1), of p w] assms(2,3)
  by (auto simp: strand_def did_def intro: exI [where x = "{}"] exI [where x = "{p}"])

lemma unlink_kept:
  assumes "os_spec L V" and "fds (V w) = fds v" "temps (V w) = insert p (temps v)" "stuck (V w) = stuck v" and "p \<notin> temps v"
  shows "kept v (V (sys_ignore L (Unlink p) w))"
  using sys_ignore_view(2) [OF assms(1), of p w] assms(2-)
  by (auto simp: kept_def intro: exI [where x = "{}"] exI [where x = "{p}"])

definition tmpfile_events :: "string \<Rightarrow> string \<Rightarrow> string \<Rightarrow> int \<Rightarrow> os_event list" where
  "tmpfile_events content target p n =
     [MadeTemp p n, Did (WriteAll n (as_bytes content)), Did (Fchmod n 0x1A4),
      Did (Mount (Some p) target None [MS_BIND])]"

lemma fill_tmpfile:
  assumes "os_spec L V" and "n \<notin> fds v" and "p \<notin> temps v"
    and "V w = did [MadeTemp p n] (v\<lparr>fds := insert n (fds v), temps := insert p (temps v)\<rparr>)"
  shows "io_post (io_finally
      (io_bind (sys L ctx (WriteAll n bs)) (\<lambda>_. sys L ctx' (Fchmod n 0x1A4))) (sys_ignore L (Close n))) w
    (\<lambda>w' r. fds (V w') = fds v \<and> temps (V w') = insert p (temps v) \<and> stuck (V w') = stuck v \<and>
       (\<forall>x. r = Inr x \<longrightarrow> V w' = did [MadeTemp p n, Did (WriteAll n bs), Did (Fchmod n 0x1A4)]
          (v\<lparr>temps := insert p (temps v)\<rparr>)))"
proof (rule io_post_finally, rule io_post_bind [OF sys_do [OF assms(1)]])
  fix w1 x assume "case Inr x of Inl e \<Rightarrow> V w1 = V w
    | Inr k \<Rightarrow> V w1 = (V w)\<lparr>trace := trace (V w) @ [Did (WriteAll n bs)]\<rparr>"
  then have w1: "V w1 = did [Did (WriteAll n bs)] (V w)" by (simp add: did_def)
  show "io_post (sys L ctx' (Fchmod n 0x1A4)) w1 (\<lambda>w' r.
      fds (V (sys_ignore L (Close n) w')) = fds v \<and> temps (V (sys_ignore L (Close n) w')) = insert p (temps v) \<and>
      stuck (V (sys_ignore L (Close n) w')) = stuck v \<and>
      (\<forall>x. r = Inr x \<longrightarrow> V (sys_ignore L (Close n) w') =
         did [MadeTemp p n, Did (WriteAll n bs), Did (Fchmod n 0x1A4)] (v\<lparr>temps := insert p (temps v)\<rparr>)))"
    by (rule io_post_conseq [OF sys_do [OF assms(1)]])
      (use assms(2-) w1 in \<open>auto simp: sys_ignore_view [OF assms(1)] did_def split: sum.splits\<close>)
qed (use assms in \<open>auto simp: sys_ignore_view [OF assms(1)] did_def\<close>)

text \<open>Mounting the temporary file and removing it, once it is filled.\<close>

lemma mount_and_unlink:
  assumes os: "os_spec L V" and p: "p \<notin> temps (V w)"
    and w2: "V w2 = did [MadeTemp p n, Did (WriteAll n (as_bytes content)), Did (Fchmod n 0x1A4)]
      ((V w)\<lparr>temps := insert p (temps (V w))\<rparr>)"
  shows "io_post (if \<not> valid_str p then io_fail TempPathNotUtf8
      else io_bind (sys L (''bind-mount '' @ target) (Mount (Some p) target None [MS_BIND])) (\<lambda>_. io_return ())) w2
    (\<lambda>w' r. left_with V w (\<lambda>x es. \<exists>p n. es = tmpfile_events content target p n) (sys_ignore L (Unlink p) w') r)"
proof (cases "valid_str p")
  case True
  have "io_post (io_bind (sys L (''bind-mount '' @ target) (Mount (Some p) target None [MS_BIND])) (\<lambda>_. io_return ())) w2
      (\<lambda>w' r. left_with V w (\<lambda>x es. \<exists>p n. es = tmpfile_events content target p n) (sys_ignore L (Unlink p) w') r)"
  proof (rule io_post_bind [OF sys_do [OF os]], goal_cases)
    case (3 w3 e)
    with w2 p show ?case by (simp add: unlink_kept [OF os])
  next
    case (4 w3 x)
    with w2 have "V w3 = did (tmpfile_events content target p n) ((V w)\<lparr>temps := insert p (temps (V w))\<rparr>)"
      by (simp add: did_def tmpfile_events_def)
    from unlink_strands [OF os this p] show ?case by auto
  qed simp_all
  with True show ?thesis by simp
next
  case False
  with w2 p show ?thesis by (simp add: unlink_kept [OF os])
qed

lemma bind_mount_tmpfile_leaves:
  assumes "os_spec L V"
  shows "leaves V (bind_mount_tmpfile L content target)
    (\<lambda>x es. \<exists>p n. es = tmpfile_events content target p n)"
proof (rule leavesI)
  fix w
  let ?Q = "left_with V w (\<lambda>x es. \<exists>p n. es = tmpfile_events content target p n)"
  obtain w1 r where mk: "os_mkstemp L ''/tmp/nsproxy-XXXXXX'' w = (w1, r)" by fastforce
  show "io_post (bind_mount_tmpfile L content target) w ?Q"
  proof (cases r)
    case (Inl e)
    with mk os_specD(4) [OF assms, of _ w w1 e] show ?thesis
      using kept_strand [of "V w" "[]" "{}"] by (auto simp: bind_mount_tmpfile_def io_post_def)
  next
    case (Inr np)
    obtain n p where np: "np = (n, p)" by fastforce
    with mk Inr os_specD(5) [OF assms, of _ w w1 n p]
    have v: "n \<notin> fds (V w)" "p \<notin> temps (V w)"
      "V w1 = did [MadeTemp p n] ((V w)\<lparr>fds := insert n (fds (V w)), temps := insert p (temps (V w))\<rparr>)"
      by (auto simp: did_def)
    have "io_post (io_finally
        (io_bind (io_finally
            (io_bind (sys L (''write '' @ p) (WriteAll n (as_bytes content))) (\<lambda>_.
               sys L ''make internal DNS configuration readable by all users'' (Fchmod n 0x1A4)))
            (sys_ignore L (Close n)))
          (\<lambda>_. if \<not> valid_str p then io_fail TempPathNotUtf8
             else io_bind (sys L (''bind-mount '' @ target) (Mount (Some p) target None [MS_BIND]))
               (\<lambda>_. io_return ())))
        (sys_ignore L (Unlink p))) w1 ?Q"
    proof (rule io_post_finally, rule io_post_bind [OF fill_tmpfile [OF assms v]], goal_cases)
      case (1 w2 e)
      with v(2) show ?case by (simp add: unlink_kept [OF assms])
    next
      case (2 w2 x)
      with mount_and_unlink [OF assms v(2)] show ?case by simp
    qed
    with mk Inr np show ?thesis by (simp add: bind_mount_tmpfile_def io_post_def)
  qed
qed

definition dns_events :: "string \<Rightarrow> int \<Rightarrow> string \<Rightarrow> int \<Rightarrow> os_event list" where
  "dns_events p n q m =
     [Did (Unshare [CLONE_NEWNS]), Did (Mount None ''/'' None [MS_REC, MS_PRIVATE])] @
     tmpfile_events resolv_conf ''/etc/resolv.conf'' p n @
     tmpfile_events nsswitch_conf ''/etc/nsswitch.conf'' q m"

definition ssh_mount :: sys_call where
  "ssh_mount = Mount (Some ''tmpfs'') ''/etc/ssh/ssh_config.d'' (Some ''tmpfs'') []"

lemma ignored_performs:
  assumes "os_spec L V" and "\<not> opens c" and "\<not> releases c"
  shows "performs V (\<lambda>w. (sys_ignore L c w, Inr ())) (\<lambda>x es. es = [] \<or> es = [Did c])"
proof (rule performsI)
  fix w
  obtain w1 r where c: "os_call L c w = (w1, r)" by fastforce
  have "V w1 = did [] (V w) \<or> V w1 = did [Did c] (V w)"
    using raw_do [OF assms(1) c assms(2,3)] by auto
  then have "\<exists>es. V w1 = did es (V w) \<and> (es = [] \<or> es = [Did c])" by blast
  with c show "io_post (\<lambda>w. (sys_ignore L c w, Inr ())) w
      (tidy V w (\<lambda>x v. \<exists>es. v = did es (V w) \<and> (es = [] \<or> es = [Did c])))"
    by (simp add: io_post_def sys_ignore_def)
qed

lemma ssh_mount_kind: "\<not> opens ssh_mount" "\<not> releases ssh_mount"
  by (simp_all add: ssh_mount_def)

lemma setup_mount_leaves:
  assumes "os_spec L V"
  shows "leaves V (setup_mount_namespace L bms) (\<lambda>x es. \<exists>p n q m bs ssh.
    es = dns_events p n q m @ bs @ ssh \<and> binds_done bms bs \<and> (ssh = [] \<or> ssh = [Did ssh_mount]))"
  unfolding setup_mount_namespace_def ssh_mount_def [symmetric]
  by (rule leaves_conseq,
      (rule leaves_bind bind_mount_tmpfile_leaves performs_leaves [OF sys_performs]
        performs_leaves [OF bind_mount_all_performs] performs_leaves [OF ignored_performs] ssh_mount_kind assms
        | simp only: opens_simps releases_simps not_False_eq_True)+)
    (clarsimp simp: dns_events_def, blast)

lemma write_id_maps_performs:
  assumes "os_spec L V"
  shows "performs V (write_id_maps L pid uid gid) (\<lambda>x es. \<exists>a b c.
    es = written (proc_path pid ''setgroups'') ''deny'' a @
      written (proc_path pid ''uid_map'') (id_map uid) b @
      written (proc_path pid ''gid_map'') (id_map gid) c)"
  unfolding write_id_maps_def
  by (rule performs_conseq, (rule performs_bind proc_write_performs assms)+) auto

lemma create_namespace_performs:
  assumes "os_spec L V"
  shows "performs V (create_namespace L) (\<lambda>needs_maps es.
    es = [Did (Unshare (if needs_maps then [CLONE_NEWUSER, CLONE_NEWNET] else [CLONE_NEWNET]))])"
proof (rule performsI)
  fix w
  have user: "io_post (io_bind (sys L ctx c) (\<lambda>_. io_return True)) w1
      (tidy V w1 (\<lambda>x v. \<exists>es. v = did es (V w1) \<and> es = [Did c] \<and> x))"
    if "\<not> opens c" "\<not> releases c" for ctx c w1
    using performs_bind [OF sys_performs [OF assms that] performs_return [of V True]]
    by (auto simp: performs_def elim!: io_post_conseq split: sum.splits)
  show "io_post (create_namespace L) w (tidy V w (\<lambda>needs_maps v. \<exists>es. v = did es (V w) \<and>
      es = [Did (Unshare (if needs_maps then [CLONE_NEWUSER, CLONE_NEWNET] else [CLONE_NEWNET]))]))"
  proof (cases "sys L ''unshare(CLONE_NEWNET)'' (Unshare [CLONE_NEWNET]) w")
    case (Pair w1 r)
    note v = sys_do [OF assms, of "Unshare [CLONE_NEWNET]" _ w, THEN io_postD, OF _ _ Pair]
    show ?thesis
    proof (cases r)
      case (Inl e)
      with v have "V w1 = V w" by simp
      with user [of "Unshare [CLONE_NEWUSER, CLONE_NEWNET]" "''unshare(CLONE_NEWUSER|CLONE_NEWNET)''" w1] Pair Inl show ?thesis
        by (auto simp: io_post_def create_namespace_def tidy_def split: prod.splits sum.splits)
    next
      case (Inr n)
      with v Pair show ?thesis
        by (simp add: io_post_def create_namespace_def did_def)
    qed
  qed
qed

definition lo_up :: "int \<Rightarrow> os_event list" where
  "lo_up sock = [Opened SocketDgram sock,
     Did (Ioctl sock SIOCSIFFLAGS (IfReq \<lparr>ifr_name = as_bytes ''lo'' @ replicate 14 0,
       ifr_ifru = IfruFlags (IFF_UP OR IFF_RUNNING)\<rparr>))]"

lemma bringup_loopback_performs:
  assumes "os_spec L V"
  shows "performs V (bringup_loopback L) (\<lambda>x es. \<exists>sock. es = lo_up sock)"
proof (rule performsI)
  fix w
  let ?ifr = "\<lparr>ifr_name = as_bytes ''lo'' @ replicate 14 0, ifr_ifru = IfruFlags (IFF_UP OR IFF_RUNNING)\<rparr>"
  have ifr: "ifreq_zeroed\<lparr>ifr_name := as_bytes ''lo'' @ drop 2 (ifr_name ifreq_zeroed),
      ifr_ifru := IfruFlags (IFF_UP OR IFF_RUNNING)\<rparr> = ?ifr"
    by (simp add: ifreq_zeroed_def IF_NAMESIZE_def)
  obtain w1 sock where o: "os_call L SocketDgram w = (w1, sock)" by fastforce
  obtain w2 ret where c: "os_call L (Ioctl sock SIOCSIFFLAGS (IfReq ?ifr)) w1 = (w2, ret)" by fastforce
  from raw_open [OF assms o] raw_do [OF assms c] o c
  show "io_post (bringup_loopback L) w (tidy V w (\<lambda>x v. \<exists>es. v = did es (V w) \<and> (\<exists>sock. es = lo_up sock)))"
    unfolding bringup_loopback_def ifr
    by (auto simp: io_post_def io_bind_def sys_def Let_def sys_ignore_view [OF assms]
        same_resources_def did_def lo_up_def)
qed

section \<open>The TUN device\<close>

lemma netmask_octets_Inr: "unat p \<le> 32 \<Longrightarrow> p \<noteq> 0 \<Longrightarrow> netmask_octets p = Inr (be32 (push_bit (32 - unat p) (- 1)))"
  by (simp add: netmask_octets_def)

definition tun_name_buf :: bytes where
  "tun_name_buf = as_bytes ''eth0'' @ replicate 12 0"

definition tun_mask :: ipv4 where
  "tun_mask = ipv4_new 255 255 255 254"

definition tun_req :: "ifru \<Rightarrow> ioctl_arg" where
  "tun_req u = IfReq \<lparr>ifr_name = tun_name_buf, ifr_ifru = u\<rparr>"

definition tun_route :: ioctl_arg where
  "tun_route = RtEntry \<lparr>rt_dst = sockaddr_of (be32 0), rt_gateway = sockaddr_of (octets TUN_GW),
     rt_genmask = sockaddr_of (be32 0), rt_flags = RTF_UP OR RTF_GATEWAY, rt_dev = tun_name_buf\<rparr>"

definition tun_events :: "target_arch \<Rightarrow> int \<Rightarrow> int \<Rightarrow> os_event list" where
  "tun_events arch n sock =
     [Opened (OpenRdWr ''/dev/net/tun'') n,
      Did (Ioctl n (TUNSETIFF arch) (tun_req (IfruFlags (IFF_TUN OR IFF_NO_PI)))),
      Opened SocketDgram sock,
      Did (Ioctl sock SIOCSIFMTU (tun_req (IfruMtu (of_nat TUN_MTU)))),
      Did (Ioctl sock SIOCSIFADDR (tun_req (IfruAddr (sockaddr_of (octets TUN_ADDR))))),
      Did (Ioctl sock SIOCSIFNETMASK (tun_req (IfruAddr (sockaddr_of (octets tun_mask))))),
      Did (Ioctl sock SIOCSIFFLAGS (tun_req (IfruFlags (IFF_UP OR IFF_RUNNING)))),
      Did (Ioctl sock SIOCADDRT tun_route)]"

lemma tun_mask_octets: "netmask_octets TUN_PREFIX = Inr (octets tun_mask)"
  by code_simp

lemma tun_name_len: "length TUN_NAME = 4" "as_bytes TUN_NAME = as_bytes ''eth0''"
  by (simp_all add: TUN_NAME_def)

lemma ifreq_for_tun: "(ifreq_for TUN_NAME)\<lparr>ifr_ifru := u\<rparr> = \<lparr>ifr_name = tun_name_buf, ifr_ifru = u\<rparr>"
  by (simp add: ifreq_for_def Let_def TUN_NAME_def IF_NAMESIZE_def ifreq_zeroed_def tun_name_buf_def)

lemma config_ioctl_post:
  assumes "os_spec L V" and "V w = did es (v\<lparr>fds := insert sock (insert n (fds v))\<rparr>)"
    and "sock \<notin> fds v" and "n \<notin> fds v"
  shows "io_post (config_ioctl L ctx sock n req arg) w (\<lambda>w' r.
    case r of Inl e \<Rightarrow> same_resources v (V w')
    | Inr x \<Rightarrow> V w' = did (es @ [Did (Ioctl sock req arg)]) (v\<lparr>fds := insert sock (insert n (fds v))\<rparr>))"
proof -
  obtain w1 r where c: "os_call L (Ioctl sock req arg) w = (w1, r)" by fastforce
  from raw_do [OF assms(1) c] c assms(2-) show ?thesis
    by (auto simp: io_post_def config_ioctl_def Let_def sys_ignore_view [OF assms(1)] same_resources_def)
qed

lemma config_ioctl_bind:
  assumes "os_spec L V" and "sock \<notin> fds v" and "n \<notin> fds v"
    and "\<And>w' e. same_resources v (V w') \<Longrightarrow> Q w' (Inl e)"
    and "V w = did es (v\<lparr>fds := insert sock (insert n (fds v))\<rparr>)"
    and "\<And>w'. V w' = did (es @ [Did (Ioctl sock req arg)]) (v\<lparr>fds := insert sock (insert n (fds v))\<rparr>) \<Longrightarrow>
      io_post (f ()) w' Q"
  shows "io_post (io_bind (config_ioctl L ctx sock n req arg) f) w Q"
  by (rule io_post_bind [OF config_ioctl_post [OF assms(1,5,2,3)]]) (auto intro: assms(4,6))

lemma configure_tun_post:
  assumes "os_spec L V" and "sock \<notin> fds v" and "n \<notin> fds v" and "sock \<noteq> n"
    and "V w = did es (v\<lparr>fds := insert sock (insert n (fds v))\<rparr>)"
  shows "io_post (configure_tun L tun_name_buf sock n) w (\<lambda>w' r.
    case r of Inl e \<Rightarrow> same_resources v (V w')
    | Inr n' \<Rightarrow> n' = n \<and>
        V w' = did (es @ drop 3 (tun_events arch n sock)) (v\<lparr>fds := insert n (fds v)\<rparr>))"
proof -
  note step = config_ioctl_bind [OF assms(1-3)]
  have req: "IfReq (ifreq_zeroed\<lparr>ifr_name := tun_name_buf, ifr_ifru := u\<rparr>) = tun_req u" for u
    by (simp add: tun_req_def ifreq_zeroed_def)
  have close: "io_post (\<lambda>w. (sys_ignore L (Close sock) w, Inr n)) w' (\<lambda>w' r.
      case r of Inl e \<Rightarrow> same_resources v (V w')
      | Inr n' \<Rightarrow> n' = n \<and> V w' = did ds (v\<lparr>fds := insert n (fds v)\<rparr>))"
    if "V w' = did ds (v\<lparr>fds := insert sock (insert n (fds v))\<rparr>)" for w' ds
  proof -
    have "insert sock (insert n (fds v)) - {sock} = insert n (fds v)" using assms(2,4) by auto
    with that show ?thesis by (simp add: io_post_def sys_ignore_view [OF assms(1)] did_def)
  qed
  show ?thesis
    unfolding configure_tun_def Let_def tun_mask_octets ifreq.update_convs map_error_def sum.case io_bind_of
    by (rule step, simp, rule assms(5), rule step, simp, assumption, rule step, simp, assumption,
        rule step, simp, assumption, rule step, simp, assumption, rule io_post_conseq, rule close, assumption)
      (auto simp: tun_events_def tun_req_def tun_route_def ifreq_zeroed_def split: sum.splits)
qed

lemma create_tun_view:
  assumes "os_spec L V" and "create_tun L arch w = (w', r)"
  shows "case r of Inl e \<Rightarrow> same_resources (V w) (V w')
    | Inr n \<Rightarrow> n \<notin> fds (V w) \<and>
        (\<exists>sock. V w' = did (tun_events arch n sock) ((V w)\<lparr>fds := insert n (fds (V w))\<rparr>))"
proof -
  obtain w1 n where o: "os_call L (OpenRdWr ''/dev/net/tun'') w = (w1, n)" by fastforce
  obtain w2 ret where t: "os_call L (Ioctl n (TUNSETIFF arch) (tun_req (IfruFlags (IFF_TUN OR IFF_NO_PI)))) w1 = (w2, ret)"
    by fastforce
  obtain w3 sock where k: "os_call L SocketDgram w2 = (w3, sock)" by fastforce
  note v = raw_open [OF assms(1) o] raw_do [OF assms(1) t] raw_open [OF assms(1) k]
  have buf: "as_bytes ''eth0'' @ replicate 12 0 = tun_name_buf" by (simp add: tun_name_buf_def)
  note def = create_tun_def [unfolded tun_name_len ifreq_for_tun Let_def, of L arch w]
  consider "n = -1" | "n \<noteq> -1" "ret = -1" | "n \<noteq> -1" "ret \<noteq> -1" "sock < 0" | "n \<noteq> -1" "ret \<noteq> -1" "0 \<le> sock"
    by linarith
  then show ?thesis
  proof cases
    case 4
    from 4 v have w3: "V w3 = did (take 3 (tun_events arch n sock)) ((V w)\<lparr>fds := insert sock (insert n (fds (V w)))\<rparr>)"
      and fresh: "n \<notin> fds (V w)" "sock \<notin> fds (V w)" "sock \<noteq> n"
      by (auto simp: tun_events_def did_def)
    from 4 o t k have "create_tun L arch w = configure_tun L tun_name_buf sock n w3"
      by (simp add: def IF_NAMESIZE_def tun_req_def [symmetric] buf)
    from io_postD [OF configure_tun_post [OF assms(1) fresh(2,1,3) w3, of arch] this [symmetric, unfolded assms(2)]] fresh(1)
    show ?thesis by (auto split: sum.splits)
  qed (use v o t k assms in \<open>auto simp: def IF_NAMESIZE_def tun_req_def [symmetric] same_resources_def sys_ignore_view\<close>)
qed

section \<open>What the configuration means\<close>

text \<open>
  The interface as the requests leave it, after \<open>netdevice(7)\<close>: the descriptor that is attached
  to it with its mode, its transmission unit, address, network mask, flags and the gateway of
  the default route.
\<close>

record netif =
  ni_tun :: "(int \<times> u16) option"
  ni_mtu :: "u32 option"
  ni_addr :: "bytes option"
  ni_mask :: "bytes option"
  ni_flags :: u16
  ni_gateway :: "bytes option"

definition netif_none :: netif where
  "netif_none = \<lparr>ni_tun = None, ni_mtu = None, ni_addr = None, ni_mask = None, ni_flags = 0, ni_gateway = None\<rparr>"

definition ifreq_step :: "target_arch \<Rightarrow> int \<Rightarrow> u32 \<Rightarrow> ifru \<Rightarrow> netif \<Rightarrow> netif" where
  "ifreq_step arch n req u s =
     (case u of
        IfruFlags f \<Rightarrow>
          if req = TUNSETIFF arch then s\<lparr>ni_tun := Some (n, f)\<rparr>
          else if req = SIOCSIFFLAGS then s\<lparr>ni_flags := f\<rparr> else s
      | IfruMtu m \<Rightarrow> if req = SIOCSIFMTU then s\<lparr>ni_mtu := Some m\<rparr> else s
      | IfruAddr a \<Rightarrow>
          if req = SIOCSIFADDR then s\<lparr>ni_addr := Some (sin_addr a)\<rparr>
          else if req = SIOCSIFNETMASK then s\<lparr>ni_mask := Some (sin_addr a)\<rparr> else s
      | IfruZero \<Rightarrow> s)"

definition netif_step :: "target_arch \<Rightarrow> bytes \<Rightarrow> netif \<Rightarrow> os_event \<Rightarrow> netif" where
  "netif_step arch name s e =
     (case e of
        Did (Ioctl n req (IfReq r)) \<Rightarrow> if ifr_name r = name then ifreq_step arch n req (ifr_ifru r) s else s
      | Did (Ioctl n req (RtEntry r)) \<Rightarrow>
          if req = SIOCADDRT \<and> rt_dev r = name \<and> sin_addr (rt_dst r) = be32 0 \<and> sin_addr (rt_genmask r) = be32 0 \<and>
             rt_flags r AND RTF_GATEWAY = RTF_GATEWAY
          then s\<lparr>ni_gateway := Some (sin_addr (rt_gateway r))\<rparr> else s
      | _ \<Rightarrow> s)"

lemma request_codes:
  "SIOCSIFFLAGS \<noteq> TUNSETIFF arch" "SIOCSIFMTU \<noteq> TUNSETIFF arch" "SIOCSIFADDR \<noteq> TUNSETIFF arch"
  "SIOCSIFNETMASK \<noteq> SIOCSIFADDR" "RTF_UP OR RTF_GATEWAY = 3" "RTF_GATEWAY = 2"
  by (simp_all add: TUNSETIFF_def SIOCSIFFLAGS_def SIOCSIFMTU_def SIOCSIFADDR_def SIOCSIFNETMASK_def
      RTF_UP_def RTF_GATEWAY_def)

lemma tun_events_netif:
  "foldl (netif_step arch tun_name_buf) netif_none (tun_events arch n sock) =
     \<lparr>ni_tun = Some (n, IFF_TUN OR IFF_NO_PI), ni_mtu = Some (of_nat MTU), ni_addr = Some (octets TUN_ADDR),
       ni_mask = Some (octets tun_mask), ni_flags = IFF_UP OR IFF_RUNNING, ni_gateway = Some (octets TUN_GW)\<rparr>"
  by (simp add: tun_events_def netif_step_def netif_none_def ifreq_step_def tun_req_def tun_route_def
      request_codes sockaddr_of_def MTU_def)

text \<open>The request number is the kernel's \<open>_IOW('T', 202, int)\<close> on every architecture.\<close>

lemma tunsetiff_encoding:
  "TUNSETIFF arch =
     push_bit (if arch = OtherArch then 30 else 29) (if arch = OtherArch then 1 else 4) OR
     push_bit 16 4 OR push_bit 8 0x54 OR 202"
  by (cases arch) (simp_all add: TUNSETIFF_def)

lemma netmask_bits:
  assumes "unat p \<le> 32"
  shows "\<exists>m. netmask_octets p = Inr (octets m) \<and> (\<forall>i < 32. bit m i \<longleftrightarrow> 32 - unat p \<le> i)"
proof (cases "p = 0")
  case True
  then show ?thesis by (auto simp: netmask_octets_def)
next
  case False
  with assms netmask_octets_Inr [of p] show ?thesis
    by (auto simp: bit_simps intro!: exI [of _ "push_bit (32 - unat p) (- 1)"])
qed

text \<open>
  What a mount covers, by device and inode number, in the file system \<open>F\<close> with \<open>S\<close> what \<open>stat\<close>
  says of a path: \<open>mount\<close> follows a symbolic link at its target, \<open>move_mount\<close> only when it is asked to.
\<close>

definition MOVE_MOUNT_T_SYMLINKS :: u32 where "MOVE_MOUNT_T_SYMLINKS = 0x10"

definition object_of :: "errno + metadata \<Rightarrow> file_id option" where
  "object_of r = (case r of Inl e \<Rightarrow> None | Inr md \<Rightarrow> Some (md_dev md, md_ino md))"

definition covers :: "file_system \<Rightarrow> (string \<Rightarrow> errno + metadata) \<Rightarrow> os_event \<Rightarrow> file_id option" where
  "covers F S e =
     (case e of
        Did (MoveMount n p t f) \<Rightarrow>
          object_of (if f AND MOVE_MOUNT_T_SYMLINKS = 0 then symlink_metadata F t else S t)
      | Did (Mount a t b c) \<Rightarrow> object_of (S t)
      | _ \<Rightarrow> None)"

text \<open>A path that is no symbolic link names the same object whether links are followed or not.\<close>

definition stat_spec :: "file_system \<Rightarrow> (string \<Rightarrow> errno + metadata) \<Rightarrow> bool" where
  "stat_spec F S \<longleftrightarrow> (\<forall>p md. symlink_metadata F p = Inr md \<and> md_type md \<noteq> Symlink \<longrightarrow> S p = Inr md)"

definition internal_mount :: "string \<Rightarrow> string \<Rightarrow> os_event" where
  "internal_mount p d = Did (Mount (Some p) d None [MS_BIND])"

lemma binds_done_targets:
  "binds_done bms es \<Longrightarrow> e \<in> set es \<Longrightarrow>
     (\<exists>a n. e = Opened a n) \<or> (\<exists>n. \<exists>bm \<in> set bms. e = Did (MoveMount n [] (bm_target bm) 4))"
  by (fastforce simp: binds_done_def nofollow_events_def dest: set_zip_leftD)

text \<open>An accepted mount covers neither internal file, nor what they lead to unless they are links.\<close>

lemma accepted_bind_covers:
  assumes "parse_bind_mounts F specs cwd = Inr ms" and "is_absolute cwd" and "bm \<in> set ms"
    and "d \<in> set INTERNAL_BIND_TARGETS" and "symlink_metadata F d = Inr md"
  shows "covers F S (Did (MoveMount n [] (bm_target bm) 4)) \<noteq> Some (md_dev md, md_ino md)"
proof -
  from assms(1,3) obtain ids ps i where ids: "internal_ids F = Inr ids"
    and ps: "list_all2 (bind_text F cwd) specs ps" "(bm, i) \<in> set ps" "snd ` set ps \<inter> set ids = {}"
    by (auto simp: parse_bind_mounts_def result_bind_Inr_iff parse_bind_loop_iff split: if_splits)
  from list_all2_in_set2 [OF ps(1,2)] obtain spec where "bind_text F cwd spec (bm, i)" by blast
  then obtain td where "symlink_metadata F (bm_target bm) = Inr td" "i = (md_dev td, md_ino td)"
    by (auto simp: bind_text_def names_object_def)
  moreover have "(md_dev md, md_ino md) \<in> set ids"
    using internal_ids_Inr [OF ids assms(4)] assms(5) by (auto simp: file_identity_def)
  ultimately show ?thesis
    using ps(2,3) by (force simp: covers_def object_of_def MOVE_MOUNT_T_SYMLINKS_def)
qed

section \<open>Properties\<close>

text \<open>
  C21. Creating the TUN device: on every error path the descriptors that were opened are closed again;
  on success exactly one new descriptor is open, it is attached to the interface in TUN mode
  without packet headers, and the interface is up with the packet size the event loop uses, the
  TUN address, a network mask that puts the gateway and the resolver on the link, and a default
  route through the gateway.
\<close>

theorem create_tun_configures:
  assumes "os_spec L V" and "create_tun L arch w = (w', r)"
  shows "(case r of
      Inl e \<Rightarrow> fds (V w') = fds (V w) \<and> temps (V w') = temps (V w)
    | Inr n \<Rightarrow> n \<notin> fds (V w) \<and> fds (V w') = insert n (fds (V w)) \<and> temps (V w') = temps (V w) \<and>
        (\<exists>es. trace (V w') = trace (V w) @ es \<and>
          foldl (netif_step arch (as_bytes TUN_NAME @ replicate 12 0)) netif_none es =
            \<lparr>ni_tun = Some (n, IFF_TUN OR IFF_NO_PI), ni_mtu = Some (of_nat MTU),
              ni_addr = Some (octets TUN_ADDR), ni_mask = Some (octets tun_mask),
              ni_flags = IFF_UP OR IFF_RUNNING, ni_gateway = Some (octets TUN_GW)\<rparr>)) \<and>
    TUN_GW AND tun_mask = TUN_ADDR AND tun_mask \<and> DNS_ADDR AND tun_mask = TUN_ADDR AND tun_mask"
proof -
  have link: "TUN_GW AND tun_mask = TUN_ADDR AND tun_mask" by code_simp
  have buf: "as_bytes TUN_NAME @ replicate 12 0 = tun_name_buf" by (simp add: tun_name_buf_def TUN_NAME_def)
  show ?thesis
  proof (cases r)
    case (Inl e)
    with create_tun_view [OF assms] link show ?thesis by (simp add: same_resources_def DNS_ADDR_def)
  next
    case (Inr n)
    with create_tun_view [OF assms] obtain sock where "n \<notin> fds (V w)"
      "V w' = did (tun_events arch n sock) ((V w)\<lparr>fds := insert n (fds (V w))\<rparr>)" by auto
    with Inr link tun_events_netif [of arch n sock] show ?thesis
      by (auto simp: buf DNS_ADDR_def)
  qed
qed

text \<open>
  C20. Setting up the mount namespace with the mounts the command line was accepted with: whether it
  succeeds or fails, no descriptor stays open and a temporary file is left behind only when its
  removal failed; on success the mount tree was made private first, the resolver configuration
  naming the fake resolver and the name-service configuration were mounted, and then only the
  accepted mounts and the empty directory over the SSH configuration. In the file system the
  command line was parsed in, none of these later mounts but the last covers the object at
  \<open>/etc/resolv.conf\<close> or \<open>/etc/nsswitch.conf\<close>; where that object is no symbolic link, it is what the
  resolver or name-service mount covers, so that this mount stays on top. For a symbolic link this is not so
  (see \<open>linked_resolver_covered\<close>).
\<close>

theorem mounts_keep_dns:
  assumes "os_spec L V" and "parse_bind_mounts F specs cwd = Inr ms" and "is_absolute cwd" and "stat_spec F S"
    and "setup_mount_namespace L ms w = (w', r)"
  shows "fds (V w') = fds (V w) \<and>
    (\<exists>left. temps (V w') = temps (V w) \<union> left \<and> stuck (V w') = stuck (V w) \<union> left) \<and>
    (r = Inr () \<longrightarrow> (\<exists>p n q m later.
      trace (V w') = trace (V w) @
        [Did (Unshare [CLONE_NEWNS]), Did (Mount None ''/'' None [MS_REC, MS_PRIVATE]),
         MadeTemp p n, Did (WriteAll n (as_bytes (''nameserver 172.23.255.254'' @ [CHR 0x0A]))),
         Did (Fchmod n 0x1A4), internal_mount p ''/etc/resolv.conf'',
         MadeTemp q m, Did (WriteAll m (as_bytes (''hosts: files dns'' @ [CHR 0x0A]))),
         Did (Fchmod m 0x1A4), internal_mount q ''/etc/nsswitch.conf''] @ later \<and>
      (\<forall>e \<in> set later.
         e = Did (Mount (Some ''tmpfs'') ''/etc/ssh/ssh_config.d'' (Some ''tmpfs'') []) \<or>
         (\<exists>a k. e = Opened a k) \<or>
         (\<exists>k. \<exists>bm \<in> set ms. e = Did (MoveMount k [] (bm_target bm) 4)) \<and>
         (\<forall>d \<in> set INTERNAL_BIND_TARGETS. \<forall>md. symlink_metadata F d = Inr md \<longrightarrow>
            covers F S e \<noteq> Some (md_dev md, md_ino md) \<and>
            (md_type md \<noteq> Symlink \<longrightarrow> (\<forall>x. covers F S (internal_mount x d) = Some (md_dev md, md_ino md)))))))"
proof -
  have dns: "show_ipv4 DNS_ADDR = ''172.23.255.254''" by code_simp
  note p = leavesD [OF setup_mount_leaves [OF assms(1)] assms(5)]
  show ?thesis
  proof (cases r)
    case (Inr x)
    from p [unfolded Inr sum.case] obtain left p n q m bs ssh where
      es: "V w' = did (dns_events p n q m @ bs @ ssh) (strand left (V w))"
      "binds_done ms bs" "ssh = [] \<or> ssh = [Did ssh_mount]" by blast
    have top: "covers F S (internal_mount x d) = Some (md_dev md, md_ino md)"
      if "symlink_metadata F d = Inr md" "md_type md \<noteq> Symlink" for x d md
      using assms(4) that by (simp add: stat_spec_def covers_def object_of_def internal_mount_def)
    have later: "e = Did ssh_mount \<or> (\<exists>a k. e = Opened a k) \<or>
        (\<exists>k. \<exists>bm \<in> set ms. e = Did (MoveMount k [] (bm_target bm) 4)) \<and>
        (\<forall>d \<in> set INTERNAL_BIND_TARGETS. \<forall>md. symlink_metadata F d = Inr md \<longrightarrow>
           covers F S e \<noteq> Some (md_dev md, md_ino md))"
      if "e \<in> set (bs @ ssh)" for e
    proof (cases "e \<in> set bs")
      case True
      from binds_done_targets [OF es(2) this] accepted_bind_covers [OF assms(2,3)] show ?thesis by blast
    next
      case False
      with that es(3) show ?thesis by auto
    qed
    have "trace (V w') = trace (V w) @ dns_events p n q m @ (bs @ ssh)" using es(1) by simp
    with es(1) show ?thesis
      unfolding dns_events_def tmpfile_events_def resolv_conf_def nsswitch_conf_def dns internal_mount_def [symmetric]
      using later top unfolding ssh_mount_def
      by (intro conjI impI exI [where x = left] exI [where x = p] exI [where x = n] exI [where x = q]
          exI [where x = m] exI [where x = "bs @ ssh"]) (simp, simp, simp, simp, blast)
  qed (use p in \<open>simp add: kept_def\<close>)
qed

section \<open>Witnesses\<close>

text \<open>
  A kernel in which every call succeeds: descriptors are numbered upwards, temporary files get
  names longer than all present ones.
\<close>

record log_world =
  lw_fds :: "int list"
  lw_temps :: "string list"
  lw_trace :: "os_event list"

definition fresh_fd :: "log_world \<Rightarrow> int" where
  "fresh_fd w = foldr max (lw_fds w) 0 + 1"

definition fresh_path :: "log_world \<Rightarrow> string" where
  "fresh_path w = ''/tmp/nsproxy-'' @ replicate (foldr max (map length (lw_temps w)) 0) (CHR ''a'')"

definition log_os :: "log_world os_lib" where
  "log_os = \<lparr>
     os_call = (\<lambda>c w. case c of
         Close n \<Rightarrow> (w\<lparr>lw_fds := removeAll n (lw_fds w)\<rparr>, 0)
       | Unlink p \<Rightarrow> (w\<lparr>lw_temps := removeAll p (lw_temps w)\<rparr>, 0)
       | _ \<Rightarrow> if opens c
           then (w\<lparr>lw_fds := fresh_fd w # lw_fds w, lw_trace := lw_trace w @ [Opened c (fresh_fd w)]\<rparr>, fresh_fd w)
           else (w\<lparr>lw_trace := lw_trace w @ [Did c]\<rparr>, 0)),
     os_errno = (\<lambda>w. 0),
     os_mkstemp = (\<lambda>t w. (w\<lparr>lw_fds := fresh_fd w # lw_fds w, lw_temps := fresh_path w # lw_temps w,
       lw_trace := lw_trace w @ [MadeTemp (fresh_path w) (fresh_fd w)]\<rparr>, Inr (fresh_fd w, fresh_path w)))\<rparr>"

definition log_view :: "log_world \<Rightarrow> os_view" where
  "log_view w = \<lparr>fds = set (lw_fds w), temps = set (lw_temps w), stuck = {}, trace = lw_trace w\<rparr>"

lemma fresh_fd_new: "fresh_fd w \<notin> set (lw_fds w)" "0 \<le> fresh_fd w"
proof -
  have le: "x \<le> foldr max xs 0" if "x \<in> set xs" for x and xs :: "int list"
    using that by (induction xs) auto
  have nn: "0 \<le> foldr max xs (0 :: int)" for xs by (induction xs) auto
  from le [of "fresh_fd w" "lw_fds w"] show "fresh_fd w \<notin> set (lw_fds w)" by (auto simp: fresh_fd_def)
  from nn [of "lw_fds w"] show "0 \<le> fresh_fd w" by (simp add: fresh_fd_def)
qed

lemma fresh_fd_sign [simp]: "\<not> fresh_fd w < 0" "- 1 \<le> fresh_fd w" "fresh_fd w \<noteq> - 1"
  using fresh_fd_new(2) [of w] by linarith+

lemma fresh_path_new: "fresh_path w \<notin> set (lw_temps w)"
proof
  assume "fresh_path w \<in> set (lw_temps w)"
  then have "length (fresh_path w) \<in> set (map length (lw_temps w))" by simp
  moreover have "x \<le> foldr max xs 0" if "x \<in> set xs" for x and xs :: "nat list"
    using that by (induction xs) auto
  ultimately have "length (fresh_path w) \<le> foldr max (map length (lw_temps w)) 0" by blast
  then show False by (simp add: fresh_path_def)
qed

lemma log_os_spec: "os_spec log_os log_view"
  using fresh_fd_new fresh_path_new
  by (auto simp: os_spec_def log_os_def log_view_def call_effect_def opens_def
      split: sys_call.splits if_splits)

definition log_start :: log_world where
  "log_start = \<lparr>lw_fds = [0, 1, 2], lw_temps = [], lw_trace = []\<rparr>"

theorem create_tun_configures_witness:
  "\<exists>w'. create_tun log_os OtherArch log_start = (w', Inr 3) \<and> fds (log_view w') = {0, 1, 2, 3}"
proof -
  obtain w' r where c: "create_tun log_os OtherArch log_start = (w', r)" by fastforce
  have "snd (create_tun log_os OtherArch log_start) = Inr (fresh_fd log_start)"
    by (simp add: create_tun_def configure_tun_def config_ioctl_def tun_mask_octets map_error_def
        io_bind_def log_os_def TUN_NAME_def IF_NAMESIZE_def Let_def)
  with c have r: "r = Inr 3" by (simp add: fresh_fd_def log_start_def)
  have "fds (log_view log_start) = {0, 1, 2}" by (simp add: log_view_def log_start_def)
  with create_tun_configures [OF log_os_spec c] r c show ?thesis by auto
qed

text \<open>A file system with the two internal files, one of them a link, and the file it leads to.\<close>

definition sample_files :: file_system where
  "sample_files = \<lparr>
     symlink_metadata = (\<lambda>p.
       if p = ''/etc/resolv.conf'' then Inr \<lparr>md_dev = 1, md_ino = 1, md_type = Symlink\<rparr>
       else if p = ''/etc/nsswitch.conf'' then Inr \<lparr>md_dev = 1, md_ino = 2, md_type = RegularFile\<rparr>
       else if p = ''/h/a'' then Inr \<lparr>md_dev = 1, md_ino = 3, md_type = RegularFile\<rparr>
       else if p = ''/etc/hosts'' then Inr \<lparr>md_dev = 1, md_ino = 4, md_type = RegularFile\<rparr>
       else if p = ''/run/resolv.conf'' then Inr \<lparr>md_dev = 1, md_ino = 5, md_type = RegularFile\<rparr>
       else Inl 2),
     current_dir = Inr ''/h''\<rparr>"

text \<open>What \<open>stat\<close> says there: the link \<open>/etc/resolv.conf\<close> leads to another file.\<close>

definition sample_stat :: "string \<Rightarrow> errno + metadata" where
  "sample_stat p =
     (if p = ''/etc/resolv.conf'' then symlink_metadata sample_files ''/run/resolv.conf''
      else symlink_metadata sample_files p)"

theorem mounts_keep_dns_witness:
  "parse_bind_mounts sample_files [''./a:/etc//hosts''] ''/h'' = Inr [\<lparr>bm_source = ''/h/a'', bm_target = ''/etc/hosts''\<rparr>] \<and>
   stat_spec sample_files sample_stat \<and>
   fds (log_view (fst (setup_mount_namespace log_os [\<lparr>bm_source = ''/h/a'', bm_target = ''/etc/hosts''\<rparr>] log_start))) = {0, 1, 2}"
proof (intro conjI)
  let ?ms = "[\<lparr>bm_source = ''/h/a'', bm_target = ''/etc/hosts''\<rparr>]"
  show p: "parse_bind_mounts sample_files [''./a:/etc//hosts''] ''/h'' = Inr ?ms"
    by code_simp
  show s: "stat_spec sample_files sample_stat"
    by (auto simp: stat_spec_def sample_stat_def sample_files_def split: if_splits)
  have "is_absolute ''/h''" by (simp add: is_absolute_Cons)
  from mounts_keep_dns [OF log_os_spec p this s surjective_pairing]
  show "fds (log_view (fst (setup_mount_namespace log_os ?ms log_start))) = {0, 1, 2}"
    by (simp add: log_view_def log_start_def)
qed

text \<open>
  A limit of the check: where \<open>/etc/resolv.conf\<close> is a symbolic link, the resolver configuration is
  mounted over the file the link leads to, while the check of the command line knows the link only. A
  bind mount whose target is that file is accepted, and covers the resolver configuration again.
\<close>

lemma linked_resolver_covered:
  "\<exists>bm. parse_bind_mounts sample_files [''/h/a:/run/resolv.conf''] ''/h'' = Inr [bm] \<and>
     stat_spec sample_files sample_stat \<and>
     (\<exists>i. covers sample_files sample_stat (internal_mount p ''/etc/resolv.conf'') = Some i \<and>
       covers sample_files sample_stat (Did (MoveMount n [] (bm_target bm) 4)) = Some i)"
proof (intro exI conjI)
  let ?bm = "\<lparr>bm_source = ''/h/a'', bm_target = ''/run/resolv.conf''\<rparr>"
  show "parse_bind_mounts sample_files [''/h/a:/run/resolv.conf''] ''/h'' = Inr [?bm]" by code_simp
  show "stat_spec sample_files sample_stat"
    by (auto simp: stat_spec_def sample_stat_def sample_files_def split: if_splits)
  show "covers sample_files sample_stat (internal_mount p ''/etc/resolv.conf'') = Some (1, 5)"
    "covers sample_files sample_stat (Did (MoveMount n [] (bm_target ?bm) 4)) = Some (1, 5)"
    by (simp_all add: covers_def object_of_def internal_mount_def sample_stat_def sample_files_def MOVE_MOUNT_T_SYMLINKS_def)
qed

end
