(* ===== verification/Process_Tree.thy ===== *)
theory Process_Tree
  imports Bind_Mounts
begin

text \<open>
  The reaper of \<open>src/src/process.rs\<close>: starting the command, collecting it and its adopted
  descendants, and passing termination signals on to the whole tree. The kernel is a parameter,
  the record \<open>proc_lib\<close> of the calls the code makes over a state \<open>'w\<close>. Process identifiers are
  32-bit words; instants and durations are nanoseconds. The search for descendants is a total
  function, because no identifier is visited twice; the loops that wait for the kernel are
  partial functions into \<open>option\<close>, where \<open>None\<close> is a run that never ends.
\<close>

section \<open>Kernel interface\<close>

type_synonym pid = "32 word"
type_synonym signal = int

definition SIGHUP :: signal where "SIGHUP = 1"
definition SIGINT :: signal where "SIGINT = 2"
definition SIGKILL :: signal where "SIGKILL = 9"
definition SIGTERM :: signal where "SIGTERM = 15"
definition SIGCHLD :: signal where "SIGCHLD = 17"

definition ENOENT :: errno where "ENOENT = 2"
definition ESRCH :: errno where "ESRCH = 3"
definition EINTR :: errno where "EINTR = 4"
definition ECHILD :: errno where "ECHILD = 10"
definition EAGAIN :: errno where "EAGAIN = 11"

text \<open>\<open>Signal::try_from\<close>: the standard signals.\<close>

definition signal_of :: "int \<Rightarrow> signal option" where
  "signal_of n = (if 1 \<le> n \<and> n \<le> 31 then Some n else None)"

datatype wait_status = Exited pid int | Signaled pid signal bool | StillAlive | OtherStatus pid

datatype fork_result = Child | Parent pid

record 'w proc_lib =
  pl_set_subreaper :: "'w \<Rightarrow> 'w \<times> (errno + unit)"
  pl_block_signals :: "signal list \<Rightarrow> 'w \<Rightarrow> 'w \<times> (errno + signal list)"
  pl_set_mask :: "signal list \<Rightarrow> 'w \<Rightarrow> 'w \<times> (errno + unit)"
  pl_fork :: "'w \<Rightarrow> 'w \<times> (errno + fork_result)"
  pl_execvp :: "string \<Rightarrow> string list \<Rightarrow> 'w \<Rightarrow> 'w \<times> errno option"
  pl_waitpid :: "'w \<Rightarrow> 'w \<times> (errno + wait_status)"
  pl_sigtimedwait :: "signal list \<Rightarrow> (nat \<times> nat) option \<Rightarrow> 'w \<Rightarrow> 'w \<times> (errno + int)"
  pl_now :: "'w \<Rightarrow> 'w \<times> nat"
  pl_getpid :: "'w \<Rightarrow> pid"
  pl_read_tasks :: "pid \<Rightarrow> 'w \<Rightarrow> 'w \<times> (errno + (errno + string) list)"
  pl_read_children :: "pid \<Rightarrow> string \<Rightarrow> 'w \<Rightarrow> 'w \<times> (errno + string)"
  pl_kill :: "pid \<Rightarrow> signal \<Rightarrow> 'w \<Rightarrow> 'w \<times> (errno + unit)"

datatype proc_error =
    ProcError string errno
  | NoCommand
  | NulInArgument string
  | BadPid
  | BadSignal int
  | NoExitStatus

definition TERMINATION_GRACE :: nat where "TERMINATION_GRACE = 2 * 10 ^ 9"

section \<open>Text of the process file system\<close>

text \<open>\<open>str::split_whitespace\<close> on code points: the non-empty pieces between white space.\<close>

primrec split_pred :: "('a \<Rightarrow> bool) \<Rightarrow> 'a list \<Rightarrow> 'a list list" where
  "split_pred p [] = [[]]"
| "split_pred p (x # xs) =
     (if p x then [] # split_pred p xs
      else (case split_pred p xs of [] \<Rightarrow> [[x]] | q # qs \<Rightarrow> (x # q) # qs))"

definition split_whitespace :: "string \<Rightarrow> nat list list" where
  "split_whitespace s = filter (\<lambda>t. t \<noteq> []) (split_pred is_whitespace (str_chars s))"

text \<open>\<open>i32::from_str\<close>.\<close>

definition parse_i32 :: "nat list \<Rightarrow> int option" where
  "parse_i32 t =
     (if \<not> (\<forall>c \<in> set t. c < 128) then None
      else case map char_of t of
        [] \<Rightarrow> None
      | c # cs \<Rightarrow>
          if c = CHR ''-''
          then (if cs = [] then None else map_option (\<lambda>n. - int n) (parse_digits 2147483648 0 cs))
          else map_option int (parse_uint 2147483647 (c # cs)))"

section \<open>Signalling the tree\<close>

definition forward_signal :: "'w proc_lib \<Rightarrow> pid \<Rightarrow> signal \<Rightarrow> ('w, proc_error, unit) io" where
  "forward_signal L pid sig w =
     (case pl_kill L pid sig w of
        (w, Inr u) \<Rightarrow> (w, Inr ())
      | (w, Inl e) \<Rightarrow> if e = ESRCH then (w, Inr ()) else (w, Inl (ProcError ''send signal'' e)))"

text \<open>The search state: the stack of processes to visit, the descendants found, the ones seen.\<close>

type_synonym search = "pid list \<times> pid list \<times> pid set"

primrec visit_children :: "nat list list \<Rightarrow> search \<Rightarrow> proc_error + search" where
  "visit_children [] s = Inr s"
| "visit_children (t # ts) s =
     (case parse_i32 t of
        None \<Rightarrow> Inl BadPid
      | Some n \<Rightarrow>
          let ch = word_of_int n; (pending, descendants, seen) = s
          in visit_children ts
               (if ch \<in> seen then s
                else (ch # pending, descendants @ [ch], insert ch seen)))"

primrec visit_tasks ::
  "'w proc_lib \<Rightarrow> pid \<Rightarrow> (errno + string) list \<Rightarrow> search \<Rightarrow> ('w, proc_error, search) io" where
  "visit_tasks L pid [] s w = (w, Inr s)"
| "visit_tasks L pid (task # tasks) s w =
     (case task of
        Inl e \<Rightarrow> (w, Inl (ProcError ''read task'' e))
      | Inr t \<Rightarrow>
          (case pl_read_children L pid t w of
             (w, Inl e) \<Rightarrow>
               if e = ENOENT then visit_tasks L pid tasks s w
               else (w, Inl (ProcError ''list managed child processes'' e))
           | (w, Inr text) \<Rightarrow>
               (case visit_children (split_whitespace text) s of
                  Inl e \<Rightarrow> (w, Inl e)
                | Inr s \<Rightarrow> visit_tasks L pid tasks s w)))"

definition search_room :: "search \<Rightarrow> nat" where
  "search_room s = (case s of (pending, descendants, seen) \<Rightarrow> card (- seen) + length pending)"

lemma card_Suc_seen:
  fixes seen :: "pid set"
  assumes "c \<notin> seen"
  shows "card (- seen) = Suc (card (- insert c seen))"
proof -
  have "- seen = insert c (- insert c seen)" using assms by auto
  then have "card (- seen) = card (insert c (- insert c seen))" by simp
  also have "\<dots> = Suc (card (- insert c seen))" by (rule card_insert_disjoint) auto
  finally show ?thesis .
qed

lemma visit_children_room: "visit_children ts s = Inr s' \<Longrightarrow> search_room s' = search_room s"
proof (induction ts arbitrary: s)
  case (Cons t ts)
  obtain pending ds seen where s: "s = (pending, ds, seen)" by (metis prod.exhaust)
  with Cons s show ?case
    by (auto simp: search_room_def Let_def card_Suc_seen split: option.splits if_splits)
qed simp

lemma visit_tasks_room: "visit_tasks L pid tasks s w = (w', Inr s') \<Longrightarrow> search_room s' = search_room s"
  by (induction tasks arbitrary: s w)
    (auto split: sum.splits prod.splits if_splits dest: visit_children_room)

function (sequential) search_descendants :: "'w proc_lib \<Rightarrow> 'w \<Rightarrow> search \<Rightarrow> 'w \<times> (proc_error + pid list)" where
  "search_descendants L w ([], descendants, seen) = (w, Inr descendants)"
| "search_descendants L w (pid # pending, descendants, seen) =
     (case pl_read_tasks L pid w of
        (w, Inl e) \<Rightarrow>
          if e = ENOENT then search_descendants L w (pending, descendants, seen)
          else (w, Inl (ProcError ''list managed process threads'' e))
      | (w, Inr tasks) \<Rightarrow>
          (case visit_tasks L pid tasks (pending, descendants, seen) w of
             (w, Inl e) \<Rightarrow> (w, Inl e)
           | (w, Inr s) \<Rightarrow> search_descendants L w s))"
  by pat_completeness auto
termination
  by (relation "measure (\<lambda>(L, w, s). search_room s)")
    (auto simp: search_room_def dest!: visit_tasks_room [OF sym])

primrec signal_all :: "'w proc_lib \<Rightarrow> signal \<Rightarrow> pid list \<Rightarrow> ('w, proc_error, unit) io" where
  "signal_all L sig [] = io_return ()"
| "signal_all L sig (pid # pids) = io_bind (forward_signal L pid sig) (\<lambda>_. signal_all L sig pids)"

definition signal_descendants :: "'w proc_lib \<Rightarrow> pid \<Rightarrow> signal \<Rightarrow> ('w, proc_error, unit) io" where
  "signal_descendants L root sig =
     io_bind (\<lambda>w. search_descendants L w ([root], [], {root}))
       (\<lambda>descendants. signal_all L sig (rev descendants))"

section \<open>Waiting for the tree\<close>

text \<open>
  The inner loop: collect every child that has ended. \<open>Inl r\<close> is a return from the function,
  \<open>Inr code\<close> the end of the loop with the exit code of the command so far.
\<close>

partial_function (option) reap ::
  "'w proc_lib \<Rightarrow> pid \<Rightarrow> int option \<Rightarrow> 'w \<Rightarrow> ('w \<times> ((proc_error + int) + int option)) option" where
  "reap L command_pid code w =
     (case pl_waitpid L w of
        (w, Inr (Exited pid c)) \<Rightarrow> reap L command_pid (if pid = command_pid then Some c else code) w
      | (w, Inr (Signaled pid sig core)) \<Rightarrow>
          reap L command_pid (if pid = command_pid then Some (128 + sig) else code) w
      | (w, Inr StillAlive) \<Rightarrow> Some (w, Inr code)
      | (w, Inr (OtherStatus pid)) \<Rightarrow> reap L command_pid code w
      | (w, Inl e) \<Rightarrow>
          if e = EINTR then reap L command_pid code w
          else if e = ECHILD then Some (w, Inl (or_err NoExitStatus code))
          else Some (w, Inl (Inl (ProcError ''waitpid command tree'' e))))"

definition saturating_since :: "nat \<Rightarrow> nat \<Rightarrow> nat" where
  "saturating_since deadline now = deadline - now"

text \<open>The signal that is sent to the tree once a termination was asked for, and the next timeout.\<close>

definition escalate :: "'w proc_lib \<Rightarrow> (signal \<times> nat) option \<Rightarrow> ('w, proc_error, nat option) io" where
  "escalate L termination w =
     (case termination of
        None \<Rightarrow> (w, Inr None)
      | Some (sig, deadline) \<Rightarrow>
          (case pl_now L w of
             (w, now) \<Rightarrow>
               let remaining = saturating_since deadline now;
                   sig = (if remaining = 0 then SIGKILL else sig)
               in io_bind (signal_descendants L (pl_getpid L w) sig)
                    (\<lambda>_. io_return (Some (if remaining = 0 then 100 * 10 ^ 6 else remaining))) w))"

definition timespec :: "nat \<Rightarrow> nat \<times> nat" where
  "timespec d = (d div 10 ^ 9, d mod 10 ^ 9)"

text \<open>The rest of the outer loop's body: wait for a signal and note a termination.\<close>

definition await_signal ::
  "'w proc_lib \<Rightarrow> signal list \<Rightarrow> (signal \<times> nat) option \<Rightarrow> nat option \<Rightarrow>
   ('w, proc_error, (signal \<times> nat) option) io" where
  "await_signal L signals termination timeout w =
     (case pl_sigtimedwait L signals (map_option timespec timeout) w of
        (w, Inl e) \<Rightarrow>
          if e = EINTR \<or> e = EAGAIN then (w, Inr termination)
          else (w, Inl (ProcError ''wait for command-tree signal'' e))
      | (w, Inr received) \<Rightarrow>
          (case signal_of received of
             None \<Rightarrow> (w, Inl (BadSignal received))
           | Some sig \<Rightarrow>
               if sig = SIGCHLD then (w, Inr termination)
               else (case termination of
                   Some (last_signal, deadline) \<Rightarrow>
                     (fst (pl_now L w), Inr (Some (sig, deadline)))
                 | None \<Rightarrow> (case pl_now L w of (w, now) \<Rightarrow> (w, Inr (Some (sig, now + TERMINATION_GRACE)))))))"

partial_function (option) wait_loop ::
  "'w proc_lib \<Rightarrow> pid \<Rightarrow> signal list \<Rightarrow> int option \<Rightarrow> (signal \<times> nat) option \<Rightarrow> 'w \<Rightarrow>
   ('w \<times> (proc_error + int)) option" where
  "wait_loop L command_pid signals code termination w =
     (case reap L command_pid code w of
        None \<Rightarrow> None
      | Some (w, Inl r) \<Rightarrow> Some (w, r)
      | Some (w, Inr code) \<Rightarrow>
          (case io_bind (escalate L termination) (await_signal L signals termination) w of
             (w, Inl e) \<Rightarrow> Some (w, Inl e)
           | (w, Inr termination) \<Rightarrow> wait_loop L command_pid signals code termination w))"

definition wait_for_command_tree ::
  "'w proc_lib \<Rightarrow> pid \<Rightarrow> signal list \<Rightarrow> 'w \<Rightarrow> ('w \<times> (proc_error + int)) option" where
  "wait_for_command_tree L command_pid signals w = wait_loop L command_pid signals None None w"

section \<open>Starting the command\<close>

definition set_child_subreaper :: "'w proc_lib \<Rightarrow> ('w, proc_error, unit) io" where
  "set_child_subreaper L w =
     (case pl_set_subreaper L w of
        (w, Inl e) \<Rightarrow> (w, Inl (ProcError ''prctl(PR_SET_CHILD_SUBREAPER)'' e))
      | (w, Inr u) \<Rightarrow> (w, Inr ()))"

text \<open>\<open>exec_command\<close> returns only when it fails; \<open>None\<close> is the replaced process image.\<close>

definition exec_command :: "'w proc_lib \<Rightarrow> string list \<Rightarrow> 'w \<Rightarrow> 'w \<times> proc_error option" where
  "exec_command L cmd w =
     (case cmd of
        [] \<Rightarrow> (w, Some NoCommand)
      | prog # _ \<Rightarrow>
          (case find (\<lambda>s. CHR 0x00 \<in> set s) cmd of
             Some s \<Rightarrow> (w, Some (NulInArgument s))
           | None \<Rightarrow>
               (case pl_execvp L prog cmd w of
                  (w, Some e) \<Rightarrow> (w, Some (ProcError ''execvp'' e))
                | (w, None) \<Rightarrow> (w, None))))"

datatype outcome = Returned "proc_error + int" | ExitProcess int | ImageReplaced

definition SIGNALS :: "signal list" where
  "SIGNALS = [SIGCHLD, SIGTERM, SIGINT, SIGHUP]"

definition run_command_tree :: "'w proc_lib \<Rightarrow> string list \<Rightarrow> 'w \<Rightarrow> ('w \<times> outcome) option" where
  "run_command_tree L cmd w =
     (case set_child_subreaper L w of
        (w, Inl e) \<Rightarrow> Some (w, Returned (Inl e))
      | (w, Inr u) \<Rightarrow>
     (case pl_block_signals L SIGNALS w of
        (w, Inl e) \<Rightarrow> Some (w, Returned (Inl (ProcError ''sigmask'' e)))
      | (w, Inr previous_mask) \<Rightarrow>
     (case pl_fork L w of
        (w, Inl e) \<Rightarrow> Some (w, Returned (Inl (ProcError ''fork command'' e)))
      | (w, Inr Child) \<Rightarrow>
          (case pl_set_mask L previous_mask w of
             (w, Inl e) \<Rightarrow> Some (w, Returned (Inl (ProcError ''sigmask'' e)))
           | (w, Inr u) \<Rightarrow>
               (case exec_command L cmd w of
                  (w, Some e) \<Rightarrow> Some (w, ExitProcess 1)
                | (w, None) \<Rightarrow> Some (w, ImageReplaced)))
      | (w, Inr (Parent command_pid)) \<Rightarrow>
          map_option (\<lambda>(w, r). (w, Returned r)) (wait_for_command_tree L command_pid SIGNALS w))))"

section \<open>The search finds the tree\<close>

definition child_pids :: "string \<Rightarrow> pid list option" where
  "child_pids text = those (map (\<lambda>t. map_option word_of_int (parse_i32 t)) (split_whitespace text))"

lemma child_pids_Nil: "child_pids [] = Some []"
  by (simp add: child_pids_def split_whitespace_def str_chars_ascii is_ascii_def)

definition kids_of :: "(pid \<Rightarrow> string list) \<Rightarrow> (pid \<Rightarrow> string \<Rightarrow> string) \<Rightarrow> pid \<Rightarrow> pid list" where
  "kids_of threads text pid = concat (map (\<lambda>t. the (child_pids (text pid t))) (threads pid))"

text \<open>
  A process tree that does not change while it is signalled: every process has its threads, each
  with the text of its \<open>children\<close> file. A process without threads may be gone from \<open>/proc\<close>, and so may
  a thread without children, and \<open>kill\<close> succeeds or finds the process gone; \<open>killed\<close> lists the
  signals that were sent.
\<close>

definition tree_spec ::
  "'w proc_lib \<Rightarrow> (pid \<Rightarrow> string list) \<Rightarrow> (pid \<Rightarrow> string \<Rightarrow> string) \<Rightarrow> ('w \<Rightarrow> (pid \<times> signal) list) \<Rightarrow> bool" where
  "tree_spec L threads text killed \<longleftrightarrow>
     (\<forall>pid w. \<exists>w' r. pl_read_tasks L pid w = (w', r) \<and> killed w' = killed w \<and>
        (r = Inr (map Inr (threads pid)) \<or> r = Inl ENOENT \<and> threads pid = [])) \<and>
     (\<forall>pid t w. \<exists>w' r. pl_read_children L pid t w = (w', r) \<and> killed w' = killed w \<and>
        (r = Inr (text pid t) \<or> r = Inl ENOENT \<and> text pid t = [])) \<and>
     (\<forall>pid t. t \<in> set (threads pid) \<longrightarrow> child_pids (text pid t) \<noteq> None) \<and>
     (\<forall>pid sig w. \<exists>w' r. pl_kill L pid sig w = (w', r) \<and> (r = Inr () \<or> r = Inl ESRCH) \<and>
        killed w' = killed w @ [(pid, sig)])"

definition add_child :: "search \<Rightarrow> pid \<Rightarrow> search" where
  "add_child s c =
     (case s of (pending, ds, seen) \<Rightarrow> if c \<in> seen then s else (c # pending, ds @ [c], insert c seen))"

lemma visit_children_fold:
  "those (map (\<lambda>t. map_option word_of_int (parse_i32 t)) ts) = Some ps \<Longrightarrow>
   visit_children ts s = Inr (foldl add_child s ps)"
proof (induction ts arbitrary: s ps)
  case (Cons t ts)
  then obtain n qs where n: "parse_i32 t = Some n" "ps = word_of_int n # qs"
    "those (map (\<lambda>t. map_option word_of_int (parse_i32 t)) ts) = Some qs"
    by (auto split: option.splits)
  with Cons.IH show ?case
    by (cases s) (simp add: add_child_def Let_def)
qed simp

lemma visit_tasks_fold:
  assumes "tree_spec L threads text killed" and "set ts \<subseteq> set (threads pid)"
  shows "\<exists>w'. visit_tasks L pid (map Inr ts) s w =
      (w', Inr (foldl add_child s (concat (map (\<lambda>t. the (child_pids (text pid t))) ts)))) \<and> killed w' = killed w"
  using assms(2)
proof (induction ts arbitrary: s w)
  case (Cons t ts)
  from assms(1) obtain w1 r where w1: "pl_read_children L pid t w = (w1, r)" "killed w1 = killed w"
    "r = Inr (text pid t) \<or> r = Inl ENOENT \<and> text pid t = []"
    unfolding tree_spec_def by metis
  from assms(1) Cons.prems obtain ps where ps: "child_pids (text pid t) = Some ps"
    unfolding tree_spec_def by fastforce
  from visit_children_fold [OF ps [unfolded child_pids_def]]
  have "visit_children (split_whitespace (text pid t)) s = Inr (foldl add_child s ps)" .
  moreover have "ps = []" if "text pid t = []" using ps that by (simp add: child_pids_Nil)
  ultimately show ?case using w1 ps Cons.IH [of "foldl add_child s ps" w1] Cons.prems by auto
qed simp

text \<open>
  The invariant of the search while the children of \<open>x\<close> are being read: what is seen is the root
  and the descendants found, everything seen is reachable, every visited process other than \<open>x\<close>
  has all its children seen, and each descendant was found after a parent of it.
\<close>

definition child_rel :: "(pid \<Rightarrow> pid list) \<Rightarrow> (pid \<times> pid) set" where
  "child_rel kids = {(p, c). c \<in> set (kids p)}"

definition found_in_order :: "(pid \<Rightarrow> pid list) \<Rightarrow> pid \<Rightarrow> pid list \<Rightarrow> bool" where
  "found_in_order kids root ds \<longleftrightarrow>
     (\<forall>i < length ds. \<exists>p. ds ! i \<in> set (kids p) \<and> (p = root \<or> (\<exists>j < i. ds ! j = p)))"

definition search_inv :: "(pid \<Rightarrow> pid list) \<Rightarrow> pid \<Rightarrow> pid set \<Rightarrow> search \<Rightarrow> bool" where
  "search_inv kids root open_pids s =
     (case s of (pending, ds, seen) \<Rightarrow>
        seen = insert root (set ds) \<and> distinct (root # ds) \<and> set pending \<subseteq> seen \<and>
        (\<forall>y \<in> seen. (root, y) \<in> (child_rel kids)\<^sup>*) \<and>
        (\<forall>y \<in> seen - set pending - open_pids. set (kids y) \<subseteq> seen) \<and> found_in_order kids root ds)"

lemma found_in_order_snoc:
  assumes "found_in_order kids root ds" and "c \<in> set (kids p)" and "p \<in> insert root (set ds)"
  shows "found_in_order kids root (ds @ [c])"
  unfolding found_in_order_def
proof (intro allI impI)
  fix i assume "i < length (ds @ [c])"
  then consider "i < length ds" | "i = length ds" by fastforce
  then show "\<exists>q. (ds @ [c]) ! i \<in> set (kids q) \<and> (q = root \<or> (\<exists>j < i. (ds @ [c]) ! j = q))"
  proof cases
    case 1
    with assms(1) obtain q where q: "ds ! i \<in> set (kids q)" "q = root \<or> (\<exists>j < i. ds ! j = q)"
      unfolding found_in_order_def by blast
    moreover have "(ds @ [c]) ! j = ds ! j" if "j \<le> i" for j
      using that 1 by (simp add: nth_append)
    ultimately show ?thesis by (metis less_imp_le order_refl)
  next
    case 2
    with assms(2,3) show ?thesis by (auto simp: nth_append in_set_conv_nth)
  qed
qed

lemma add_child_inv:
  assumes "search_inv kids root {x} (pending, ds, seen)" and "x \<in> seen" and "c \<in> set (kids x)"
  shows "search_inv kids root {x} (add_child (pending, ds, seen) c) \<and>
    insert c seen \<subseteq> snd (snd (add_child (pending, ds, seen) c))"
proof (cases "c \<in> seen")
  case False
  with assms have "(root, c) \<in> (child_rel kids)\<^sup>*"
    by (auto simp: search_inv_def child_rel_def intro: rtrancl_into_rtrancl)
  moreover have "found_in_order kids root (ds @ [c])"
    using assms by (auto simp: search_inv_def intro: found_in_order_snoc)
  ultimately show ?thesis
    using assms False by (auto simp: search_inv_def add_child_def)
qed (use assms in \<open>auto simp: add_child_def\<close>)

lemma foldl_add_child_inv:
  assumes "search_inv kids root {x} s" and "x \<in> snd (snd s)" and "set cs \<subseteq> set (kids x)"
  shows "search_inv kids root {x} (foldl add_child s cs) \<and>
    set cs \<union> snd (snd s) \<subseteq> snd (snd (foldl add_child s cs))"
  using assms
proof (induction cs arbitrary: s)
  case (Cons c cs)
  obtain pending ds seen where s: "s = (pending, ds, seen)" by (metis prod.exhaust)
  from add_child_inv [of kids root x pending ds seen c] Cons.prems s
  have "search_inv kids root {x} (add_child s c)" "insert c seen \<subseteq> snd (snd (add_child s c))" by auto
  with Cons.IH [of "add_child s c"] Cons.prems s show ?case by auto
qed simp

lemma search_inv_visited:
  assumes "search_inv kids root {} (x # pending, ds, seen)"
  shows "search_inv kids root {} (foldl add_child (pending, ds, seen) (kids x))"
proof -
  from assms have x: "x \<in> seen" "search_inv kids root {x} (pending, ds, seen)"
    by (auto simp: search_inv_def)
  from foldl_add_child_inv [OF x(2), of "kids x"] x(1)
  have "search_inv kids root {x} (foldl add_child (pending, ds, seen) (kids x))"
    "set (kids x) \<subseteq> snd (snd (foldl add_child (pending, ds, seen) (kids x)))" by auto
  then show ?thesis
    by (cases "foldl add_child (pending, ds, seen) (kids x)") (auto simp: search_inv_def)
qed

lemma foldl_add_child_room: "search_room (foldl add_child s cs) = search_room s"
proof (induction cs arbitrary: s)
  case (Cons c cs)
  obtain pending ds seen where s: "s = (pending, ds, seen)" by (metis prod.exhaust)
  have "search_room (add_child s c) = search_room s"
    using card_Suc_seen [of c seen] by (auto simp: s add_child_def search_room_def)
  with Cons show ?case by simp
qed simp

lemma search_descendants_finds:
  assumes "tree_spec L threads text killed" and "search_inv (kids_of threads text) root {} s"
  shows "\<exists>w' ds. search_descendants L w s = (w', Inr ds) \<and> killed w' = killed w \<and>
    search_inv (kids_of threads text) root {} ([], ds, insert root (set ds))"
  using assms(2)
proof (induction "search_room s" arbitrary: s w rule: less_induct)
  case less
  obtain pending ds seen where s: "s = (pending, ds, seen)" by (metis prod.exhaust)
  show ?case
  proof (cases pending)
    case Nil
    with less.prems s show ?thesis by (auto simp: search_inv_def)
  next
    case (Cons x rest)
    let ?s = "foldl add_child (rest, ds, seen) (kids_of threads text x)"
    from assms(1) obtain w1 r where w1: "pl_read_tasks L x w = (w1, r)" "killed w1 = killed w"
      "r = Inr (map Inr (threads x)) \<or> r = Inl ENOENT \<and> threads x = []"
      unfolding tree_spec_def by metis
    from visit_tasks_fold [OF assms(1), of "threads x" x "(rest, ds, seen)" w1] obtain w2 where
      w2: "visit_tasks L x (map Inr (threads x)) (rest, ds, seen) w1 = (w2, Inr ?s)" "killed w2 = killed w1"
      by (auto simp: kids_of_def)
    have "search_inv (kids_of threads text) root {} ?s"
      using less.prems by (simp add: s Cons search_inv_visited)
    moreover have "search_room ?s < search_room s"
      by (simp add: foldl_add_child_room) (simp add: search_room_def s Cons)
    ultimately have IH: "\<exists>w' ds. search_descendants L w ?s = (w', Inr ds) \<and> killed w' = killed w \<and>
        search_inv (kids_of threads text) root {} ([], ds, insert root (set ds))" for w
      using less.hyps by blast
    from w1(3) show ?thesis
    proof
      assume "r = Inr (map Inr (threads x))"
      with IH [of w2] w1 w2 show ?thesis by (simp add: s Cons)
    next
      assume gone: "r = Inl ENOENT \<and> threads x = []"
      then have "?s = (rest, ds, seen)" by (simp add: kids_of_def)
      with IH [of w1] w1 gone show ?thesis by (simp add: s Cons)
    qed
  qed
qed

lemma signal_all_kills:
  assumes "tree_spec L threads text killed"
  shows "\<exists>w'. signal_all L sig pids w = (w', Inr ()) \<and> killed w' = killed w @ map (\<lambda>p. (p, sig)) pids"
proof (induction pids arbitrary: w)
  case (Cons p pids)
  from assms obtain w1 r where "pl_kill L p sig w = (w1, r)" "r = Inr () \<or> r = Inl ESRCH"
    "killed w1 = killed w @ [(p, sig)]"
    unfolding tree_spec_def by blast
  then have "forward_signal L p sig w = (w1, Inr ())" "killed w1 = killed w @ [(p, sig)]"
    by (auto simp: forward_signal_def)
  with Cons.IH [of w1] show ?case by auto
qed (simp add: io_return_def)

text \<open>A closed set of processes that holds the root and only reachable ones is what is reachable.\<close>

lemma search_inv_done:
  assumes "search_inv kids root {} ([], ds, insert root (set ds))"
  shows "set ds = {p. (root, p) \<in> (child_rel kids)\<^sup>+} - {root}"
proof -
  have closed: "y \<in> insert root (set ds)" if "(root, y) \<in> (child_rel kids)\<^sup>*" for y
    using that
  proof (induction rule: rtrancl_induct)
    case (step y z)
    with assms show ?case by (auto simp: search_inv_def child_rel_def)
  qed simp
  show ?thesis
  proof (intro equalityI subsetI)
    fix p assume "p \<in> set ds"
    with assms have "(root, p) \<in> (child_rel kids)\<^sup>*" "p \<noteq> root" by (auto simp: search_inv_def)
    then show "p \<in> {p. (root, p) \<in> (child_rel kids)\<^sup>+} - {root}" by (auto simp: rtrancl_eq_or_trancl)
  next
    fix p assume "p \<in> {p. (root, p) \<in> (child_rel kids)\<^sup>+} - {root}"
    with closed [of p] show "p \<in> set ds" by (auto dest: trancl_into_rtrancl)
  qed
qed

definition comes_before :: "'a list \<Rightarrow> 'a \<Rightarrow> 'a \<Rightarrow> bool" where
  "comes_before xs a b \<longleftrightarrow> (\<exists>i j. i < j \<and> j < length xs \<and> xs ! i = a \<and> xs ! j = b)"

lemma comes_before_rev: "comes_before (rev xs) a b" if "comes_before xs b a"
proof -
  from that obtain i j where "i < j" "j < length xs" "xs ! i = b" "xs ! j = a"
    unfolding comes_before_def by blast
  then show ?thesis
    unfolding comes_before_def
    by (intro exI [of _ "length xs - Suc j"] exI [of _ "length xs - Suc i"]) (auto simp: rev_nth)
qed

text \<open>No process has two parents.\<close>

definition forest :: "(pid \<Rightarrow> pid list) \<Rightarrow> bool" where
  "forest kids \<longleftrightarrow> (\<forall>p q c. c \<in> set (kids p) \<and> c \<in> set (kids q) \<longrightarrow> p = q)"

lemma found_in_order_forest:
  assumes "found_in_order kids root ds" and "forest kids" and "c \<in> set (kids p)"
    and "p \<in> set ds" and "c \<in> set ds" and "root \<notin> set ds"
  shows "comes_before ds p c"
proof -
  from assms(5) obtain i where i: "i < length ds" "ds ! i = c" by (auto simp: in_set_conv_nth)
  with assms(1) obtain q where q: "c \<in> set (kids q)" "q = root \<or> (\<exists>j < i. ds ! j = q)"
    unfolding found_in_order_def by blast
  from assms(2,3) q(1) have "q = p" unfolding forest_def by blast
  with q(2) assms(4,6) i show ?thesis unfolding comes_before_def by auto
qed

lemma signal_descendants_run:
  assumes "tree_spec L threads text killed"
  shows "\<exists>w' ds. signal_descendants L root sig w = (w', Inr ()) \<and>
    killed w' = killed w @ map (\<lambda>p. (p, sig)) (rev ds) \<and>
    search_inv (kids_of threads text) root {} ([], ds, insert root (set ds))"
proof -
  have "search_inv (kids_of threads text) root {} ([root], [], {root})"
    by (simp add: search_inv_def found_in_order_def)
  from search_descendants_finds [OF assms this, of w] obtain w1 ds where
    w1: "search_descendants L w ([root], [], {root}) = (w1, Inr ds)" "killed w1 = killed w"
    and inv: "search_inv (kids_of threads text) root {} ([], ds, insert root (set ds))" by blast
  from signal_all_kills [OF assms, of sig "rev ds" w1] obtain w2 where
    w2: "signal_all L sig (rev ds) w1 = (w2, Inr ())" "killed w2 = killed w1 @ map (\<lambda>p. (p, sig)) (rev ds)"
    by blast
  have "signal_descendants L root sig w = (w2, Inr ())"
    using w1 w2 by (simp add: signal_descendants_def)
  with inv w1 w2 show ?thesis by (intro exI [of _ w2] exI [of _ ds]) simp
qed

section \<open>Properties of the signalling\<close>

text \<open>
  C23. Signalling the tree: whatever the shape of the process graph, the pass ends, and when the tree
  does not change meanwhile every descendant of the root is sent the signal exactly once, the
  root itself is not, and in a forest every child is signalled before its parent.
\<close>

theorem signal_descendants_exact:
  assumes "tree_spec L threads text killed"
  shows "\<exists>w' ks. signal_descendants L root sig w = (w', Inr ()) \<and>
    killed w' = killed w @ map (\<lambda>p. (p, sig)) ks \<and> distinct ks \<and>
    set ks = {p. (root, p) \<in> (child_rel (kids_of threads text))\<^sup>+} - {root} \<and>
    (forest (kids_of threads text) \<longrightarrow>
      (\<forall>p \<in> set ks. \<forall>c \<in> set ks. c \<in> set (kids_of threads text p) \<longrightarrow> comes_before ks c p))"
proof -
  let ?kids = "kids_of threads text"
  from signal_descendants_run [OF assms] obtain w' ds where
    run: "signal_descendants L root sig w = (w', Inr ())" "killed w' = killed w @ map (\<lambda>p. (p, sig)) (rev ds)"
    and inv: "search_inv ?kids root {} ([], ds, insert root (set ds))" by blast
  have "comes_before (rev ds) c p" if "forest ?kids" "p \<in> set ds" "c \<in> set ds" "c \<in> set (?kids p)" for p c
    by (rule comes_before_rev, rule found_in_order_forest [OF _ that(1,4)])
      (use inv that in \<open>auto simp: search_inv_def\<close>)
  moreover have "distinct ds" using inv by (simp add: search_inv_def)
  ultimately show ?thesis
    using run search_inv_done [OF inv] by (intro exI [of _ w'] exI [of _ "rev ds"]) simp
qed


section \<open>The reaper\<close>

text \<open>The exit code of the command after a list of status reports.\<close>

definition report_code :: "pid \<Rightarrow> int option \<Rightarrow> wait_status \<Rightarrow> int option" where
  "report_code command_pid code st =
     (case st of
        Exited p n \<Rightarrow> if p = command_pid then Some n else code
      | Signaled p sig core \<Rightarrow> if p = command_pid then Some (128 + sig) else code
      | _ \<Rightarrow> code)"

definition code_after :: "pid \<Rightarrow> int option \<Rightarrow> wait_status list \<Rightarrow> int option" where
  "code_after command_pid code sts = foldl (report_code command_pid) code sts"

text \<open>
  What the kernel promises of \<open>waitpid\<close>: \<open>reports\<close> lists the statuses it has reported, and
  \<open>ECHILD\<close> means that no child is left; no other call reports a status.
\<close>

definition wait_spec :: "'w proc_lib \<Rightarrow> ('w \<Rightarrow> wait_status list) \<Rightarrow> ('w \<Rightarrow> bool) \<Rightarrow> bool" where
  "wait_spec L reports childless \<longleftrightarrow>
     (\<forall>w w' st. pl_waitpid L w = (w', Inr st) \<longrightarrow> reports w' = reports w @ [st]) \<and>
     (\<forall>w w' e. pl_waitpid L w = (w', Inl e) \<longrightarrow> reports w' = reports w \<and> (e = ECHILD \<longrightarrow> childless w')) \<and>
     (\<forall>w sigs t. reports (fst (pl_sigtimedwait L sigs t w)) = reports w) \<and>
     (\<forall>w. reports (fst (pl_now L w)) = reports w) \<and>
     (\<forall>w pid. reports (fst (pl_read_tasks L pid w)) = reports w) \<and>
     (\<forall>w pid t. reports (fst (pl_read_children L pid t w)) = reports w) \<and>
     (\<forall>w pid sig. reports (fst (pl_kill L pid sig w)) = reports w)"

text \<open>
  Signalling makes no call but those of the process file system and \<open>kill\<close>: what these keep, it
  keeps, for any preorder \<open>le\<close> on states.
\<close>

definition quiet_lib :: "'w proc_lib \<Rightarrow> ('w \<Rightarrow> 'w \<Rightarrow> bool) \<Rightarrow> bool" where
  "quiet_lib L le \<longleftrightarrow>
     reflp le \<and> transp le \<and>
     (\<forall>p w. le w (fst (pl_read_tasks L p w))) \<and> (\<forall>p t w. le w (fst (pl_read_children L p t w))) \<and>
     (\<forall>p sig w. le w (fst (pl_kill L p sig w))) \<and> (\<forall>w. le w (fst (pl_now L w)))"

lemma quiet_libD:
  assumes "quiet_lib L le"
  shows "le w w" "le w1 w2 \<Longrightarrow> le w2 w3 \<Longrightarrow> le w1 w3"
    "pl_read_tasks L p w = (w', r) \<Longrightarrow> le w w'" "pl_read_children L p t w = (w', r') \<Longrightarrow> le w w'"
    "pl_kill L p sig w = (w', r'') \<Longrightarrow> le w w'" "pl_now L w = (w', n) \<Longrightarrow> le w w'"
proof -
  from assms have r: "reflp le" and t: "transp le"
    and c: "\<And>p w. le w (fst (pl_read_tasks L p w))" "\<And>p t w. le w (fst (pl_read_children L p t w))"
      "\<And>p sig w. le w (fst (pl_kill L p sig w))" "\<And>w. le w (fst (pl_now L w))"
    unfolding quiet_lib_def by simp_all
  show "le w w" using r by (rule reflpD)
  show "le w1 w2 \<Longrightarrow> le w2 w3 \<Longrightarrow> le w1 w3" using t by (rule transpD)
  show "pl_read_tasks L p w = (w', r) \<Longrightarrow> le w w'" using c(1) [of w p] by simp
  show "pl_read_children L p t w = (w', r') \<Longrightarrow> le w w'" using c(2) [of w p t] by simp
  show "pl_kill L p sig w = (w', r'') \<Longrightarrow> le w w'" using c(3) [of w p sig] by simp
  show "pl_now L w = (w', n) \<Longrightarrow> le w w'" using c(4) [of w] by simp
qed

lemma visit_tasks_le:
  assumes "quiet_lib L le"
  shows "visit_tasks L p ts s w = (w', r) \<Longrightarrow> le w w'"
proof (induction ts arbitrary: s w)
  case (Cons t ts)
  note le = quiet_libD [OF assms]
  show ?case
  proof (cases t)
    case (Inr f)
    obtain w1 r1 where c: "pl_read_children L p f w = (w1, r1)" by fastforce
    have w1: "le w w1" by (rule le(4) [OF c])
    have "w' = w1 \<or> (\<exists>s1. visit_tasks L p ts s1 w1 = (w', r))"
      using Cons.prems Inr c by (cases s) (auto split: sum.splits if_splits)
    then show ?thesis using Cons.IH w1 le(2) by blast
  qed (use Cons.prems le(1) in simp)
qed (simp add: quiet_libD(1) [OF assms])

lemma search_le:
  assumes "quiet_lib L le"
  shows "search_descendants L w s = (w', r) \<Longrightarrow> le w w'"
proof (induction "search_room s" arbitrary: s w rule: less_induct)
  case less
  obtain pending ds seen where s: "s = (pending, ds, seen)" by (metis prod.exhaust)
  show ?case
  proof (cases pending)
    case (Cons p rest)
    obtain w1 r1 where t: "pl_read_tasks L p w = (w1, r1)" by fastforce
    note w1 = quiet_libD(3) [OF assms t]
    show ?thesis
    proof (cases r1)
      case (Inl e)
      with t less.prems less.hyps [of "(rest, ds, seen)" w1] s Cons w1 show ?thesis
        by (auto simp: search_room_def split: if_splits intro: quiet_libD(2) [OF assms])
    next
      case (Inr tasks)
      obtain w2 r2 where v: "visit_tasks L p tasks (rest, ds, seen) w1 = (w2, r2)" by fastforce
      note w2 = quiet_libD(2) [OF assms w1 visit_tasks_le [OF assms v]]
      show ?thesis
      proof (cases r2)
        case (Inl e)
        with t v Inr less.prems s Cons w2 show ?thesis by simp
      next
        case (Inr s2)
        with visit_tasks_room v have "search_room s2 = search_room (rest, ds, seen)" by metis
        then have "search_room s2 < search_room s" by (simp add: search_room_def s Cons)
        from less.hyps [OF this, of w2] t v Inr \<open>r1 = Inr tasks\<close> less.prems s Cons w2 show ?thesis
          by (auto intro: quiet_libD(2) [OF assms])
      qed
    qed
  qed (use less.prems s quiet_libD(1) [OF assms] in auto)
qed

lemma forward_signal_le:
  assumes "quiet_lib L le"
  shows "forward_signal L p sig w = (w', r) \<Longrightarrow> le w w'"
  by (auto simp: forward_signal_def split: prod.splits sum.splits if_splits dest: quiet_libD(5) [OF assms])

lemma signal_all_le:
  assumes "quiet_lib L le"
  shows "signal_all L sig ps w = (w', r) \<Longrightarrow> le w w'"
proof (induction ps arbitrary: w)
  case (Cons p ps)
  obtain w1 r1 where f: "forward_signal L p sig w = (w1, r1)" by fastforce
  with forward_signal_le [OF assms f] Cons show ?case
    by (cases r1) (auto intro: quiet_libD(2) [OF assms])
qed (auto intro: quiet_libD(1) [OF assms])

lemma escalate_le:
  assumes "quiet_lib L le"
  shows "escalate L T w = (w', r) \<Longrightarrow> le w w'"
proof (cases T)
  case (Some sd)
  assume e: "escalate L T w = (w', r)"
  obtain sig deadline where sd: "sd = (sig, deadline)" by fastforce
  obtain w1 n where n: "pl_now L w = (w1, n)" by fastforce
  let ?sig = "if deadline - n = 0 then SIGKILL else sig"
  obtain w2 r2 where d: "search_descendants L w1 ([pl_getpid L w1], [], {pl_getpid L w1}) = (w2, r2)" by fastforce
  note w2 = quiet_libD(2) [OF assms quiet_libD(6) [OF assms n] search_le [OF assms d]]
  show ?thesis
  proof (cases r2)
    case (Inl x)
    with e Some sd n d w2 show ?thesis
      by (auto simp: escalate_def saturating_since_def signal_descendants_def Let_def)
  next
    case (Inr ds)
    obtain w3 r3 where a: "signal_all L ?sig (rev ds) w2 = (w3, r3)" by fastforce
    note w3 = quiet_libD(2) [OF assms w2 signal_all_le [OF assms a]]
    have "signal_descendants L (pl_getpid L w1) ?sig w1 = (w3, r3)"
      using d Inr a by (simp add: signal_descendants_def)
    with e Some sd n w3 show ?thesis
      by (cases r3) (auto simp: escalate_def saturating_since_def Let_def)
  qed
qed (auto simp: escalate_def intro: quiet_libD(1) [OF assms])

lemma await_le:
  assumes "quiet_lib L le" and "await_signal L sigs T t w = (w', r)"
  shows "\<exists>w1 x. pl_sigtimedwait L sigs (map_option timespec t) w = (w1, x) \<and> le w1 w'"
proof -
  obtain w1 x where x: "pl_sigtimedwait L sigs (map_option timespec t) w = (w1, x)" by fastforce
  have "w' = w1 \<or> w' = fst (pl_now L w1)"
    using assms(2) x
    by (auto simp: await_signal_def split: sum.splits if_splits option.splits prod.splits)
  with x quiet_libD(1,6) [OF assms(1)] show ?thesis by (metis prod.collapse)
qed

lemma wait_spec_quiet: "wait_spec L reports childless \<Longrightarrow> quiet_lib L (\<lambda>w w'. reports w' = reports w)"
  by (auto simp: wait_spec_def quiet_lib_def intro!: reflpI transpI)

lemma code_after_simps [simp]:
  "code_after c code [] = code"
  "code_after c code (st # sts) = code_after c (report_code c code st) sts"
  by (simp_all add: code_after_def)

lemma code_after_append [simp]: "code_after c code (xs @ ys) = code_after c (code_after c code xs) ys"
  by (simp add: code_after_def)

text \<open>What a run of the inner loop has seen.\<close>

definition reaped ::
  "('w \<Rightarrow> wait_status list) \<Rightarrow> ('w \<Rightarrow> bool) \<Rightarrow> pid \<Rightarrow> int option \<Rightarrow> 'w \<Rightarrow> 'w \<times> ((proc_error + int) + int option) \<Rightarrow> bool" where
  "reaped reports childless c code w y \<longleftrightarrow>
     (\<exists>sts. reports (fst y) = reports w @ sts \<and>
        (\<forall>code'. snd y = Inr code' \<longrightarrow> code' = code_after c code sts) \<and>
        (\<forall>n. snd y = Inl (Inr n) \<longrightarrow> childless (fst y) \<and> code_after c code sts = Some n))"

lemma reaped_step:
  assumes "reports w1 = reports w @ [st]" and "reaped reports childless c (report_code c code st) w1 y"
  shows "reaped reports childless c code w y"
proof -
  from assms(2) obtain sts where sts: "reports (fst y) = reports w1 @ sts"
    "\<forall>code'. snd y = Inr code' \<longrightarrow> code' = code_after c code (st # sts)"
    "\<forall>n. snd y = Inl (Inr n) \<longrightarrow> childless (fst y) \<and> code_after c code (st # sts) = Some n"
    by (auto simp: reaped_def)
  with assms(1) show ?thesis
    unfolding reaped_def by (intro exI [of _ "st # sts"]) simp
qed

text \<open>One call of \<open>waitpid\<close>: either the reaper goes on, with the status recorded, or it is done.\<close>

lemma reaped_once:
  assumes spec: "wait_spec L reports childless"
    and IH: "\<And>code w y. rec code w = Some y \<Longrightarrow> reaped reports childless c code w y"
    and eq: "(case pl_waitpid L w of
        (w, Inr (Exited pid n)) \<Rightarrow> rec (if pid = c then Some n else code) w
      | (w, Inr (Signaled pid sig core)) \<Rightarrow> rec (if pid = c then Some (128 + sig) else code) w
      | (w, Inr StillAlive) \<Rightarrow> Some (w, Inr code)
      | (w, Inr (OtherStatus pid)) \<Rightarrow> rec code w
      | (w, Inl e) \<Rightarrow>
          if e = EINTR then rec code w
          else if e = ECHILD then Some (w, Inl (or_err NoExitStatus code))
          else Some (w, Inl (Inl (ProcError ''waitpid command tree'' e)))) = Some y"
  shows "reaped reports childless c code w y"
proof -
  obtain w1 r where wp: "pl_waitpid L w = (w1, r)" by fastforce
  show ?thesis
  proof (cases r)
    case (Inl e)
    with spec wp have w1: "reports w1 = reports w" "e = ECHILD \<Longrightarrow> childless w1"
      unfolding wait_spec_def by blast+
    show ?thesis
    proof (cases "e = EINTR")
      case True
      with eq wp Inl IH have "reaped reports childless c code w1 y" by auto
      with w1(1) show ?thesis by (simp add: reaped_def)
    next
      case False
      with eq wp Inl w1 show ?thesis
        by (auto simp: reaped_def split: if_splits intro!: exI [of _ "[]"])
    qed
  next
    case (Inr st)
    with spec wp have w1: "reports w1 = reports w @ [st]" unfolding wait_spec_def by blast
    show ?thesis
    proof (cases "st = StillAlive")
      case True
      with eq wp Inr w1 show ?thesis
        by (auto simp: reaped_def report_code_def intro!: exI [of _ "[StillAlive]"])
    next
      case False
      with eq wp Inr have "rec (report_code c code st) w1 = Some y"
        by (cases st) (auto simp: report_code_def)
      from w1 IH [OF this] show ?thesis by (rule reaped_step [where reports = reports])
    qed
  qed
qed

lemma reap_reports:
  assumes "wait_spec L reports childless" and "reap L c code w = Some y"
  shows "reaped reports childless c code w y"
proof -
  have "wait_spec L reports childless \<longrightarrow> reaped reports childless c code w y"
  proof (rule reap.raw_induct [where P = "\<lambda>L c code w y. wait_spec L reports childless \<longrightarrow> reaped reports childless c code w y",
        OF _ assms(2)], rule impI, goal_cases)
    case (1 rec L c code w y)
    show ?case by (rule reaped_once [where rec = "rec L c", OF 1(3) _ 1(2)]) (use 1(1,3) in blast)
  qed
  with assms(1) show ?thesis by blast
qed

lemma wait_loop_reports:
  assumes "wait_spec L reports childless" and "wait_loop L c sigs code T w = Some (w', Inr n)"
  shows "\<exists>sts. reports w' = reports w @ sts \<and> childless w' \<and> code_after c code sts = Some n"
proof -
  let ?P = "\<lambda>L c (sigs :: signal list) code (T :: (signal \<times> nat) option) w
      (y :: _ \<times> (proc_error + int)). wait_spec L reports childless \<longrightarrow> snd y = Inr n \<longrightarrow>
    (\<exists>sts. reports (fst y) = reports w @ sts \<and> childless (fst y) \<and> code_after c code sts = Some n)"
  have "?P L c sigs code T w (w', Inr n)"
  proof (rule wait_loop.raw_induct [where P = ?P, OF _ assms(2)], intro impI)
    fix rec L c sigs code T w y
    assume IH: "\<And>L c sigs code T w y. rec L c sigs code T w = Some y \<Longrightarrow> ?P L c sigs code T w y"
      and spec: "wait_spec L reports childless" and y: "snd y = Inr n"
      and eq: "(case reap L c code w of None \<Rightarrow> None | Some (w, Inl r) \<Rightarrow> Some (w, r)
        | Some (w, Inr code) \<Rightarrow>
            (case io_bind (escalate L T) (await_signal L sigs T) w of
               (w, Inl e) \<Rightarrow> Some (w, Inl e)
             | (w, Inr T) \<Rightarrow> rec L c sigs code T w)) = Some y"
    note quiet = wait_spec_quiet [OF spec]
    from eq obtain w1 r1 where r: "reap L c code w = Some (w1, r1)"
      by (auto split: option.splits)
    from reap_reports [OF spec r] obtain sts where sts: "reports w1 = reports w @ sts"
      "\<And>code'. r1 = Inr code' \<Longrightarrow> code' = code_after c code sts"
      "\<And>n. r1 = Inl (Inr n) \<Longrightarrow> childless w1 \<and> code_after c code sts = Some n"
      by (auto simp: reaped_def)
    show "\<exists>sts. reports (fst y) = reports w @ sts \<and> childless (fst y) \<and> code_after c code sts = Some n"
    proof (cases r1)
      case (Inl x)
      with eq r y sts show ?thesis by auto
    next
      case (Inr code1)
      obtain w2 r2 where e: "escalate L T w1 = (w2, r2)" by fastforce
      note w2 = escalate_le [OF quiet e]
      from eq r Inr e y obtain t where t: "r2 = Inr t" by (cases r2) auto
      obtain w3 r3 where a: "await_signal L sigs T t w2 = (w3, r3)" by fastforce
      with await_le [OF quiet a] spec have w3: "reports w3 = reports w2"
        unfolding wait_spec_def by (metis fst_conv)
      from eq r Inr e t a y obtain T' where "r3 = Inr T'" by (cases r3) auto
      with eq r Inr e t a have "rec L c sigs code1 T' w3 = Some y" by simp
      with IH spec y obtain sts' where "reports (fst y) = reports w3 @ sts'" "childless (fst y)"
        "code_after c code1 sts' = Some n" by blast
      with w2 w3 sts Inr show ?thesis by (intro exI [of _ "sts @ sts'"]) simp
    qed
  qed
  with assms(1) show ?thesis by simp
qed

text \<open>
  The kernel has finitely many events left: every status change that \<open>waitpid\<close> reports, every
  interruption and every wake-up uses one up; \<open>active\<close> are the states in which a wake-up is to
  come, because a child is still alive or has ended since.
\<close>

definition finite_activity :: "'w proc_lib \<Rightarrow> ('w \<Rightarrow> nat) \<Rightarrow> ('w \<Rightarrow> bool) \<Rightarrow> bool" where
  "finite_activity L events active \<longleftrightarrow>
     quiet_lib L (\<lambda>w w'. events w' \<le> events w \<and> (active w \<longrightarrow> active w')) \<and>
     (\<forall>w w' r. pl_waitpid L w = (w', r) \<longrightarrow>
        (if r = Inl EINTR \<or> (\<exists>st. r = Inr st \<and> st \<noteq> StillAlive) then events w' < events w
         else events w' \<le> events w \<and> (r = Inr StillAlive \<longrightarrow> active w'))) \<and>
     (\<forall>sigs t w w' r. active w \<and> pl_sigtimedwait L sigs t w = (w', r) \<longrightarrow> events w' < events w)"

lemma finite_activityD:
  assumes "finite_activity L events active"
  shows "pl_waitpid L w = (w', r) \<Longrightarrow> events w' \<le> events w"
    and "pl_waitpid L w = (w', r) \<Longrightarrow> r = Inl EINTR \<or> (\<exists>st. r = Inr st \<and> st \<noteq> StillAlive) \<Longrightarrow> events w' < events w"
    and "pl_sigtimedwait L sigs t w = (w', r') \<Longrightarrow> active w \<Longrightarrow> events w' < events w"
    and "quiet_lib L (\<lambda>w w'. events w' \<le> events w \<and> (active w \<longrightarrow> active w'))"
    and "pl_waitpid L w = (w', Inr StillAlive) \<Longrightarrow> active w'"
proof -
  note d = assms [unfolded finite_activity_def]
  note wp = d [THEN conjunct2, THEN conjunct1, rule_format]
  show "pl_waitpid L w = (w', r) \<Longrightarrow> events w' \<le> events w" using wp [of w w' r] by (simp split: if_splits)
  show "pl_waitpid L w = (w', r) \<Longrightarrow> r = Inl EINTR \<or> (\<exists>st. r = Inr st \<and> st \<noteq> StillAlive) \<Longrightarrow> events w' < events w"
    using wp [of w w' r] by simp
  show "pl_sigtimedwait L sigs t w = (w', r') \<Longrightarrow> active w \<Longrightarrow> events w' < events w" using d by blast
  show "quiet_lib L (\<lambda>w w'. events w' \<le> events w \<and> (active w \<longrightarrow> active w'))" using d by blast
  show "pl_waitpid L w = (w', Inr StillAlive) \<Longrightarrow> active w'" using wp [of w w' "Inr StillAlive"] by simp
qed

lemma reap_next:
  "pl_waitpid L w = (w1, Inl EINTR) \<Longrightarrow> reap L c code w = reap L c code w1"
  "pl_waitpid L w = (w1, Inr st) \<Longrightarrow> st \<noteq> StillAlive \<Longrightarrow> reap L c code w = reap L c (report_code c code st) w1"
  by (subst reap.simps, simp) (subst reap.simps, cases st, auto simp: report_code_def)

lemma reap_returns:
  assumes "finite_activity L events active"
  shows "\<exists>w' r. reap L c code w = Some (w', r) \<and> events w' \<le> events w \<and> (\<forall>code'. r = Inr code' \<longrightarrow> active w')"
proof (induction "events w" arbitrary: w code rule: less_induct)
  case less
  obtain w1 r where wp: "pl_waitpid L w = (w1, r)" by fastforce
  note le = finite_activityD(1) [OF assms wp] and lt = finite_activityD(2) [OF assms wp]
  show ?case
  proof (cases "r = Inl EINTR \<or> (\<exists>st. r = Inr st \<and> st \<noteq> StillAlive)")
    case True
    then obtain code' where "reap L c code w = reap L c code' w1"
      using wp reap_next(1) [of L w w1 c code] reap_next(2) [of L w w1 _ c code] by blast
    with less [OF lt [OF True], of code'] le show ?thesis by (metis le_trans)
  next
    case False
    with wp le finite_activityD(5) [OF assms] show ?thesis
      by (subst reap.simps) (auto split: sum.splits wait_status.splits)
  qed
qed

lemma wait_loop_returns:
  assumes "finite_activity L events active"
  shows "\<exists>y. wait_loop L c sigs code T w = Some y"
proof (induction "events w" arbitrary: w code T rule: less_induct)
  case less
  note quiet = finite_activityD(4) [OF assms]
  from reap_returns [OF assms, of c code w] obtain w1 r1 where
    r: "reap L c code w = Some (w1, r1)" "events w1 \<le> events w" "\<And>code'. r1 = Inr code' \<Longrightarrow> active w1" by blast
  show ?case
  proof (cases r1)
    case (Inr code1)
    obtain w2 r2 where e: "escalate L T w1 = (w2, r2)" by fastforce
    note w2 = escalate_le [OF quiet e]
    show ?thesis
    proof (cases r2)
      case (Inl x)
      with r Inr e show ?thesis by (subst wait_loop.simps) simp
    next
      case t: (Inr t)
      obtain w3 r3 where a: "await_signal L sigs T t w2 = (w3, r3)" by fastforce
      have "active w2" using w2 r(3) [OF Inr] by blast
      with await_le [OF quiet a] finite_activityD(3) [OF assms] have "events w3 < events w2"
        by (meson le_less_trans)
      with w2 r(2) have lt: "events w3 < events w" by simp
      show ?thesis
      proof (cases r3)
        case (Inl x)
        with r Inr e t a show ?thesis by (subst wait_loop.simps) simp
      next
        case T: (Inr T')
        with r Inr e t a less [OF lt] show ?thesis by (subst wait_loop.simps) simp
      qed
    qed
  qed (use r in \<open>subst wait_loop.simps, simp\<close>)
qed

text \<open>
  C25. The reaper reports the right status, and only when the whole tree is gone: it returns as soon as
  the kernel has finitely many events left, and when it returns an exit code, no child is left
  and the code is that of the last status reported for the command, 128 plus the signal number
  if a signal ended it.
\<close>

theorem reaper_waits_for_tree:
  assumes "wait_spec L reports childless" and "finite_activity L events active"
  shows "\<exists>w' r. wait_for_command_tree L command_pid signals w = Some (w', r) \<and>
    (\<forall>n. r = Inr n \<longrightarrow> childless w' \<and>
      (\<exists>sts. reports w' = reports w @ sts \<and> code_after command_pid None sts = Some n))"
proof -
  from wait_loop_returns [OF assms(2)] obtain w' r where
    "wait_loop L command_pid signals None None w = Some (w', r)" by (metis prod.exhaust)
  with wait_loop_reports [OF assms(1)] show ?thesis
    unfolding wait_for_command_tree_def by fastforce
qed

section \<open>Witnesses\<close>

text \<open>
  A kernel with a fixed tree below process 1: its children 2 and 3, and 4 below 2. Waiting lets the
  first process that is still alive end, with the code that is written beside it.
\<close>

record tree_world =
  tw_alive :: "(pid \<times> int) list"
  tw_zombies :: "(pid \<times> int) list"
  tw_reports :: "wait_status list"
  tw_killed :: "(pid \<times> signal) list"

definition tree_text :: "pid \<Rightarrow> string \<Rightarrow> string" where
  "tree_text p t = (if p = 1 then ''2 3 '' else if p = 2 then ''4 '' else [])"

definition tree_lib :: "tree_world proc_lib" where
  "tree_lib = \<lparr>
     pl_set_subreaper = (\<lambda>w. (w, Inr ())), pl_block_signals = (\<lambda>sigs w. (w, Inr [])),
     pl_set_mask = (\<lambda>sigs w. (w, Inr ())), pl_fork = (\<lambda>w. (w, Inr (Parent 2))),
     pl_execvp = (\<lambda>p args w. (w, None)),
     pl_waitpid = (\<lambda>w. case tw_zombies w of
         (p, n) # zs \<Rightarrow> (w\<lparr>tw_zombies := zs, tw_reports := tw_reports w @ [Exited p n]\<rparr>, Inr (Exited p n))
       | [] \<Rightarrow> if tw_alive w = [] then (w, Inl ECHILD)
           else (w\<lparr>tw_reports := tw_reports w @ [StillAlive]\<rparr>, Inr StillAlive)),
     pl_sigtimedwait = (\<lambda>sigs t w. case tw_alive w of
         z # zs \<Rightarrow> (w\<lparr>tw_alive := zs, tw_zombies := tw_zombies w @ [z]\<rparr>, Inr SIGCHLD)
       | [] \<Rightarrow> (w, Inl EAGAIN)),
     pl_now = (\<lambda>w. (w, 5)), pl_getpid = (\<lambda>w. 1),
     pl_read_tasks = (\<lambda>p w. (w, Inr [Inr ''7''])),
     pl_read_children = (\<lambda>p t w. (w, Inr (tree_text p t))),
     pl_kill = (\<lambda>p sig w. (w\<lparr>tw_killed := tw_killed w @ [(p, sig)]\<rparr>, Inr ()))\<rparr>"

definition tree_start :: tree_world where
  "tree_start = \<lparr>tw_alive = [(2, 3), (4, 0), (3, 0)], tw_zombies = [], tw_reports = [], tw_killed = []\<rparr>"

lemma tree_lib_tree: "tree_spec tree_lib (\<lambda>p. [''7'']) tree_text tw_killed"
proof -
  have "child_pids ''2 3 '' \<noteq> None" "child_pids ''4 '' \<noteq> None" "child_pids [] \<noteq> None"
    by (simp_all add: child_pids_def split_whitespace_def str_chars_ascii is_ascii_def is_whitespace_def
        parse_i32_def parse_uint_def digit_val_def char_of_def bit_0)
  then show ?thesis by (simp add: tree_spec_def tree_lib_def tree_text_def)
qed

lemma tree_lib_calls:
  "pl_read_tasks tree_lib p w = (w, Inr [Inr ''7''])" "pl_read_children tree_lib p t w = (w, Inr (tree_text p t))"
  "pl_kill tree_lib p sig w = (w\<lparr>tw_killed := tw_killed w @ [(p, sig)]\<rparr>, Inr ())" "pl_now tree_lib w = (w, 5)"
  by (simp_all add: tree_lib_def)

lemma tree_lib_waitpid:
  "pl_waitpid tree_lib w = (case tw_zombies w of
       (p, n) # zs \<Rightarrow> (w\<lparr>tw_zombies := zs, tw_reports := tw_reports w @ [Exited p n]\<rparr>, Inr (Exited p n))
     | [] \<Rightarrow> if tw_alive w = [] then (w, Inl ECHILD)
         else (w\<lparr>tw_reports := tw_reports w @ [StillAlive]\<rparr>, Inr StillAlive))"
  by (simp add: tree_lib_def)

lemma tree_lib_sigtimedwait:
  "pl_sigtimedwait tree_lib sigs t w = (case tw_alive w of
       z # zs \<Rightarrow> (w\<lparr>tw_alive := zs, tw_zombies := tw_zombies w @ [z]\<rparr>, Inr SIGCHLD)
     | [] \<Rightarrow> (w, Inl EAGAIN))"
  by (simp add: tree_lib_def)

lemma tree_lib_wait: "wait_spec tree_lib tw_reports (\<lambda>w. tw_alive w = [] \<and> tw_zombies w = [])"
  unfolding wait_spec_def tree_lib_calls tree_lib_waitpid tree_lib_sigtimedwait
  by (auto split: list.splits if_splits)

lemma tree_lib_finite:
  "finite_activity tree_lib (\<lambda>w. 2 * length (tw_alive w) + length (tw_zombies w)) (\<lambda>w. tw_alive w \<noteq> [])"
  unfolding finite_activity_def
proof (intro conjI allI impI)
  show "quiet_lib tree_lib (\<lambda>w w'. 2 * length (tw_alive w') + length (tw_zombies w') \<le>
      2 * length (tw_alive w) + length (tw_zombies w) \<and> (tw_alive w \<noteq> [] \<longrightarrow> tw_alive w' \<noteq> []))"
    unfolding quiet_lib_def tree_lib_calls by (auto intro!: reflpI transpI)
qed (auto simp: tree_lib_waitpid tree_lib_sigtimedwait ECHILD_def EINTR_def split: list.splits if_splits)

theorem signal_descendants_exact_witness:
  "\<exists>w' ks. signal_descendants tree_lib 1 SIGTERM tree_start = (w', Inr ()) \<and>
     tw_killed w' = map (\<lambda>p. (p, SIGTERM)) ks \<and> distinct ks"
  using signal_descendants_exact [OF tree_lib_tree, of 1 SIGTERM tree_start]
  by (auto simp: tree_start_def)


definition tree_end :: tree_world where
  "tree_end = \<lparr>tw_alive = [], tw_zombies = [(2, 3), (4, 0)], tw_reports = [], tw_killed = []\<rparr>"

lemma tree_waitpid:
  "tw_zombies w = (p, n) # zs \<Longrightarrow> pl_waitpid tree_lib w =
     (w\<lparr>tw_zombies := zs, tw_reports := tw_reports w @ [Exited p n]\<rparr>, Inr (Exited p n))"
  "tw_zombies w = [] \<Longrightarrow> tw_alive w = [] \<Longrightarrow> pl_waitpid tree_lib w = (w, Inl ECHILD)"
  by (simp_all add: tree_lib_waitpid)

lemma tree_end_reap:
  "reap tree_lib 2 None tree_end =
     Some (tree_end\<lparr>tw_zombies := [], tw_reports := [Exited 2 3, Exited 4 0]\<rparr>, Inl (Inr 3))"
proof -
  let ?w1 = "tree_end\<lparr>tw_zombies := [(4, 0)], tw_reports := [Exited 2 3]\<rparr>"
  let ?w2 = "tree_end\<lparr>tw_zombies := [], tw_reports := [Exited 2 3, Exited 4 0]\<rparr>"
  have "reap tree_lib 2 None tree_end = reap tree_lib 2 (Some 3) ?w1"
    using reap_next(2) [OF tree_waitpid(1), of tree_end 2 3 "[(4, 0)]" 2 None]
    by (simp add: tree_end_def report_code_def)
  also have "\<dots> = reap tree_lib 2 (Some 3) ?w2"
    using reap_next(2) [OF tree_waitpid(1), of ?w1 4 0 "[]" 2 "Some 3"]
    by (simp add: tree_end_def report_code_def)
  also have "\<dots> = Some (?w2, Inl (Inr 3))"
    using tree_waitpid(2) [of ?w2]
    by (subst reap.simps) (simp add: tree_end_def ECHILD_def EINTR_def)
  finally show ?thesis .
qed

theorem reaper_waits_for_tree_witness:
  "\<exists>w'. wait_for_command_tree tree_lib 2 SIGNALS tree_end = Some (w', Inr 3) \<and>
     tw_alive w' = [] \<and> tw_zombies w' = []"
proof -
  from reaper_waits_for_tree [OF tree_lib_wait tree_lib_finite, of 2 SIGNALS tree_end] obtain w' r where
    r: "wait_for_command_tree tree_lib 2 SIGNALS tree_end = Some (w', r)"
    "\<forall>n. r = Inr n \<longrightarrow> tw_alive w' = [] \<and> tw_zombies w' = []" by blast
  have "\<exists>w'. wait_for_command_tree tree_lib 2 SIGNALS tree_end = Some (w', Inr 3)"
    using tree_end_reap by (auto simp: wait_for_command_tree_def wait_loop.simps [of _ _ _ None None])
  with r show ?thesis by auto
qed

end
