(* ===== verification/Startup.thy ===== *)
theory Startup
  imports Namespace Process_Tree
begin

text \<open>
  The entry point, \<open>src/src/main.rs\<close>, with the descriptor passing of \<open>src/src/fd_passing.rs\<close>: the
  configuration that is built from the command line, the two programs that run after the fork
  (\<open>child_main\<close> in the namespace, \<open>parent_main\<close> outside) up to the point where the command is
  started and the event loop serves it, and the supervision of the child until the exit code is
  known. A program is a tree of the actions the process takes on the setup socket and of its
  other work, so that the two programs can be interleaved in every order; the socket pair is the
  two lists of messages sent, each with a read position.
\<close>

section \<open>Configuration\<close>

record cli =
  cli_proxy :: string
  cli_rules :: "string list"
  cli_binds :: "string list"
  cli_publishes :: "string list"
  cli_verbose :: u8
  cli_command :: "string list"

datatype config_error =
    ParseProxy proxy_error
  | ParseRule rule_error
  | NoCurrentDir errno
  | ParseBind bind_error
  | ParsePublish publish_error

datatype level = DEBUG | TRACE

definition log_level :: "cli \<Rightarrow> level option" where
  "log_level c = (if cli_verbose c = 0 then None else Some (if cli_verbose c = 1 then DEBUG else TRACE))"

definition build_config :: "'rs regex_lib \<Rightarrow> file_system \<Rightarrow> cli \<Rightarrow> config_error + 'rs app_config" where
  "build_config R F c =
     result_bind (map_error ParseProxy (proxy_parse (cli_proxy c))) (\<lambda>dp.
     result_bind (map_error ParseRule (from_specs R (cli_rules c))) (\<lambda>rs.
     result_bind (map_error NoCurrentDir (current_dir F)) (\<lambda>cwd.
     result_bind (map_error ParseBind (parse_bind_mounts F (cli_binds c) cwd)) (\<lambda>bms.
     result_bind (map_error ParsePublish (parse_publish_specs (cli_publishes c))) (\<lambda>ps.
       Inr \<lparr>default_proxy = dp, bind_mounts = bms, publishes = ps, command = cli_command c, rules = rs\<rparr>)))))"

section \<open>Programs on the setup socket\<close>

text \<open>A message is its byte and the descriptors that travel with it.\<close>

type_synonym message = "u8 \<times> int list"

datatype startup_error =
    Namespace string ns_error
  | ChannelClosed string
  | ReadFailed string errno
  | WriteFailed string errno
  | SendFdFailed errno
  | RecvFdFailed errno
  | NoDescriptor
  | InvalidByte string u8
  | Listen string listen_error
  | RuntimeFailed
  | SignalFailed signal
  | Unreachable

datatype ('w, 't) prog =
    Fail startup_error
  | Go 't
  | Local "'w \<Rightarrow> 'w \<times> ('w, 't) prog"
  | ReadByte string "startup_error + u8 \<Rightarrow> ('w, 't) prog"
  | WriteByte string u8 "startup_error + unit \<Rightarrow> ('w, 't) prog"
  | SendFd int "startup_error + unit \<Rightarrow> ('w, 't) prog"
  | RecvFd "startup_error + int \<Rightarrow> ('w, 't) prog"

text \<open>\<open>?\<close> in a program: leave with the error.\<close>

definition or_fail :: "(('a \<Rightarrow> ('w, 't) prog)) \<Rightarrow> startup_error + 'a \<Rightarrow> ('w, 't) prog" where
  "or_fail k r = (case r of Inl e \<Rightarrow> Fail e | Inr x \<Rightarrow> k x)"

definition local_call :: "('e \<Rightarrow> startup_error) \<Rightarrow> ('w, 'e, 'a) io \<Rightarrow> ('a \<Rightarrow> ('w, 't) prog) \<Rightarrow> ('w, 't) prog" where
  "local_call ctx m k = Local (\<lambda>w. case m w of (w, Inl e) \<Rightarrow> (w, Fail (ctx e)) | (w, Inr x) \<Rightarrow> (w, k x))"

text \<open>
  The arms of the loop of \<open>read_control_byte\<close> for what \<open>read\<close> of one byte returned: \<open>None\<close> tries
  again, \<open>Unreachable\<close> is the panic of an impossible length.
\<close>

definition read_control_byte :: "string \<Rightarrow> errno + bytes \<Rightarrow> (startup_error + u8) option" where
  "read_control_byte label r =
     (case r of
        Inr [b] \<Rightarrow> Some (Inr b)
      | Inr [] \<Rightarrow> Some (Inl (ChannelClosed label))
      | Inr _ \<Rightarrow> Some (Inl Unreachable)
      | Inl e \<Rightarrow> if e = EINTR then None else Some (Inl (ReadFailed label e)))"

text \<open>\<open>send_fd\<close>: one zero byte carries the descriptor. \<open>recv_fd\<close>: the first descriptor that came.\<close>

definition send_fd :: "int \<Rightarrow> message" where
  "send_fd n = (0, [n])"

definition recv_fd :: "errno + int list list \<Rightarrow> startup_error + int" where
  "recv_fd r =
     (case r of
        Inl e \<Rightarrow> Inl (RecvFdFailed e)
      | Inr cmsgs \<Rightarrow>
          (case find (\<lambda>rights. rights \<noteq> []) cmsgs of
             Some rights \<Rightarrow> Inr (hd rights)
           | None \<Rightarrow> Inl NoDescriptor))"

section \<open>The child\<close>

text \<open>Steps 9 and 10: close what only the setup needs and run the command.\<close>

definition child_launch :: "'c os_lib \<Rightarrow> int \<Rightarrow> int \<Rightarrow> 'rs app_config \<Rightarrow> ('c, string list) prog" where
  "child_launch L sock tun_fd cfg =
     Local (\<lambda>w. (sys_ignore L (Close tun_fd) (sys_ignore L (Close sock) w), Go (command cfg)))"

text \<open>Step 8.\<close>

definition child_ready :: "'c os_lib \<Rightarrow> int \<Rightarrow> int \<Rightarrow> 'rs app_config \<Rightarrow> ('c, string list) prog" where
  "child_ready L sock tun_fd cfg =
     ReadByte ''ready signal'' (or_fail (\<lambda>ready.
       if ready \<noteq> 1 then Fail (InvalidByte ''ready signal'' ready) else child_launch L sock tun_fd cfg))"

text \<open>Step 7.\<close>

definition child_send :: "'c os_lib \<Rightarrow> int \<Rightarrow> int \<Rightarrow> 'rs app_config \<Rightarrow> ('c, string list) prog" where
  "child_send L sock tun_fd cfg = SendFd tun_fd (or_fail (\<lambda>_. child_ready L sock tun_fd cfg))"

text \<open>Steps 4, 5 and 6: loopback, TUN device, mount namespace.\<close>

definition child_mounts :: "'c os_lib \<Rightarrow> int \<Rightarrow> int \<Rightarrow> 'rs app_config \<Rightarrow> ('c, string list) prog" where
  "child_mounts L sock tun_fd cfg =
     local_call (Namespace ''setup_mount_namespace'') (setup_mount_namespace L (bind_mounts cfg))
       (\<lambda>_. child_send L sock tun_fd cfg)"

definition child_tun :: "'c os_lib \<Rightarrow> target_arch \<Rightarrow> int \<Rightarrow> 'rs app_config \<Rightarrow> ('c, string list) prog" where
  "child_tun L arch sock cfg =
     local_call (Namespace ''create_tun'') (create_tun L arch) (\<lambda>tun_fd. child_mounts L sock tun_fd cfg)"

definition child_setup :: "'c os_lib \<Rightarrow> target_arch \<Rightarrow> int \<Rightarrow> 'rs app_config \<Rightarrow> ('c, string list) prog" where
  "child_setup L arch sock cfg =
     local_call (Namespace ''bringup_loopback'') (bringup_loopback L) (\<lambda>_. child_tun L arch sock cfg)"

text \<open>Step 3.\<close>

definition child_maps :: "'c os_lib \<Rightarrow> target_arch \<Rightarrow> int \<Rightarrow> 'rs app_config \<Rightarrow> ('c, string list) prog" where
  "child_maps L arch sock cfg =
     ReadByte ''maps-done acknowledgement'' (or_fail (\<lambda>ack.
       if ack \<noteq> 1 then Fail (InvalidByte ''maps-done acknowledgement'' ack) else child_setup L arch sock cfg))"

text \<open>Steps 1 and 2.\<close>

definition child_signal :: "'c os_lib \<Rightarrow> target_arch \<Rightarrow> int \<Rightarrow> 'rs app_config \<Rightarrow> bool \<Rightarrow> ('c, string list) prog" where
  "child_signal L arch sock cfg needs_maps =
     WriteByte ''signal parent after unshare'' (if needs_maps then 1 else 0) (or_fail (\<lambda>_.
       if needs_maps then child_maps L arch sock cfg else child_setup L arch sock cfg))"

definition child_main :: "'c os_lib \<Rightarrow> target_arch \<Rightarrow> int \<Rightarrow> 'rs app_config \<Rightarrow> ('c, string list) prog" where
  "child_main L arch sock cfg =
     local_call (Namespace ''create_namespace'') (create_namespace L) (child_signal L arch sock cfg)"

section \<open>The parent\<close>

record ('p, 'l) parent_lib =
  pm_os :: "'p os_lib"
  pm_listen :: "('p, 'l) listen_lib"
  pm_ids :: "'p \<Rightarrow> u32 \<times> u32"
  pm_runtime :: "'p \<Rightarrow> 'p \<times> bool"
  pm_signal :: "signal \<Rightarrow> 'p \<Rightarrow> 'p \<times> bool"

text \<open>Step 6: release the child; the event loop then serves the descriptor and the listeners.\<close>

definition parent_ready :: "int \<Rightarrow> 'l bound_publish list \<Rightarrow> ('p, int \<times> 'l bound_publish list) prog" where
  "parent_ready tun_fd registered =
     WriteByte ''write ready signal'' 1 (or_fail (\<lambda>_. Go (tun_fd, registered)))"

text \<open>Step 5: the runtime, the registration of the listeners and the signal streams; an error drops the listeners.\<close>

primrec listen_signals ::
  "('p, 'l) parent_lib \<Rightarrow> 'l bound_publish list \<Rightarrow> signal list \<Rightarrow> ('p, startup_error, 'l bound_publish list) io" where
  "listen_signals P registered [] w = (w, Inr registered)"
| "listen_signals P registered (sig # sigs) w =
     (case pm_signal P sig w of
        (w, True) \<Rightarrow> listen_signals P registered sigs w
      | (w, False) \<Rightarrow> (drop_all (pm_listen P) w registered, Inl (SignalFailed sig)))"

definition build_runtime ::
  "('p, 'l) parent_lib \<Rightarrow> 'l bound_publish list \<Rightarrow> ('p, startup_error, 'l bound_publish list) io" where
  "build_runtime P bound w =
     (case pm_runtime P w of
        (w, False) \<Rightarrow> (drop_all (pm_listen P) w bound, Inl RuntimeFailed)
      | (w, True) \<Rightarrow>
          (case register_publish_specs (pm_listen P) w bound of
             (w, Inl e) \<Rightarrow> (w, Inl (Listen ''register --publish'' e))
           | (w, Inr registered) \<Rightarrow> listen_signals P registered [SIGTERM, SIGINT, SIGHUP] w))"

definition parent_runtime ::
  "('p, 'l) parent_lib \<Rightarrow> int \<Rightarrow> 'l bound_publish list \<Rightarrow> ('p, int \<times> 'l bound_publish list) prog" where
  "parent_runtime P tun_fd bound = local_call (\<lambda>e. e) (build_runtime P bound) (parent_ready tun_fd)"

text \<open>Step 4.\<close>

definition parent_bind ::
  "('p, 'l) parent_lib \<Rightarrow> publish_spec list \<Rightarrow> int \<Rightarrow> ('p, int \<times> 'l bound_publish list) prog" where
  "parent_bind P specs tun_fd =
     local_call (Listen ''bind --publish'') (\<lambda>w. bind_publish_specs (pm_listen P) w specs)
       (parent_runtime P tun_fd)"

text \<open>Step 3.\<close>

definition parent_recv :: "('p, 'l) parent_lib \<Rightarrow> publish_spec list \<Rightarrow> ('p, int \<times> 'l bound_publish list) prog" where
  "parent_recv P specs = RecvFd (or_fail (parent_bind P specs))"

text \<open>Step 2.\<close>

definition parent_ack :: "('p, 'l) parent_lib \<Rightarrow> publish_spec list \<Rightarrow> ('p, int \<times> 'l bound_publish list) prog" where
  "parent_ack P specs = WriteByte ''signal child maps done'' 1 (or_fail (\<lambda>_. parent_recv P specs))"

definition parent_maps ::
  "('p, 'l) parent_lib \<Rightarrow> publish_spec list \<Rightarrow> u32 \<Rightarrow> ('p, int \<times> 'l bound_publish list) prog" where
  "parent_maps P specs child_pid =
     local_call (Namespace ''write id maps for child'')
       (\<lambda>w. case pm_ids P w of (uid, gid) \<Rightarrow> write_id_maps (pm_os P) child_pid uid gid w)
       (\<lambda>_. parent_ack P specs)"

text \<open>Step 1.\<close>

definition parent_main ::
  "('p, 'l) parent_lib \<Rightarrow> publish_spec list \<Rightarrow> u32 \<Rightarrow> ('p, int \<times> 'l bound_publish list) prog" where
  "parent_main P specs child_pid =
     ReadByte ''unshare signal from child'' (or_fail (\<lambda>unshare_signal.
       if unshare_signal = 0 then parent_recv P specs
       else if unshare_signal = 1 then parent_maps P specs child_pid
       else Fail (InvalidByte ''unshare signal'' unshare_signal)))"

section \<open>Running the two processes\<close>

text \<open>
  What \<open>read\<close> and \<open>recvmsg\<close> of one byte can return: the next message, the end of the stream when
  the peer has closed and nothing is left, or any error. A received descriptor is a copy of the
  sender's under a number of the receiver's own: \<open>origin n\<close> is the descriptor of the sender that the
  receiver's number \<open>n\<close> is a copy of.
\<close>

inductive chan_read :: "bool \<Rightarrow> message list \<Rightarrow> nat \<Rightarrow> errno + bytes \<Rightarrow> bool" where
  read_next: "chan_read peer ((b, rights) # inbox) 1 (Inr [b])"
| read_end: "\<not> peer \<Longrightarrow> chan_read peer [] 0 (Inr [])"
| read_error: "chan_read peer inbox 0 (Inl e)"

inductive chan_recv :: "(int \<Rightarrow> int) \<Rightarrow> bool \<Rightarrow> message list \<Rightarrow> nat \<Rightarrow> errno + int list list \<Rightarrow> bool" for origin where
  recv_next: "map origin nums = rights \<Longrightarrow>
    chan_recv origin peer ((b, rights) # inbox) 1 (Inr (if rights = [] then [] else [nums]))"
| recv_end: "\<not> peer \<Longrightarrow> chan_recv origin peer [] 0 (Inr [])"
| recv_error: "chan_recv origin peer inbox 0 (Inl e)"

text \<open>
  One step of a process: its state and program before, the number of messages it takes from its
  inbox, the messages it sends, its state and program after.
\<close>

inductive proc_step ::
  "(int \<Rightarrow> int) \<Rightarrow> bool \<Rightarrow> message list \<Rightarrow> 'w \<times> ('w, 't) prog \<Rightarrow> nat \<Rightarrow> message list \<Rightarrow> 'w \<times> ('w, 't) prog \<Rightarrow> bool" for origin where
  do_local: "f w = (w', p) \<Longrightarrow> proc_step origin peer inbox (w, Local f) 0 [] (w', p)"
| do_read: "chan_read peer inbox n r \<Longrightarrow> read_control_byte label r = Some x \<Longrightarrow>
    proc_step origin peer inbox (w, ReadByte label k) n [] (w, k x)"
| do_read_again: "chan_read peer inbox n r \<Longrightarrow> read_control_byte label r = None \<Longrightarrow>
    proc_step origin peer inbox (w, ReadByte label k) n [] (w, ReadByte label k)"
| do_write: "peer \<Longrightarrow> proc_step origin peer inbox (w, WriteByte label b k) 0 [(b, [])] (w, k (Inr ()))"
| do_write_fails: "proc_step origin peer inbox (w, WriteByte label b k) 0 [] (w, k (Inl (WriteFailed label e)))"
| do_send: "peer \<Longrightarrow> proc_step origin peer inbox (w, SendFd n k) 0 [send_fd n] (w, k (Inr ()))"
| do_send_fails: "proc_step origin peer inbox (w, SendFd n k) 0 [] (w, k (Inl (SendFdFailed e)))"
| do_recv: "chan_recv origin peer inbox n r \<Longrightarrow> proc_step origin peer inbox (w, RecvFd k) n [] (w, k (recv_fd r))"

inductive_cases proc_step_cases:
  "proc_step origin peer inbox (w, Fail e) n out c"
  "proc_step origin peer inbox (w, Go t) n out c"
  "proc_step origin peer inbox (w, Local f) n out c"
  "proc_step origin peer inbox (w, ReadByte label k) n out c"
  "proc_step origin peer inbox (w, WriteByte label b k) n out c"
  "proc_step origin peer inbox (w, SendFd d k) n out c"
  "proc_step origin peer inbox (w, RecvFd k) n out c"

inductive_cases chan_read_cases: "chan_read peer inbox n r"
inductive_cases chan_recv_cases: "chan_recv origin peer inbox n r"

text \<open>The two processes: each has its state and program, what it has sent, and how much it has read.\<close>

record ('c, 'p, 'l) startup =
  su_child :: "'c \<times> ('c, string list) prog"
  su_child_sent :: "message list"
  su_child_read :: nat
  su_parent :: "'p \<times> ('p, int \<times> 'l bound_publish list) prog"
  su_parent_sent :: "message list"
  su_parent_read :: nat

text \<open>The child closes its end when it fails or starts the command, the parent only when it fails.\<close>

definition child_open :: "('c, 'p, 'l) startup \<Rightarrow> bool" where
  "child_open s \<longleftrightarrow> (case snd (su_child s) of Fail _ \<Rightarrow> False | Go _ \<Rightarrow> False | _ \<Rightarrow> True)"

definition parent_open :: "('c, 'p, 'l) startup \<Rightarrow> bool" where
  "parent_open s \<longleftrightarrow> (case snd (su_parent s) of Fail _ \<Rightarrow> False | _ \<Rightarrow> True)"

inductive setup_step :: "(int \<Rightarrow> int) \<Rightarrow> ('c, 'p, 'l) startup \<Rightarrow> ('c, 'p, 'l) startup \<Rightarrow> bool" for origin where
  child_moves:
    "proc_step origin (parent_open s) (drop (su_child_read s) (su_parent_sent s)) (su_child s) n out c \<Longrightarrow>
     setup_step origin s (s\<lparr>su_child := c, su_child_sent := su_child_sent s @ out, su_child_read := su_child_read s + n\<rparr>)"
| parent_moves:
    "proc_step origin (child_open s) (drop (su_parent_read s) (su_child_sent s)) (su_parent s) n out p \<Longrightarrow>
     setup_step origin s (s\<lparr>su_parent := p, su_parent_sent := su_parent_sent s @ out, su_parent_read := su_parent_read s + n\<rparr>)"

text \<open>After the fork.\<close>

definition forked ::
  "'c os_lib \<Rightarrow> target_arch \<Rightarrow> int \<Rightarrow> ('p, 'l) parent_lib \<Rightarrow> u32 \<Rightarrow> 'rs app_config \<Rightarrow> 'c \<Rightarrow> 'p \<Rightarrow> ('c, 'p, 'l) startup" where
  "forked L arch sock P child_pid cfg c p = \<lparr>
     su_child = (c, child_main L arch sock cfg), su_child_sent = [], su_child_read = 0,
     su_parent = (p, parent_main P (publishes cfg) child_pid), su_parent_sent = [], su_parent_read = 0\<rparr>"

text \<open>
  \<open>main\<close> up to the two programs: the configuration, the socket pair, the fork, and in each process
  the closing of the other's end. What \<open>socketpair\<close> and \<open>fork\<close> returned and the states of the two
  processes after the fork are arguments.
\<close>

datatype main_error = ConfigFailed config_error | SocketpairFailed errno | ForkFailed errno

definition main ::
  "'rs regex_lib \<Rightarrow> file_system \<Rightarrow> 'c os_lib \<Rightarrow> target_arch \<Rightarrow> ('p, 'l) parent_lib \<Rightarrow> cli \<Rightarrow>
   errno + (int \<times> int) \<Rightarrow> errno + u32 \<Rightarrow> 'c \<Rightarrow> 'p \<Rightarrow> main_error + ('c, 'p, 'l) startup" where
  "main R F L arch P args socks fork_result c p =
     result_bind (map_error ConfigFailed (build_config R F args)) (\<lambda>cfg.
     result_bind (map_error SocketpairFailed socks) (\<lambda>(parent_sock, child_sock).
     result_bind (map_error ForkFailed fork_result) (\<lambda>child_pid.
       Inr (forked L arch child_sock P child_pid cfg
         (sys_ignore L (Close parent_sock) c) (sys_ignore (pm_os P) (Close child_sock) p)))))"

section \<open>Supervising the child\<close>

text \<open>The blocking task that waits for the child.\<close>

partial_function (option) wait_child ::
  "('w \<Rightarrow> 'w \<times> (errno + wait_status)) \<Rightarrow> 'w \<Rightarrow> ('w \<times> (errno + int)) option" where
  "wait_child waitpid w =
     (case waitpid w of
        (w, Inr (Exited pid code)) \<Rightarrow> Some (w, Inr code)
      | (w, Inr (Signaled pid sig core)) \<Rightarrow> Some (w, Inr (128 + sig))
      | (w, Inr StillAlive) \<Rightarrow> wait_child waitpid w
      | (w, Inr (OtherStatus pid)) \<Rightarrow> wait_child waitpid w
      | (w, Inl e) \<Rightarrow> if e = EINTR then wait_child waitpid w else Some (w, Inl e))"

datatype join_result = Joined "errno + int" | JoinFailed

definition exit_code :: "join_result \<Rightarrow> int" where
  "exit_code child_status =
     (case child_status of Joined (Inr code) \<Rightarrow> code | Joined (Inl e) \<Rightarrow> 1 | JoinFailed \<Rightarrow> 1)"

text \<open>
  The supervision: every signal that arrives before the child has ended is passed on to it, an
  error of that is only logged; then the event loop is told to stop and awaited for two seconds,
  the descriptors are closed and the process exits with the code of the child. What the select
  yields, in order, is an argument; \<open>None\<close> is a wait that has not ended yet. How the event loop
  ended is only logged, so \<open>sv_join\<close> returns no value.
\<close>

datatype sup_event = ChildEnded join_result | Received signal

record 'w supervisor =
  sv_proc :: "'w proc_lib"
  sv_os :: "'w os_lib"
  sv_shutdown :: "'w \<Rightarrow> 'w"
  sv_join :: "'w \<Rightarrow> 'w"

fun supervise_loop :: "'w proc_lib \<Rightarrow> pid \<Rightarrow> sup_event list \<Rightarrow> 'w \<Rightarrow> ('w \<times> join_result) option" where
  "supervise_loop L child_pid [] w = None"
| "supervise_loop L child_pid (ChildEnded r # events) w = Some (w, r)"
| "supervise_loop L child_pid (Received sig # events) w =
     supervise_loop L child_pid events (fst (forward_signal L child_pid sig w))"

definition supervise ::
  "'w supervisor \<Rightarrow> pid \<Rightarrow> int \<Rightarrow> int \<Rightarrow> sup_event list \<Rightarrow> 'w \<Rightarrow> ('w \<times> int) option" where
  "supervise S child_pid tun_fd sock events w =
     (case supervise_loop (sv_proc S) child_pid events w of
        None \<Rightarrow> None
      | Some (w, child_status) \<Rightarrow>
          (let w = sv_join S (sv_shutdown S w);
               w = sys_ignore (sv_os S) (Close sock) (sys_ignore (sv_os S) (Close tun_fd) w)
           in Some (w, exit_code child_status)))"

text \<open>The exit of the forked child in \<open>main\<close>.\<close>

definition child_exit :: "outcome \<Rightarrow> int option" where
  "child_exit r =
     (case r of Returned (Inr code) \<Rightarrow> Some code | Returned (Inl e) \<Rightarrow> Some 1
      | ExitProcess code \<Rightarrow> Some code | ImageReplaced \<Rightarrow> None)"

section \<open>Accepted configurations\<close>

lemma from_specs_loop_parse:
  "from_specs_loop R specs b = Inr b' \<Longrightarrow> \<exists>rs. result_map (parse_spec R) specs = Inr rs"
proof (induction specs arbitrary: b)
  case (Cons spec specs)
  then obtain rule where "parse_spec R spec = Inr rule" "from_specs_loop R specs (add_rule R b rule) = Inr b'"
    by (auto simp: result_bind_Inr_iff)
  with Cons.IH [of "add_rule R b rule"] show ?case by auto
qed simp

lemma build_config_Inr:
  "build_config R F c = Inr cfg \<longleftrightarrow>
     proxy_parse (cli_proxy c) = Inr (default_proxy cfg) \<and> from_specs R (cli_rules c) = Inr (rules cfg) \<and>
     (\<exists>cwd. current_dir F = Inr cwd \<and> parse_bind_mounts F (cli_binds c) cwd = Inr (bind_mounts cfg)) \<and>
     parse_publish_specs (cli_publishes c) = Inr (publishes cfg) \<and> command cfg = cli_command c"
  by (cases cfg) (auto simp: build_config_def result_bind_Inr_iff)

text \<open>A configuration that was parsed is built from the parsed rules.\<close>

lemma build_config_built:
  assumes "build_config R F c = Inr cfg"
  shows "\<exists>rs. result_map (parse_spec R) (cli_rules c) = Inr rs \<and> built_from R rs cfg"
proof -
  from assms have r: "from_specs R (cli_rules c) = Inr (rules cfg)" by (simp add: build_config_Inr)
  then obtain rs where "result_map (parse_spec R) (cli_rules c) = Inr rs"
    by (auto simp: from_specs_def result_bind_Inr_iff dest: from_specs_loop_parse)
  with r show ?thesis unfolding built_from_def by blast
qed

text \<open>
  C27. An accepted configuration is well formed: every destination has a route and choosing it does not
  panic, no two published ports share a host endpoint and no port is zero, and every bind mount
  has absolute paths and covers a file that is neither the resolver configuration nor the
  name-service configuration.
\<close>

theorem accepted_config_well_formed:
  assumes "build_config R F c = Inr cfg" and "regex_set_spec R is_match"
    and "current_dir F = Inr cwd" and "is_absolute cwd"
  shows "(\<forall>target. \<exists>route. proxy_for R cfg target = Inr route) \<and>
    distinct (map host_addr (publishes cfg)) \<and>
    0 \<notin> host_port ` set (publishes cfg) \<union> namespace_port ` set (publishes cfg) \<and>
    (\<forall>bm \<in> set (bind_mounts cfg). is_absolute (bm_source bm) \<and> is_absolute (bm_target bm) \<and>
      (\<exists>i. names_object F (bm_target bm) i \<and> (\<forall>p \<in> set INTERNAL_BIND_TARGETS. \<not> names_object F p i)))"
proof -
  from build_config_built [OF assms(1)] obtain rs where "built_from R rs cfg" by blast
  from proxy_for_no_panic [OF assms(2) this] have 1: "\<forall>target. \<exists>route. proxy_for R cfg target = Inr route" by blast
  from assms(1,3) have b: "parse_bind_mounts F (cli_binds c) cwd = Inr (bind_mounts cfg)"
    and p: "parse_publish_specs (cli_publishes c) = Inr (publishes cfg)" by (auto simp: build_config_Inr)
  from accepted_publishes [OF p] 1 accepted_targets [OF b assms(4)] show ?thesis by blast
qed

section \<open>The exit code\<close>

text \<open>Of the code a process exits with the kernel keeps the low eight bits.\<close>

definition exit_status :: "int \<Rightarrow> int" where
  "exit_status code = code mod 256"

text \<open>
  What the kernel can report of the command: exit codes of eight bits and signal numbers below 128.
\<close>

definition valid_report :: "wait_status \<Rightarrow> bool" where
  "valid_report st = (case st of Exited p n \<Rightarrow> 0 \<le> n \<and> n < 256 | Signaled p sig core \<Rightarrow> 0 < sig \<and> sig < 128 | _ \<Rightarrow> True)"

lemma code_after_range:
  "list_all valid_report sts \<Longrightarrow> (\<And>n. code = Some n \<Longrightarrow> 0 \<le> n \<and> n < 256) \<Longrightarrow>
   code_after c code sts = Some n \<Longrightarrow> 0 \<le> n \<and> n < 256"
proof (induction sts arbitrary: code)
  case (Cons st sts)
  from Cons.IH [of "report_code c code st"] Cons.prems show ?case
    by (auto simp: report_code_def valid_report_def split: wait_status.splits if_splits)
qed simp

lemma wait_child_exited:
  "waitpid w = (w', Inr (Exited pid code)) \<Longrightarrow> wait_child waitpid w = Some (w', Inr code)"
  by (subst wait_child.simps) simp

text \<open>
  What the supervision relies on of the kernel and of the event loop's task, over one log of what was
  done: the signals sent, the order to stop, the wait for the event loop and the calls of the kernel.
\<close>

datatype sup_action = Killed pid signal | StopSent | LoopAwaited | Called sys_call

definition supervisor_spec :: "'w supervisor \<Rightarrow> ('w \<Rightarrow> sup_action list) \<Rightarrow> bool" where
  "supervisor_spec S log \<longleftrightarrow>
     (\<forall>p sig w. log (fst (pl_kill (sv_proc S) p sig w)) = log w @ [Killed p sig]) \<and>
     (\<forall>c w. log (fst (os_call (sv_os S) c w)) = log w @ [Called c]) \<and>
     (\<forall>w. log (sv_shutdown S w) = log w @ [StopSent]) \<and> (\<forall>w. log (sv_join S w) = log w @ [LoopAwaited])"

lemma supervise_loop_forwards:
  assumes "supervisor_spec S log"
  shows "\<exists>w'. supervise_loop (sv_proc S) child_pid (map Received sigs @ ChildEnded r # events) w = Some (w', r) \<and>
    log w' = log w @ map (Killed child_pid) sigs"
proof (induction sigs arbitrary: w)
  case (Cons sig sigs)
  have "log (fst (forward_signal (sv_proc S) child_pid sig w)) = log w @ [Killed child_pid sig]"
    using assms by (auto simp: supervisor_spec_def forward_signal_def split: prod.splits sum.splits)
      (metis fst_conv)+
  with Cons.IH [of "fst (forward_signal (sv_proc S) child_pid sig w)"] show ?case by simp
qed simp

text \<open>
  Until the child has ended every signal is passed on, in order, and the event loop is not told to
  stop; afterwards it is, it is awaited, the descriptors are closed, and no further signal is sent.
\<close>

lemma supervise_forwards:
  assumes "supervisor_spec S log"
  shows "\<exists>w'. supervise S child_pid tun_fd sock (map Received sigs @ ChildEnded r # events) w = Some (w', exit_code r) \<and>
    log w' = log w @ map (Killed child_pid) sigs @
      [StopSent, LoopAwaited, Called (Close tun_fd), Called (Close sock)]"
  using supervise_loop_forwards [OF assms, of child_pid sigs r events w] assms
  by (auto simp: supervise_def supervisor_spec_def sys_ignore_def Let_def)

text \<open>
  C26. The status of the command becomes the exit status of the program: when the reaper in the child
  returns, its result is the code the kernel reported last for the command (its exit code, or 128
  plus the signal that killed it); the child exits with it, and when the kernel reports that exit, the
  parent exits with the same code. What the parent does in between is, in this order and nothing
  else: it passes on to the child the signals it received before the child ended, tells the event
  loop to stop, waits for it, and closes the TUN descriptor and the setup socket.
\<close>

theorem command_status_passed_on:
  assumes "wait_spec L reports childless"
    and "wait_for_command_tree L command_pid SIGNALS w = Some (w', Inr n)" and "list_all valid_report (reports w')"
    and "child_exit (Returned (Inr n)) = Some code"
    and "waitpid v = (v', Inr (Exited child_pid (exit_status code)))"
    and "supervisor_spec S log"
  shows "\<exists>sts r u'. reports w' = reports w @ sts \<and> code_after command_pid None sts = Some n \<and>
    wait_child waitpid v = Some (v', r) \<and>
    supervise S child_pid tun_fd sock (map Received sigs @ ChildEnded (Joined r) # events) u = Some (u', n) \<and>
    log u' = log u @ map (Killed child_pid) sigs @
      [StopSent, LoopAwaited, Called (Close tun_fd), Called (Close sock)] \<and> exit_status n = n"
proof -
  from assms(1,2) obtain sts where sts: "reports w' = reports w @ sts" "code_after command_pid None sts = Some n"
    unfolding wait_for_command_tree_def by (blast dest: wait_loop_reports)
  with assms(3) code_after_range [of sts None command_pid n] have "exit_status n = n"
    by (auto simp: exit_status_def)
  moreover from this assms(4,5) wait_child_exited [of waitpid v v' child_pid]
  have "wait_child waitpid v = Some (v', Inr n)" by (simp add: child_exit_def)
  ultimately show ?thesis
    using sts supervise_forwards [OF assms(6), of child_pid tun_fd sock sigs "Joined (Inr n)" events u]
    by (auto simp: exit_code_def)
qed

section \<open>Witnesses\<close>

text \<open>A command line with one mount and one publication.\<close>

definition sample_cli :: cli where
  "sample_cli = \<lparr>cli_proxy = ''direct'', cli_rules = [], cli_binds = [''a:/etc/hosts''],
     cli_publishes = [show_publish \<lparr>host_ip = 0, host_port = 80, namespace_port = 81\<rparr>], cli_verbose = 0, cli_command = [''sh'']\<rparr>"

theorem accepted_config_well_formed_witness:
  "\<exists>cfg. build_config literal_lib sample_files sample_cli = Inr cfg \<and>
     distinct (map host_addr (publishes cfg)) \<and> length (publishes cfg) = 1 \<and> length (bind_mounts cfg) = 1"
proof -
  let ?m = "[\<lparr>bm_source = ''/h/a'', bm_target = ''/etc/hosts''\<rparr>]"
  let ?s = "\<lparr>host_ip = 0, host_port = 80, namespace_port = 81\<rparr>"
  have m: "parse_bind_mounts sample_files [''a:/etc/hosts''] ''/h'' = Inr ?m" by code_simp
  have p: "parse_publish_specs [show_publish ?s] = Inr [?s]"
    using publish_spec_roundtrip [of ?s] by (simp add: parse_publish_specs_Inr)
  have d: "proxy_parse ''direct'' = Inr Direct" by (simp add: proxy_parse_def)
  have r: "from_specs literal_lib [] = Inr (rules plain_config)"
    by (simp add: from_specs_def plain_config_def)
  let ?cfg = "\<lparr>default_proxy = Direct, bind_mounts = ?m, publishes = [?s], command = [''sh''], rules = rules plain_config\<rparr>"
  have cur: "current_dir sample_files = Inr ''/h''" by (simp add: sample_files_def)
  have b: "build_config literal_lib sample_files sample_cli = Inr ?cfg"
    using m p d r cur by (simp add: build_config_Inr sample_cli_def)
  have "is_absolute ''/h''" by (simp add: is_absolute_Cons)
  from accepted_config_well_formed [OF b literal_lib_set cur this] b show ?thesis
    by (intro exI [of _ ?cfg]) simp
qed

text \<open>A supervisor that only logs, and a kernel in which every call succeeds and does nothing.\<close>

definition quiet_os :: "'w os_lib" where
  "quiet_os = \<lparr>os_call = (\<lambda>c w. (w, 0)), os_errno = (\<lambda>w. 0), os_mkstemp = (\<lambda>t w. (w, Inl 0))\<rparr>"

definition log_supervisor :: "sup_action list supervisor" where
  "log_supervisor = \<lparr>sv_proc = \<lparr>
       pl_set_subreaper = (\<lambda>w. (w, Inr ())), pl_block_signals = (\<lambda>sigs w. (w, Inr [])),
       pl_set_mask = (\<lambda>sigs w. (w, Inr ())), pl_fork = (\<lambda>w. (w, Inr (Parent 2))), pl_execvp = (\<lambda>p args w. (w, None)),
       pl_waitpid = (\<lambda>w. (w, Inl ECHILD)), pl_sigtimedwait = (\<lambda>sigs t w. (w, Inl EAGAIN)),
       pl_now = (\<lambda>w. (w, 5)), pl_getpid = (\<lambda>w. 1), pl_read_tasks = (\<lambda>p w. (w, Inr [])),
       pl_read_children = (\<lambda>p t w. (w, Inr [])),
       pl_kill = (\<lambda>p sig w. (w @ [Killed p sig], if p = 77 then Inr () else Inl ESRCH))\<rparr>,
     sv_os = quiet_os\<lparr>os_call := (\<lambda>c w. (w @ [Called c], 0))\<rparr>,
     sv_shutdown = (\<lambda>w. w @ [StopSent]), sv_join = (\<lambda>w. w @ [LoopAwaited])\<rparr>"

lemma log_supervisor_spec: "supervisor_spec log_supervisor (\<lambda>w. w)"
  by (simp add: supervisor_spec_def log_supervisor_def)

theorem command_status_passed_on_witness:
  "supervise log_supervisor 77 8 9 [Received SIGTERM, ChildEnded (Joined (Inr 3))] [] =
     Some ([Killed 77 SIGTERM, StopSent, LoopAwaited, Called (Close 8), Called (Close 9)], 3)"
proof -
  obtain w' where w': "reap tree_lib 2 None tree_end = Some (w', Inl (Inr 3))" "list_all valid_report (tw_reports w')"
    using tree_end_reap by (simp add: valid_report_def)
  then have tree: "wait_for_command_tree tree_lib 2 SIGNALS tree_end = Some (w', Inr 3)"
    by (simp add: wait_for_command_tree_def wait_loop.simps [of _ _ _ None None])
  have code: "child_exit (Returned (Inr 3)) = Some 3" by (simp add: child_exit_def)
  let ?waitpid = "\<lambda>v :: unit. (v, Inr (Exited 77 (exit_status 3)))"
  have e: "exit_status 3 = 3" by (simp add: exit_status_def)
  obtain r u' where "wait_child ?waitpid () = Some ((), r)"
    "u' = [Killed 77 SIGTERM, StopSent, LoopAwaited, Called (Close 8), Called (Close 9)]"
    "supervise log_supervisor 77 8 9 [Received SIGTERM, ChildEnded (Joined r)] [] = Some (u', 3)"
    using command_status_passed_on [OF tree_lib_wait tree w'(2) code _ log_supervisor_spec,
      where waitpid = ?waitpid and v = "()" and v' = "()" and u = "[]" and sigs = "[SIGTERM]"
        and events = "[]" and child_pid = 77 and tun_fd = 8 and sock = 9]
    by (auto simp: tree_end_def)
  moreover from this have "r = Inr 3" using wait_child_exited [of ?waitpid "()"] by (simp add: e)
  ultimately show ?thesis by blast
qed

end
