(* ===== verification/Setup_Protocol.thy ===== *)
theory Setup_Protocol
  imports Startup
begin

text \<open>
  The handshake between the two processes of \<open>src/src/main.rs\<close>. Each process is followed on its
  own through the phases of its program, with the messages it has taken and sent so far; since
  what one has taken is a prefix of what the other has sent, the phases of the two processes fit
  together in every interleaving. From this follow that the command starts only when everything
  is ready, and that setup never deadlocks.
\<close>

section \<open>Steps of one process\<close>

lemma proc_step_takes: "proc_step origin peer inbox c n out c' \<Longrightarrow> n \<le> length inbox"
  by (induction rule: proc_step.induct) (auto elim: chan_read_cases chan_recv_cases)

lemma step_local_call:
  assumes "proc_step origin peer inbox (w, local_call ctx m k) n out (w', p')"
  shows "n = 0 \<and> out = [] \<and> ((\<exists>e. p' = Fail e) \<or> (\<exists>x. m w = (w', Inr x) \<and> p' = k x))"
  using assms unfolding local_call_def
  by (auto elim!: proc_step_cases split: prod.splits sum.splits)

lemma step_read:
  assumes "proc_step origin peer inbox (w, ReadByte label (or_fail k)) n out (w', p')"
  shows "out = [] \<and> w' = w \<and> ((\<exists>e. p' = Fail e) \<or> n = 0 \<and> p' = ReadByte label (or_fail k) \<or>
    n = 1 \<and> (\<exists>b rights i. inbox = (b, rights) # i \<and> p' = k b))"
  using assms
  by (auto elim!: proc_step_cases chan_read_cases simp: read_control_byte_def or_fail_def split: if_splits)

lemma step_write:
  assumes "proc_step origin peer inbox (w, WriteByte label b (or_fail k)) n out (w', p')"
  shows "n = 0 \<and> w' = w \<and> ((\<exists>e. p' = Fail e) \<and> out = [] \<or> out = [(b, [])] \<and> p' = k ())"
  using assms by (auto elim!: proc_step_cases simp: or_fail_def)

lemma step_send:
  assumes "proc_step origin peer inbox (w, SendFd d (or_fail k)) n out (w', p')"
  shows "n = 0 \<and> w' = w \<and> ((\<exists>e. p' = Fail e) \<or> out = [send_fd d] \<and> p' = k ())"
  using assms by (auto elim!: proc_step_cases simp: or_fail_def)

lemma step_recv:
  assumes "proc_step origin peer inbox (w, RecvFd (or_fail k)) n out (w', p')"
  shows "out = [] \<and> w' = w \<and> ((\<exists>e. p' = Fail e) \<or> n = 1 \<and> (\<exists>b rs i d. inbox = (b, origin d # rs) # i \<and> p' = k d))"
proof -
  have hd: "\<exists>rs d. map origin nums = origin d # rs \<and> k (hd nums) = k d" if "nums \<noteq> []" for nums
    using that by (cases nums) auto
  from assms show ?thesis
    by (auto elim!: proc_step_cases chan_recv_cases simp: or_fail_def recv_fd_def split: if_splits option.splits intro: hd)
qed

text \<open>A run of one process: the messages it has taken and sent so far, whatever its peer does.\<close>

inductive runs :: "(int \<Rightarrow> int) \<Rightarrow> 'w \<times> ('w, 't) prog \<Rightarrow> message list \<Rightarrow> message list \<Rightarrow> 'w \<times> ('w, 't) prog \<Rightarrow> bool"
  for origin and c :: "'w \<times> ('w, 't) prog" where
  runs_start: "runs origin c [] [] c"
| runs_step: "runs origin c hr hs d \<Longrightarrow> proc_step origin peer inbox d n out e \<Longrightarrow> runs origin c (hr @ take n inbox) (hs @ out) e"

text \<open>Each process of the reachable states is at the end of a run, on the messages of the other.\<close>

definition su_inv :: "(int \<Rightarrow> int) \<Rightarrow> ('c, 'p, 'l) startup \<Rightarrow> ('c, 'p, 'l) startup \<Rightarrow> bool" where
  "su_inv origin s0 s \<longleftrightarrow>
     runs origin (su_child s0) (take (su_child_read s) (su_parent_sent s)) (su_child_sent s) (su_child s) \<and>
     runs origin (su_parent s0) (take (su_parent_read s) (su_child_sent s)) (su_parent_sent s) (su_parent s) \<and>
     su_child_read s \<le> length (su_parent_sent s) \<and> su_parent_read s \<le> length (su_child_sent s)"

definition su_start :: "('c, 'p, 'l) startup \<Rightarrow> bool" where
  "su_start s \<longleftrightarrow> su_child_sent s = [] \<and> su_child_read s = 0 \<and> su_parent_sent s = [] \<and> su_parent_read s = 0"

lemma su_inv_start: "su_start s \<Longrightarrow> su_inv origin s s"
  by (simp add: su_inv_def su_start_def runs_start)

lemma su_inv_step:
  assumes "su_inv origin s0 s" and "setup_step origin s t"
  shows "su_inv origin s0 t"
  using assms(2)
proof cases
  case (child_moves n out c)
  let ?in = "drop (su_child_read s) (su_parent_sent s)"
  from proc_step_takes [OF child_moves(2)] have n: "n \<le> length (su_parent_sent s) - su_child_read s" by simp
  from assms(1) have r: "runs origin (su_child s0) (take (su_child_read s) (su_parent_sent s)) (su_child_sent s) (su_child s)"
    by (simp add: su_inv_def)
  from runs_step [OF r child_moves(2)]
  have "runs origin (su_child s0) (take (su_child_read s + n) (su_parent_sent s)) (su_child_sent s @ out) c"
    by (simp add: take_add)
  with assms(1) n child_moves(1) show ?thesis by (auto simp: su_inv_def)
next
  case (parent_moves n out p)
  from proc_step_takes [OF parent_moves(2)] have n: "n \<le> length (su_child_sent s) - su_parent_read s" by simp
  from assms(1) have r: "runs origin (su_parent s0) (take (su_parent_read s) (su_child_sent s)) (su_parent_sent s) (su_parent s)"
    by (simp add: su_inv_def)
  from runs_step [OF r parent_moves(2)]
  have "runs origin (su_parent s0) (take (su_parent_read s + n) (su_child_sent s)) (su_parent_sent s @ out) p"
    by (simp add: take_add)
  with assms(1) n parent_moves(1) show ?thesis by (auto simp: su_inv_def)
qed

lemma forked_start: "su_start (forked L arch sock P child_pid cfg c p)"
  by (simp add: su_start_def forked_def)

interpretation su: component "(=) (forked L arch sock P child_pid cfg c p)" "setup_step origin"
  "su_inv origin (forked L arch sock P child_pid cfg c p)"
  by unfold_locales (auto intro: su_inv_start forked_start su_inv_step)

text \<open>
  A role of the protocol: where its process begins, and a predicate on the messages taken, the
  messages sent and the process that holds at the beginning and that every step keeps, whatever
  the peer does. It then holds along every run, and so in every reachable state.
\<close>

locale role =
  fixes origin :: "int \<Rightarrow> int"
    and begins :: "'w \<times> ('w, 't) prog \<Rightarrow> bool"
    and phase :: "message list \<Rightarrow> message list \<Rightarrow> 'w \<times> ('w, 't) prog \<Rightarrow> bool"
  assumes phase_begins: "begins c \<Longrightarrow> phase [] [] c"
    and phase_step: "phase hr hs (w, p) \<Longrightarrow> proc_step origin peer inbox (w, p) n out (w', p') \<Longrightarrow>
      phase (hr @ take n inbox) (hs @ out) (w', p')"
begin

lemma runs_phase:
  assumes "runs origin c hr hs d" and "begins c"
  shows "phase hr hs d"
  using assms(1)
proof induction
  case (runs_step hr hs d peer inbox n out e)
  with phase_step [of hr hs "fst d" "snd d" peer inbox n out "fst e" "snd e"] show ?case by simp
qed (rule phase_begins [OF assms(2)])

end

section \<open>The child, phase by phase\<close>

definition flag :: "bool \<Rightarrow> u8" where
  "flag b = (if b then 1 else 0)"

definition acks :: "bool \<Rightarrow> u8 list" where
  "acks b = (if b then [1] else [])"

definition ns_events :: "bool \<Rightarrow> os_event list" where
  "ns_events b = [Did (Unshare (if b then [CLONE_NEWUSER, CLONE_NEWNET] else [CLONE_NEWNET]))]"

text \<open>
  What the child has done to its namespace when it asks for the go-ahead, with the TUN device open as
  \<open>n\<close>: the namespaces and the loopback interface first, then the TUN device and the mounts, in
  either order (\<open>namespace.rs\<close> documents one, \<open>child_main\<close> takes the other).
\<close>

definition prepared :: "target_arch \<Rightarrow> bind_mount list \<Rightarrow> bool \<Rightarrow> int \<Rightarrow> os_event list \<Rightarrow> bool" where
  "prepared arch bms b n es \<longleftrightarrow>
     (\<exists>k m p1 n1 p2 n2 bs ssh mounts. (es = ns_events b @ lo_up k @ tun_events arch n m @ mounts \<or>
          es = ns_events b @ lo_up k @ mounts @ tun_events arch n m) \<and>
        mounts = dns_events p1 n1 p2 n2 @ bs @ ssh \<and> binds_done bms bs \<and> (ssh = [] \<or> ssh = [Did ssh_mount]))"

text \<open>The phases of the child: its program, what it has read and sent, and its view of the kernel.\<close>

inductive child_at ::
  "'c os_lib \<Rightarrow> target_arch \<Rightarrow> int \<Rightarrow> 'rs app_config \<Rightarrow> ('c \<Rightarrow> os_view) \<Rightarrow> 'c \<Rightarrow>
   message list \<Rightarrow> message list \<Rightarrow> 'c \<times> ('c, string list) prog \<Rightarrow> bool"
  for L arch sock cfg V cw where
  at_fail: "child_at L arch sock cfg V cw hr hs (w, Fail e)"
| at_main: "child_at L arch sock cfg V cw [] [] (cw, child_main L arch sock cfg)"
| at_signal: "V w = did (ns_events b) (V cw) \<Longrightarrow>
    child_at L arch sock cfg V cw [] [] (w, child_signal L arch sock cfg b)"
| at_maps: "V w = did (ns_events True) (V cw) \<Longrightarrow>
    child_at L arch sock cfg V cw [] [(flag True, [])] (w, child_maps L arch sock cfg)"
| at_setup: "V w = did (ns_events b) (V cw) \<Longrightarrow> map fst hr = acks b \<Longrightarrow>
    child_at L arch sock cfg V cw hr [(flag b, [])] (w, child_setup L arch sock cfg)"
| at_tun: "V w = did (ns_events b @ lo_up k) (V cw) \<Longrightarrow> map fst hr = acks b \<Longrightarrow>
    child_at L arch sock cfg V cw hr [(flag b, [])] (w, child_tun L arch sock cfg)"
| at_mounts: "V w = did (ns_events b @ lo_up k @ tun_events arch t m) ((V cw)\<lparr>fds := insert t (fds (V cw))\<rparr>) \<Longrightarrow>
    t \<notin> fds (V cw) \<Longrightarrow> map fst hr = acks b \<Longrightarrow>
    child_at L arch sock cfg V cw hr [(flag b, [])] (w, child_mounts L sock t cfg)"
| at_send: "prepared arch (bind_mounts cfg) b t es \<Longrightarrow> V w = did es (strand left ((V cw)\<lparr>fds := insert t (fds (V cw))\<rparr>)) \<Longrightarrow>
    t \<notin> fds (V cw) \<Longrightarrow> map fst hr = acks b \<Longrightarrow>
    child_at L arch sock cfg V cw hr [(flag b, [])] (w, child_send L sock t cfg)"
| at_ready: "prepared arch (bind_mounts cfg) b t es \<Longrightarrow> V w = did es (strand left ((V cw)\<lparr>fds := insert t (fds (V cw))\<rparr>)) \<Longrightarrow>
    t \<notin> fds (V cw) \<Longrightarrow> map fst hr = acks b \<Longrightarrow>
    child_at L arch sock cfg V cw hr [(flag b, []), send_fd t] (w, child_ready L sock t cfg)"
| at_launch: "prepared arch (bind_mounts cfg) b t es \<Longrightarrow> V w = did es (strand left ((V cw)\<lparr>fds := insert t (fds (V cw))\<rparr>)) \<Longrightarrow>
    t \<notin> fds (V cw) \<Longrightarrow> map fst hr = acks b @ [1] \<Longrightarrow>
    child_at L arch sock cfg V cw hr [(flag b, []), send_fd t] (w, child_launch L sock t cfg)"
| at_go: "prepared arch (bind_mounts cfg) b t es \<Longrightarrow> V w = did es (strand left ((V cw)\<lparr>fds := fds (V cw) - {sock}\<rparr>)) \<Longrightarrow>
    t \<notin> fds (V cw) \<Longrightarrow> map fst hr = acks b @ [1] \<Longrightarrow>
    child_at L arch sock cfg V cw hr [(flag b, []), send_fd t] (w, Go (command cfg))"

lemma child_main_step:
  assumes "os_spec L V" and "proc_step origin peer inbox (cw, child_main L arch sock cfg) n out (w', p')"
  shows "child_at L arch sock cfg V cw (take n inbox) out (w', p')"
proof -
  note st = step_local_call [OF assms(2) [unfolded child_main_def]]
  show ?thesis
  proof (cases "\<exists>e. p' = Fail e")
    case False
    with st obtain b where b: "create_namespace L cw = (w', Inr b)" "p' = child_signal L arch sock cfg b" by blast
    from performsD [OF create_namespace_performs [OF assms(1)] b(1)] have "V w' = did (ns_events b) (V cw)"
      by (auto simp: ns_events_def)
    with st b(2) show ?thesis by (auto intro: at_signal)
  qed (auto intro: at_fail)
qed

lemma child_signal_step:
  assumes "V w = did (ns_events b) (V cw)"
    and "proc_step origin peer inbox (w, child_signal L arch sock cfg b) n out (w', p')"
  shows "child_at L arch sock cfg V cw (take n inbox) out (w', p')"
proof (cases "\<exists>e. p' = Fail e")
  case False
  with step_write [OF assms(2) [unfolded child_signal_def]]
  have st: "n = 0" "w' = w" "out = [(flag b, [])]"
    "p' = (if b then child_maps L arch sock cfg else child_setup L arch sock cfg)"
    by (auto simp: flag_def)
  show ?thesis
  proof (cases b)
    case True
    with st assms(1) show ?thesis by (auto intro: at_maps)
  next
    case False
    with st assms(1) at_setup [of V w b cw "[]"] show ?thesis by (simp add: acks_def)
  qed
qed (auto intro: at_fail)

lemma child_maps_step:
  assumes "V w = did (ns_events True) (V cw)"
    and "proc_step origin peer inbox (w, child_maps L arch sock cfg) n out (w', p')"
  shows "child_at L arch sock cfg V cw (take n inbox) ([(flag True, [])] @ out) (w', p')"
proof -
  note st = step_read [OF assms(2) [unfolded child_maps_def], folded child_maps_def]
  consider "\<exists>e. p' = Fail e" | "out = []" "w' = w" "n = 0" "p' = child_maps L arch sock cfg"
    | rights i where "out = []" "w' = w" "n = 1" "inbox = (1, rights) # i" "p' = child_setup L arch sock cfg"
    using st by (metis (full_types))
  then show ?thesis
  proof cases
    case 3
    with assms(1) at_setup [of V w True cw "[(1, rights)]"] show ?thesis by (simp add: acks_def)
  qed (use assms(1) in \<open>auto intro: at_fail at_maps\<close>)
qed

lemma child_setup_step:
  assumes "os_spec L V" and "map fst hr = acks b" and "V w = did (ns_events b) (V cw)"
    and "proc_step origin peer inbox (w, child_setup L arch sock cfg) n out (w', p')"
  shows "child_at L arch sock cfg V cw (hr @ take n inbox) ([(flag b, [])] @ out) (w', p')"
proof -
  note st = step_local_call [OF assms(4) [unfolded child_setup_def]]
  show ?thesis
  proof (cases "\<exists>e. p' = Fail e")
    case False
    with st obtain u where u: "bringup_loopback L w = (w', Inr u)" "p' = child_tun L arch sock cfg" by blast
    from performsD [OF bringup_loopback_performs [OF assms(1)] u(1)] assms(3)
    obtain k where "V w' = did (ns_events b @ lo_up k) (V cw)" by auto
    from at_tun [where V = V and cw = cw, OF this assms(2)] st u(2) show ?thesis by simp
  qed (auto intro: at_fail)
qed

lemma child_tun_step:
  assumes "os_spec L V" and "map fst hr = acks b" and "V w = did (ns_events b @ lo_up k) (V cw)"
    and "proc_step origin peer inbox (w, child_tun L arch sock cfg) n out (w', p')"
  shows "child_at L arch sock cfg V cw (hr @ take n inbox) ([(flag b, [])] @ out) (w', p')"
proof -
  note st = step_local_call [OF assms(4) [unfolded child_tun_def]]
  show ?thesis
  proof (cases "\<exists>e. p' = Fail e")
    case False
    with st obtain t where t: "create_tun L arch w = (w', Inr t)" "p' = child_mounts L sock t cfg" by blast
    from create_tun_view [OF assms(1) t(1)] assms(3) obtain m where "t \<notin> fds (V cw)"
      "V w' = did (ns_events b @ lo_up k @ tun_events arch t m) ((V cw)\<lparr>fds := insert t (fds (V cw))\<rparr>)"
      by (auto simp: did_def)
    from at_mounts [where V = V and cw = cw, OF this(2,1) assms(2)] st t(2) show ?thesis by simp
  qed (auto intro: at_fail)
qed

lemma child_mounts_step:
  assumes "os_spec L V" and "map fst hr = acks b" and "t \<notin> fds (V cw)"
    and "V w = did (ns_events b @ lo_up k @ tun_events arch t m) ((V cw)\<lparr>fds := insert t (fds (V cw))\<rparr>)"
    and "proc_step origin peer inbox (w, child_mounts L sock t cfg) n out (w', p')"
  shows "child_at L arch sock cfg V cw (hr @ take n inbox) ([(flag b, [])] @ out) (w', p')"
proof -
  note st = step_local_call [OF assms(5) [unfolded child_mounts_def]]
  show ?thesis
  proof (cases "\<exists>e. p' = Fail e")
    case False
    with st obtain u where u: "setup_mount_namespace L (bind_mounts cfg) w = (w', Inr u)"
      "p' = child_send L sock t cfg" by blast
    from leavesD [OF setup_mount_leaves [OF assms(1)] u(1), unfolded sum.case]
    obtain left p1 n1 p2 n2 bs ssh where d: "V w' = did (dns_events p1 n1 p2 n2 @ bs @ ssh) (strand left (V w))"
      "binds_done (bind_mounts cfg) bs" "ssh = [] \<or> ssh = [Did ssh_mount]" by blast
    let ?es = "ns_events b @ lo_up k @ tun_events arch t m @ dns_events p1 n1 p2 n2 @ bs @ ssh"
    have e: "prepared arch (bind_mounts cfg) b t ?es" unfolding prepared_def using d(2,3) by blast
    have v: "V w' = did ?es (strand left ((V cw)\<lparr>fds := insert t (fds (V cw))\<rparr>))" using d(1) assms(4) by simp
    from at_send [where V = V and cw = cw and w = w', OF e v assms(3,2)] st u(2) show ?thesis by simp
  qed (auto intro: at_fail)
qed

lemma child_send_step:
  assumes "prepared arch (bind_mounts cfg) b t es" and "V w = did es (strand left ((V cw)\<lparr>fds := insert t (fds (V cw))\<rparr>))"
    and "t \<notin> fds (V cw)" and "map fst hr = acks b"
    and "proc_step origin peer inbox (w, child_send L sock t cfg) n out (w', p')"
  shows "child_at L arch sock cfg V cw (hr @ take n inbox) ([(flag b, [])] @ out) (w', p')"
  using step_send [OF assms(5) [unfolded child_send_def]] at_ready [where V = V and cw = cw and w = w, OF assms(1-4)] at_fail by auto

lemma child_ready_step:
  assumes "prepared arch (bind_mounts cfg) b t es" and "V w = did es (strand left ((V cw)\<lparr>fds := insert t (fds (V cw))\<rparr>))"
    and "t \<notin> fds (V cw)" and "map fst hr = acks b"
    and "proc_step origin peer inbox (w, child_ready L sock t cfg) n out (w', p')"
  shows "child_at L arch sock cfg V cw (hr @ take n inbox) ([(flag b, []), send_fd t] @ out) (w', p')"
proof -
  note st = step_read [OF assms(5) [unfolded child_ready_def], folded child_ready_def]
  consider "\<exists>e. p' = Fail e" | "out = []" "w' = w" "n = 0" "p' = child_ready L sock t cfg"
    | rights i where "out = []" "w' = w" "n = 1" "inbox = (1, rights) # i" "p' = child_launch L sock t cfg"
    using st by (metis (full_types))
  then show ?thesis
  proof cases
    case 3
    with at_launch [where V = V and cw = cw and w = w, OF assms(1-3), of "hr @ [(1, rights)]"] assms(4) show ?thesis by simp
  qed (use at_ready [where V = V and cw = cw and w = w, OF assms(1-4)] in \<open>auto intro: at_fail\<close>)
qed

lemma child_launch_step:
  assumes "os_spec L V"
    and "prepared arch (bind_mounts cfg) b t es" and "V w = did es (strand left ((V cw)\<lparr>fds := insert t (fds (V cw))\<rparr>))"
    and "t \<notin> fds (V cw)" and "map fst hr = acks b @ [1]"
    and "proc_step origin peer inbox (w, child_launch L sock t cfg) n out (w', p')"
  shows "child_at L arch sock cfg V cw (hr @ take n inbox) ([(flag b, []), send_fd t] @ out) (w', p')"
proof -
  from assms(6) have n: "n = 0" "out = []" "w' = sys_ignore L (Close t) (sys_ignore L (Close sock) w)" "p' = Go (command cfg)"
    unfolding child_launch_def by (auto elim!: proc_step_cases)
  have "insert t (fds (V cw)) - {sock} - {t} = fds (V cw) - {sock}" using assms(4) by auto
  with n assms(3) have "V w' = did es (strand left ((V cw)\<lparr>fds := fds (V cw) - {sock}\<rparr>))"
    by (simp add: sys_ignore_view [OF assms(1)] did_def strand_def)
  from at_go [where V = V and cw = cw and w = w', OF assms(2) this assms(4,5)] n show ?thesis by simp
qed

lemma child_at_step:
  assumes "os_spec L V" and "child_at L arch sock cfg V cw hr hs (w, p)"
    and st: "proc_step origin peer inbox (w, p) n out (w', p')"
  shows "child_at L arch sock cfg V cw (hr @ take n inbox) (hs @ out) (w', p')"
  using assms(2)
proof cases
  case (at_fail e)
  with st show ?thesis by (auto elim: proc_step_cases)
next
  case at_main
  with st child_main_step [OF assms(1)] show ?thesis by simp
next
  case (at_signal b)
  with st child_signal_step [where V = V and cw = cw and w = w and b = b] show ?thesis by simp
next
  case at_maps
  with st child_maps_step [where V = V and cw = cw and w = w] show ?thesis by simp
next
  case (at_setup b)
  with st child_setup_step [OF assms(1), where cw = cw and w = w and hr = hr and b = b] show ?thesis by simp
next
  case (at_tun b k)
  with st child_tun_step [OF assms(1), where cw = cw and w = w and hr = hr and b = b and k = k] show ?thesis by simp
next
  case (at_mounts b k t m)
  with st child_mounts_step [OF assms(1), where cw = cw and w = w and hr = hr and b = b and k = k and t = t and m = m and arch = arch] show ?thesis by simp
next
  case (at_send b t es left)
  with st child_send_step [where V = V and cw = cw and w = w and hr = hr and b = b and t = t and es = es and left = left and arch = arch] show ?thesis by simp
next
  case (at_ready b t es left)
  with st child_ready_step [where V = V and cw = cw and w = w and hr = hr and b = b and t = t and es = es and left = left and arch = arch] show ?thesis by simp
next
  case (at_launch b t es left)
  with st child_launch_step [OF assms(1), where cw = cw and w = w and hr = hr and b = b and t = t and es = es and left = left and arch = arch] show ?thesis by simp
next
  case (at_go b t es left)
  with st show ?thesis by (auto elim: proc_step_cases)
qed

interpretation ch: role origin "\<lambda>c. c = (cw, child_main L arch sock cfg)"
  "\<lambda>hr hs d. os_spec L V \<longrightarrow> child_at L arch sock cfg V cw hr hs d"
  by unfold_locales (auto intro: at_main child_at_step)

section \<open>The parent, phase by phase\<close>

text \<open>Building the runtime and registering signals opens and closes no listener.\<close>

definition parent_spec :: "('p, 'l) parent_lib \<Rightarrow> ('p \<Rightarrow> 'l set) \<Rightarrow> bool" where
  "parent_spec P opened \<longleftrightarrow> listen_spec (pm_listen P) opened \<and>
     (\<forall>w. opened (fst (pm_runtime P w)) = opened w) \<and> (\<forall>sig w. opened (fst (pm_signal P sig w)) = opened w)"

definition serves :: "('p \<Rightarrow> 'l set) \<Rightarrow> publish_spec list \<Rightarrow> 'p \<Rightarrow> 'l bound_publish list \<Rightarrow> bool" where
  "serves opened specs w bs \<longleftrightarrow> map pub_spec bs = specs \<and> pub_listener ` set bs \<subseteq> opened w"

lemma bind_serves:
  assumes "listen_spec L opened" and "bind_publish_specs L w specs = (w', Inr bs)"
  shows "serves opened specs w' bs"
  using collect_bind_opened [OF assms(1) assms(2) [unfolded bind_publish_specs_def]]
  by (simp add: serves_def)

lemma register_serves:
  assumes "listen_spec L opened" and "register_publish_specs L w bs = (w', Inr bs')" and "serves opened specs w bs"
  shows "serves opened specs w' bs'"
proof -
  let ?base = "opened w - pub_listener ` set bs"
  have "opened w = ?base \<union> pub_listener ` set ([] @ bs)" "pub_listener ` set ([] @ bs) \<inter> ?base = {}"
    using assms(3) by (auto simp: serves_def)
  from collect_register_opened [OF assms(1) assms(2) [unfolded register_publish_specs_def] this] assms(3)
  show ?thesis by (auto simp: serves_def)
qed

lemma parent_spec_listen: "parent_spec P opened \<Longrightarrow> listen_spec (pm_listen P) opened"
  by (simp add: parent_spec_def)

lemma listen_signals_serves:
  assumes "parent_spec P opened" and "serves opened specs w bs"
    and "listen_signals P bs sigs w = (w', Inr bs')"
  shows "bs' = bs \<and> serves opened specs w' bs"
  using assms(2,3)
proof (induction sigs arbitrary: w)
  case (Cons sig sigs)
  obtain w1 ok where "pm_signal P sig w = (w1, ok)" by fastforce
  moreover from this assms(1) have "opened w1 = opened w" unfolding parent_spec_def by (metis fst_conv)
  ultimately show ?case
    using Cons.IH [of w1] Cons.prems by (cases ok) (auto simp: serves_def)
qed simp

lemma build_runtime_serves:
  assumes "parent_spec P opened" and "serves opened specs w bs" and "build_runtime P bs w = (w', Inr bs')"
  shows "serves opened specs w' bs'"
proof -
  from assms(1) have l: "listen_spec (pm_listen P) opened" by (simp add: parent_spec_def)
  obtain w1 ok where rt: "pm_runtime P w = (w1, ok)" by fastforce
  with assms(1) have w1: "opened w1 = opened w" unfolding parent_spec_def by (metis fst_conv)
  from assms(3) rt have ok: "ok" by (cases ok) (auto simp: build_runtime_def)
  obtain w2 r where reg: "register_publish_specs (pm_listen P) w1 bs = (w2, r)" by fastforce
  from assms(3) rt ok reg obtain bs2 where bs2: "r = Inr bs2"
    "listen_signals P bs2 [SIGTERM, SIGINT, SIGHUP] w2 = (w', Inr bs')"
    by (cases r) (auto simp: build_runtime_def simp del: listen_signals.simps)
  have "serves opened specs w1 bs" using assms(2) w1 by (simp add: serves_def)
  from register_serves [OF l reg [unfolded bs2(1)] this] listen_signals_serves [OF assms(1) _ bs2(2)]
  show ?thesis by blast
qed

text \<open>The descriptor \<open>d\<close> of the parent is a copy of the first one that came with the last message.\<close>

definition handed :: "(int \<Rightarrow> int) \<Rightarrow> int \<Rightarrow> message list \<Rightarrow> bool" where
  "handed origin d hr \<longleftrightarrow> (\<exists>ms b rs. hr = ms @ [(b, origin d # rs)])"

inductive parent_at ::
  "(int \<Rightarrow> int) \<Rightarrow> ('p, 'l) parent_lib \<Rightarrow> publish_spec list \<Rightarrow> u32 \<Rightarrow> ('p \<Rightarrow> 'l set) \<Rightarrow>
   message list \<Rightarrow> message list \<Rightarrow> 'p \<times> ('p, int \<times> 'l bound_publish list) prog \<Rightarrow> bool"
  for origin P specs child_pid opened where
  pa_fail: "hs = [] \<or> (\<exists>b. hr \<noteq> [] \<and> fst (hd hr) = flag b \<and> map fst hs = acks b) \<Longrightarrow>
    parent_at origin P specs child_pid opened hr hs (w, Fail e)"
| pa_main: "parent_at origin P specs child_pid opened [] [] (w, parent_main P specs child_pid)"
| pa_maps: "map fst hr = [flag True] \<Longrightarrow> parent_at origin P specs child_pid opened hr [] (w, parent_maps P specs child_pid)"
| pa_ack: "map fst hr = [flag True] \<Longrightarrow> parent_at origin P specs child_pid opened hr [] (w, parent_ack P specs)"
| pa_recv: "map fst hr = [flag b] \<Longrightarrow> map fst hs = acks b \<Longrightarrow>
    parent_at origin P specs child_pid opened hr hs (w, parent_recv P specs)"
| pa_bind: "map fst hr = [flag b, x] \<Longrightarrow> handed origin d hr \<Longrightarrow> map fst hs = acks b \<Longrightarrow>
    parent_at origin P specs child_pid opened hr hs (w, parent_bind P specs d)"
| pa_runtime: "map fst hr = [flag b, x] \<Longrightarrow> handed origin d hr \<Longrightarrow> map fst hs = acks b \<Longrightarrow> serves opened specs w bs \<Longrightarrow>
    parent_at origin P specs child_pid opened hr hs (w, parent_runtime P d bs)"
| pa_ready: "map fst hr = [flag b, x] \<Longrightarrow> handed origin d hr \<Longrightarrow> map fst hs = acks b \<Longrightarrow> serves opened specs w bs \<Longrightarrow>
    parent_at origin P specs child_pid opened hr hs (w, parent_ready d bs)"
| pa_go: "map fst hr = [flag b, x] \<Longrightarrow> handed origin d hr \<Longrightarrow> map fst hs = acks b @ [1] \<Longrightarrow> serves opened specs w bs \<Longrightarrow>
    parent_at origin P specs child_pid opened hr hs (w, Go (d, bs))"

lemma pa_fail_flag:
  "map fst hr = flag b # xs \<Longrightarrow> map fst hs = acks b \<Longrightarrow> parent_at origin P specs child_pid opened (hr @ ys) hs (w, Fail e)"
  by (cases hr) (auto intro!: pa_fail exI [of _ b])

lemma parent_main_step:
  assumes "proc_step origin peer inbox (w, parent_main P specs child_pid) n out (w', p')"
  shows "parent_at origin P specs child_pid opened (take n inbox) out (w', p')"
proof -
  note st = step_read [OF assms [unfolded parent_main_def], folded parent_main_def]
  show ?thesis
  proof (cases "\<exists>e. p' = Fail e")
    case False
    with st consider "out = []" "w' = w" "n = 0" "p' = parent_main P specs child_pid"
      | rights i where "out = []" "n = 1" "inbox = (flag False, rights) # i" "p' = parent_recv P specs"
      | rights i where "out = []" "n = 1" "inbox = (flag True, rights) # i" "p' = parent_maps P specs child_pid"
      by (auto simp: flag_def split: if_splits)
    then show ?thesis
    proof cases
      case 2
      then show ?thesis by (auto intro: pa_recv [where b = False] simp: acks_def)
    qed (auto intro: pa_main pa_maps)
  qed (use st in \<open>auto intro: pa_fail\<close>)
qed

lemma parent_at_step:
  assumes "parent_spec P opened" and "parent_at origin P specs child_pid opened hr hs (w, p)"
    and st: "proc_step origin peer inbox (w, p) n out (w', p')"
  shows "parent_at origin P specs child_pid opened (hr @ take n inbox) (hs @ out) (w', p')"
  using assms(2)
proof cases
  case (pa_fail e)
  with st show ?thesis by (auto elim: proc_step_cases)
next
  case pa_main
  with st parent_main_step show ?thesis by fastforce
next
  case pa_maps
  with step_local_call [OF st [unfolded pa_maps parent_maps_def]] show ?thesis
    by (auto intro: parent_at.pa_fail parent_at.pa_ack)
next
  case pa_ack
  with step_write [OF st [unfolded pa_ack parent_ack_def]] show ?thesis
    by (auto intro: parent_at.pa_fail parent_at.pa_recv [where b = True] simp: acks_def)
next
  case (pa_recv b)
  with step_recv [OF st [unfolded pa_recv parent_recv_def]] pa_fail_flag [of hr b "[]"] show ?thesis
    by (auto intro: parent_at.pa_bind simp: handed_def)
next
  case (pa_bind b x d)
  with step_local_call [OF st [unfolded pa_bind parent_bind_def]] bind_serves [OF parent_spec_listen [OF assms(1)]] pa_fail_flag [of hr b "[x]"]
  show ?thesis by (auto intro: parent_at.pa_runtime)
next
  case (pa_runtime b x d bs)
  with step_local_call [OF st [unfolded pa_runtime parent_runtime_def]] pa_fail_flag [of hr b "[x]"]
    build_runtime_serves [OF assms(1) pa_runtime(5)] show ?thesis
    by (auto intro: parent_at.pa_ready)
next
  case (pa_ready b x d bs)
  with step_write [OF st [unfolded pa_ready parent_ready_def]] pa_fail_flag [of hr b "[x]"] show ?thesis
    by (auto intro: parent_at.pa_go)
next
  case (pa_go b x d bs)
  with st show ?thesis by (auto elim: proc_step_cases)
qed

interpretation pa: role origin "\<lambda>c. snd c = parent_main P specs child_pid"
  "\<lambda>hr hs d. parent_spec P opened \<longrightarrow> parent_at origin P specs child_pid opened hr hs d"
  by unfold_locales (auto intro: pa_main parent_at_step)

section \<open>Properties\<close>

lemma flag_inject [simp]: "flag b = flag b' \<longleftrightarrow> b = b'"
  by (simp add: flag_def)

lemma child_at_go:
  assumes "child_at L arch sock cfg V cw hr hs (w, Go cmd)"
  shows "cmd = command cfg \<and> (\<exists>b t es left. map fst hr = acks b @ [1] \<and> hs = [(flag b, []), send_fd t] \<and>
    prepared arch (bind_mounts cfg) b t es \<and> V w = did es (strand left ((V cw)\<lparr>fds := fds (V cw) - {sock}\<rparr>)))"
  using assms
  by cases (auto simp: child_main_def child_signal_def child_maps_def child_setup_def child_tun_def
      child_mounts_def child_send_def child_ready_def child_launch_def local_call_def)

lemma child_at_read:
  assumes "child_at L arch sock cfg V cw hr hs (w, ReadByte label k)"
  shows "hr = [] \<and> hs = [(flag True, [])] \<or>
    (\<exists>b t. map fst hr = acks b \<and> hs = [(flag b, []), send_fd t])"
  using assms
  by cases (auto simp: child_main_def child_signal_def child_setup_def child_tun_def
      child_mounts_def child_send_def child_launch_def local_call_def)

lemma child_at_no_recv: "\<not> child_at L arch sock cfg V cw hr hs (w, RecvFd k)"
  by (auto elim: child_at.cases simp: child_main_def child_signal_def child_maps_def child_setup_def
      child_tun_def child_mounts_def child_send_def child_ready_def child_launch_def local_call_def)

lemmas parent_nodes = parent_main_def parent_maps_def parent_ack_def parent_recv_def parent_bind_def
  parent_runtime_def parent_ready_def local_call_def

lemma parent_at_read:
  "parent_at origin P specs child_pid opened hr hs (w, ReadByte label k) \<Longrightarrow> hr = [] \<and> hs = []"
  by (erule parent_at.cases) (auto simp: parent_nodes)

lemma parent_at_recv:
  "parent_at origin P specs child_pid opened hr hs (w, RecvFd k) \<Longrightarrow> \<exists>b. map fst hr = [flag b] \<and> map fst hs = acks b"
  by (erule parent_at.cases) (auto simp: parent_nodes)

lemma parent_at_go:
  "parent_at origin P specs child_pid opened hr hs (w, Go x) \<Longrightarrow>
   \<exists>b y. map fst hr = [flag b, y] \<and> map fst hs = acks b @ [1] \<and> handed origin (fst x) hr \<and> serves opened specs w (snd x)"
  by (erule parent_at.cases) (auto simp: parent_nodes)

text \<open>What the parent has sent by the time it has not yet given the go-ahead.\<close>

lemma parent_at_sent:
  assumes "parent_at origin P specs child_pid opened hr hs (w, p)"
  shows "(\<exists>x. p = Go x) \<or> hs = [] \<or> (\<exists>b. hr \<noteq> [] \<and> fst (hd hr) = flag b \<and> map fst hs = acks b)"
proof -
  have hd: "hr \<noteq> [] \<and> fst (hd hr) = flag b" if "map fst hr = flag b # xs" for b xs
    using that by (cases hr) auto
  from assms show ?thesis by cases (use hd in auto)
qed

lemma reach_phases:
  assumes "os_spec L V" and "parent_spec P opened"
    and "reach ((=) (forked L arch sock P child_pid cfg c p)) (setup_step origin) s"
  shows "child_at L arch sock cfg V c (take (su_child_read s) (su_parent_sent s)) (su_child_sent s) (su_child s)"
    and "parent_at origin P (publishes cfg) child_pid opened (take (su_parent_read s) (su_child_sent s)) (su_parent_sent s) (su_parent s)"
    and "su_child_read s \<le> length (su_parent_sent s)" and "su_parent_read s \<le> length (su_child_sent s)"
proof -
  from su.reach_inv [OF assms(3)]
  have i: "runs origin (c, child_main L arch sock cfg) (take (su_child_read s) (su_parent_sent s)) (su_child_sent s) (su_child s)"
    "runs origin (p, parent_main P (publishes cfg) child_pid) (take (su_parent_read s) (su_child_sent s)) (su_parent_sent s) (su_parent s)"
    "su_child_read s \<le> length (su_parent_sent s)" "su_parent_read s \<le> length (su_child_sent s)"
    by (auto simp: su_inv_def forked_def)
  from ch.runs_phase [OF i(1) refl] assms(1) show "child_at L arch sock cfg V c
    (take (su_child_read s) (su_parent_sent s)) (su_child_sent s) (su_child s)" by blast
  from pa.runs_phase [OF i(2)] assms(2) show "parent_at origin P (publishes cfg) child_pid opened
    (take (su_parent_read s) (su_child_sent s)) (su_parent_sent s) (su_parent s)" by simp
  show "su_child_read s \<le> length (su_parent_sent s)" "su_parent_read s \<le> length (su_child_sent s)" by (fact i)+
qed

lemma hd_take_neq_Nil: "take n xs \<noteq> [] \<Longrightarrow> hd (take n xs) = hd xs"
  by (cases xs; cases n) auto

lemma forked_starts_prepared:
  assumes "os_spec L V" and "parent_spec P opened"
    and "reach ((=) (forked L arch sock P child_pid cfg c p)) (setup_step origin) s"
    and "snd (su_child s) = Go cmd"
  shows "cmd = command cfg \<and>
    (\<exists>tun_fd registered needs_maps es. snd (su_parent s) = Go (tun_fd, registered) \<and>
      map pub_spec registered = publishes cfg \<and> pub_listener ` set registered \<subseteq> opened (fst (su_parent s)) \<and>
      prepared arch (bind_mounts cfg) needs_maps (origin tun_fd) es \<and>
      trace (V (fst (su_child s))) = trace (V c) @ es) \<and>
    fds (V (fst (su_child s))) = fds (V c) - {sock}"
proof -
  note ph = reach_phases [OF assms(1-3)]
  obtain w where ch: "su_child s = (w, Go cmd)" using assms(4) by (metis prod.collapse)
  from child_at_go [OF ph(1) [unfolded ch]] obtain b t es left where
    c: "cmd = command cfg" "map fst (take (su_child_read s) (su_parent_sent s)) = acks b @ [1]"
    "su_child_sent s = [(flag b, []), send_fd t]" "prepared arch (bind_mounts cfg) b t es"
    "V w = did es (strand left ((V c)\<lparr>fds := fds (V c) - {sock}\<rparr>))" by blast
  obtain pw pp where pa: "su_parent s = (pw, pp)" by fastforce
  from arg_cong [OF c(2), of length] have len: "length (acks b) < length (su_parent_sent s)"
    by (simp add: min_def split: if_splits)
  have same: "b' = b" if "take (su_parent_read s) (su_child_sent s) \<noteq> []"
      "fst (hd (take (su_parent_read s) (su_child_sent s))) = flag b'" for b'
    using that(2) hd_take_neq_Nil [OF that(1)] c(3) by simp
  have not_acks: "map fst (su_parent_sent s) \<noteq> acks b"
    using len by (metis length_map less_irrefl)
  have "su_parent_sent s \<noteq> []" using len by auto
  with parent_at_sent [OF ph(2) [unfolded pa]] same not_acks obtain x where x: "pp = Go x" by blast
  from parent_at_go [OF ph(2) [unfolded pa x]] obtain b' y where
    g: "map fst (take (su_parent_read s) (su_child_sent s)) = [flag b', y]"
      "handed origin (fst x) (take (su_parent_read s) (su_child_sent s))" "serves opened (publishes cfg) pw (snd x)" by metis
  have "take (su_parent_read s) (su_child_sent s) = [(flag b, []), send_fd t]"
    using arg_cong [OF g(1), of length] unfolding c(3) by simp
  with g(2) have "origin (fst x) = t" by (auto simp: handed_def send_fd_def)
  moreover have "trace (V w) = trace (V c) @ es" "fds (V w) = fds (V c) - {sock}" using c(5) by simp_all
  ultimately show ?thesis using c(1,4) ch pa x g(3)
    by (intro conjI exI [of _ "fst x"] exI [of _ "snd x"] exI [of _ b] exI [of _ es]) (simp_all add: serves_def)
qed

text \<open>What \<open>main\<close> has done when it has forked.\<close>

lemma main_Inr:
  "main R F L arch P args socks fork_result c p = Inr s \<longleftrightarrow>
     (\<exists>cfg parent_sock child_sock child_pid. build_config R F args = Inr cfg \<and>
        socks = Inr (parent_sock, child_sock) \<and> fork_result = Inr child_pid \<and>
        s = forked L arch child_sock P child_pid cfg
          (sys_ignore L (Close parent_sock) c) (sys_ignore (pm_os P) (Close child_sock) p))"
  by (auto simp: main_def result_bind_Inr_iff)

text \<open>
  C6. The command starts only when everything is ready, in every interleaving of the two processes and
  whatever system call fails: once the child has reached the command, it has entered its namespaces
  and brought up the loopback interface, and then created and configured the TUN device and mounted
  the resolver configuration and the requested files, in either order, and hands no
  descriptor of the setup on to the command; the parent has received a copy of the very descriptor
  the child opened for the TUN device, bound and registered every published port and given the
  go-ahead, with all the listeners open. The command, the published ports and the mounted
  files are those of the command line.
\<close>

theorem command_starts_prepared:
  assumes "os_spec L V" and "parent_spec P opened"
    and "main R F L arch P args (Inr (parent_sock, child_sock)) fork_result c p = Inr s0"
    and "reach ((=) s0) (setup_step origin) s" and "snd (su_child s) = Go cmd"
  shows "\<exists>cfg. build_config R F args = Inr cfg \<and> cmd = cli_command args \<and>
    (\<exists>tun_fd registered needs_maps es. snd (su_parent s) = Go (tun_fd, registered) \<and>
      map pub_spec registered = publishes cfg \<and> pub_listener ` set registered \<subseteq> opened (fst (su_parent s)) \<and>
      prepared arch (bind_mounts cfg) needs_maps (origin tun_fd) es \<and>
      trace (V (fst (su_child s))) = trace (V c) @ es) \<and>
    fds (V (fst (su_child s))) = fds (V c) - {parent_sock, child_sock}"
proof -
  from assms(3) obtain cfg child_pid where cfg: "build_config R F args = Inr cfg"
    and s0: "s0 = forked L arch child_sock P child_pid cfg
      (sys_ignore L (Close parent_sock) c) (sys_ignore (pm_os P) (Close child_sock) p)"
    by (auto simp: main_Inr)
  have "command cfg = cli_command args" using cfg by (simp add: build_config_Inr)
  moreover have "A - {parent_sock} - {child_sock} = A - {parent_sock, child_sock}" for A :: "int set" by blast
  ultimately show ?thesis using forked_starts_prepared [OF assms(1,2) assms(4) [unfolded s0] assms(5)] cfg
    by (intro exI [of _ cfg]) (simp add: sys_ignore_view [OF assms(1)])
qed

text \<open>A process that does nothing by itself: it has ended, or waits for a message that is not there.\<close>

definition idle :: "bool \<Rightarrow> message list \<Rightarrow> ('w, 't) prog \<Rightarrow> bool" where
  "idle peer inbox p =
     (case p of Fail _ \<Rightarrow> True | Go _ \<Rightarrow> True | ReadByte _ _ \<Rightarrow> peer \<and> inbox = []
      | RecvFd _ \<Rightarrow> peer \<and> inbox = [] | _ \<Rightarrow> False)"

definition ended :: "('w, 't) prog \<Rightarrow> bool" where
  "ended p = (case p of Fail _ \<Rightarrow> True | Go _ \<Rightarrow> True | _ \<Rightarrow> False)"

lemma not_both_waiting:
  assumes "parent_at origin P specs child_pid opened (take n cs) ps (pw, pp)" and "n \<le> length cs" and "m \<le> length ps"
    and "take m ps = [] \<and> cs = [(flag True, [])] \<or>
      (\<exists>b t. map fst (take m ps) = acks b \<and> cs = [(flag b, []), send_fd t])"
    and "drop m ps = []" and "\<not> (\<exists>e. pp = Fail e)"
  shows "\<not> idle peer (drop n cs) pp"
proof
  assume idle: "idle peer (drop n cs) pp"
  from assms(3,5) have m: "take m ps = ps" by simp
  from idle assms(6) consider label k where "pp = ReadByte label k" "drop n cs = []"
    | k where "pp = RecvFd k" "drop n cs = []" | x where "pp = Go x"
    by (cases pp) (auto simp: idle_def)
  then show False
  proof cases
    case 1
    with parent_at_read assms(1,2,4) show False by force
  next
    case 2
    then have "take n cs = cs" using assms(2) by simp
    with parent_at_recv [OF assms(1) [unfolded 2(1)]] assms(4) m show False by (auto simp: acks_def)
  next
    case 3
    from parent_at_go [OF assms(1) [unfolded 3]] obtain b y where
      g: "map fst (take n cs) = [flag b, y]" "map fst ps = acks b @ [1]" by auto
    with assms(4) m show False by (cases n) (auto simp: acks_def split: if_splits)
  qed
qed

lemma forked_never_deadlocks:
  assumes "os_spec L V" and "parent_spec P opened"
    and "reach ((=) (forked L arch sock P child_pid cfg c p)) (setup_step origin) s"
    and "idle (parent_open s) (drop (su_child_read s) (su_parent_sent s)) (snd (su_child s))"
    and "idle (child_open s) (drop (su_parent_read s) (su_child_sent s)) (snd (su_parent s))"
  shows "ended (snd (su_child s)) \<and> ended (snd (su_parent s))"
proof -
  note ph = reach_phases [OF assms(1-3)]
  obtain cw cp where ch: "su_child s = (cw, cp)" by fastforce
  obtain pw pp where pa: "su_parent s = (pw, pp)" by fastforce
  have child: "ended cp"
  proof (rule ccontr)
    assume "\<not> ended cp"
    with assms(4) ch child_at_no_recv [of L arch sock cfg V c _ _ cw] ph(1) obtain label k where
      r: "cp = ReadByte label k" "parent_open s" "drop (su_child_read s) (su_parent_sent s) = []"
      by (cases cp) (auto simp: idle_def ended_def)
    from r(2) pa have "\<not> (\<exists>e. pp = Fail e)" by (auto simp: parent_open_def)
    with not_both_waiting [OF ph(2) [unfolded pa] ph(4,3) child_at_read [OF ph(1) [unfolded ch r(1)]] r(3)]
      assms(5) pa show False by auto
  qed
  moreover have "ended pp"
  proof -
    from child ch have "\<not> child_open s" by (cases cp) (auto simp: ended_def child_open_def)
    with assms(5) pa show ?thesis by (cases pp) (auto simp: idle_def ended_def)
  qed
  ultimately show ?thesis using ch pa by simp
qed

text \<open>
  C7. Setup never deadlocks: in every reachable state in which neither process can go on by itself,
  both have ended, each with an error or at the point where the command runs and is served. In
  particular, when one side fails the other does not wait for it forever.
\<close>

theorem setup_never_deadlocks:
  assumes "os_spec L V" and "parent_spec P opened"
    and "main R F L arch P args socks fork_result c p = Inr s0" and "reach ((=) s0) (setup_step origin) s"
    and "idle (parent_open s) (drop (su_child_read s) (su_parent_sent s)) (snd (su_child s))"
    and "idle (child_open s) (drop (su_parent_read s) (su_child_sent s)) (snd (su_parent s))"
  shows "ended (snd (su_child s)) \<and> ended (snd (su_parent s))"
proof -
  from assms(3) obtain cfg child_sock child_pid c' p' where "build_config R F args = Inr cfg"
    and s0: "s0 = forked L arch child_sock P child_pid cfg c' p'" unfolding main_Inr by blast
  from forked_never_deadlocks [OF assms(1,2) assms(4) [unfolded s0] assms(5,6)] show ?thesis .
qed

section \<open>Witnesses\<close>

text \<open>Both processes on kernels in which every call succeeds, with the configuration without rules.\<close>

definition sample_parent :: "(nat \<times> (nat \<times> (ipv4 \<times> u16)) list, nat) parent_lib" where
  "sample_parent = \<lparr>
     pm_os = \<lparr>os_call = (\<lambda>c w. (w, 0)), os_errno = (\<lambda>w. 0), os_mkstemp = (\<lambda>t w. (w, Inl 0))\<rparr>,
     pm_listen = table_lib, pm_ids = (\<lambda>w. (1000, 1000)),
     pm_runtime = (\<lambda>w. (w, True)), pm_signal = (\<lambda>sig w. (w, True))\<rparr>"

lemma sample_parent_spec: "parent_spec sample_parent table_opened"
  by (simp add: parent_spec_def sample_parent_def table_lib_spec)

definition sample_forked :: "(log_world, nat \<times> (nat \<times> (ipv4 \<times> u16)) list, nat) startup" where
  "sample_forked = forked log_os OtherArch 4 sample_parent 77 plain_config
     \<lparr>lw_fds = [0, 1, 2, 4], lw_temps = [], lw_trace = []\<rparr> (0, [])"

definition plain_cli :: cli where
  "plain_cli = \<lparr>cli_proxy = ''direct'', cli_rules = [], cli_binds = [], cli_publishes = [],
     cli_verbose = 0, cli_command = [''sh'']\<rparr>"

lemma sample_config: "build_config literal_lib sample_files plain_cli = Inr plain_config"
  by (simp add: build_config_Inr plain_cli_def plain_config_def proxy_parse_def from_specs_def sample_files_def
      parse_bind_mounts_def parse_publish_specs_Inr)

lemma sample_main:
  "main literal_lib sample_files log_os OtherArch sample_parent plain_cli (Inr (3, 4)) (Inr 77)
     \<lparr>lw_fds = [0, 1, 2, 3, 4], lw_temps = [], lw_trace = []\<rparr> (0, []) = Inr sample_forked"
  using sample_config by (simp add: main_Inr sample_forked_def sys_ignore_def log_os_def sample_parent_def)

lemma log_sys: "\<not> opens c \<Longrightarrow> \<not> releases c \<Longrightarrow> \<exists>w'. sys log_os ctx c w = (w', Inr 0)"
  by (cases c) (simp_all add: sys_def log_os_def)

lemma log_create_namespace: "\<exists>w'. create_namespace log_os w = (w', Inr False)"
  using log_sys [of "Unshare [CLONE_NEWNET]" "''unshare(CLONE_NEWNET)''" w]
  by (auto simp: create_namespace_def)

lemma log_bringup_loopback: "\<exists>w'. bringup_loopback log_os w = (w', Inr ())"
  by (simp add: bringup_loopback_def io_bind_def sys_def log_os_def Let_def)

lemma log_create_tun: "\<exists>w' n. create_tun log_os OtherArch w = (w', Inr n)"
  by (simp add: create_tun_def configure_tun_def config_ioctl_def tun_mask_octets map_error_def
      io_bind_def log_os_def TUN_NAME_def IF_NAMESIZE_def Let_def)

lemma fresh_path_valid: "valid_str (fresh_path w)"
  by (rule ascii_valid_str) (auto simp: is_ascii_def fresh_path_def)

lemma log_tmpfile: "\<exists>w'. bind_mount_tmpfile log_os content target w = (w', Inr ())"
  by (simp add: bind_mount_tmpfile_def io_bind_def io_finally_def sys_def log_os_def fresh_path_valid io_return_def)

lemma log_setup_mount: "\<exists>w'. setup_mount_namespace log_os [] w = (w', Inr ())"
proof -
  obtain w1 where 1: "sys log_os ''unshare(CLONE_NEWNS)'' (Unshare [CLONE_NEWNS]) w = (w1, Inr 0)"
    using log_sys [of "Unshare [CLONE_NEWNS]"] by auto
  obtain w2 where 2: "sys log_os ''make root mount private'' (Mount None ''/'' None [MS_REC, MS_PRIVATE]) w1 = (w2, Inr 0)"
    using log_sys [of "Mount None ''/'' None [MS_REC, MS_PRIVATE]"] by auto
  obtain w3 where 3: "bind_mount_tmpfile log_os resolv_conf ''/etc/resolv.conf'' w2 = (w3, Inr ())"
    using log_tmpfile by blast
  obtain w4 where 4: "bind_mount_tmpfile log_os nsswitch_conf ''/etc/nsswitch.conf'' w3 = (w4, Inr ())"
    using log_tmpfile by blast
  from 1 2 3 4 show ?thesis by (simp add: setup_mount_namespace_def io_return_def io_bind_def)
qed

text \<open>One more step of a run.\<close>

lemma reach_child:
  assumes "reach I (setup_step origin) \<lparr>su_child = (w, q), su_child_sent = cs, su_child_read = cr,
      su_parent = pp, su_parent_sent = ps, su_parent_read = pr\<rparr>"
    and "proc_step origin (\<not> (\<exists>e. snd pp = Fail e)) (drop cr ps) (w, q) n out c"
  shows "reach I (setup_step origin) \<lparr>su_child = c, su_child_sent = cs @ out, su_child_read = cr + n,
      su_parent = pp, su_parent_sent = ps, su_parent_read = pr\<rparr>"
proof -
  let ?s = "\<lparr>su_child = (w, q), su_child_sent = cs, su_child_read = cr,
      su_parent = pp, su_parent_sent = ps, su_parent_read = pr\<rparr>"
  have "parent_open ?s = (\<not> (\<exists>e. snd pp = Fail e))"
    by (cases "snd pp") (auto simp: parent_open_def)
  with assms(2) have "proc_step origin (parent_open ?s) (drop (su_child_read ?s) (su_parent_sent ?s)) (su_child ?s) n out c"
    by simp
  from reach_step [OF assms(1) child_moves [OF this]] show ?thesis by simp
qed

lemma reach_parent:
  assumes "reach I (setup_step origin) \<lparr>su_child = cc, su_child_sent = cs, su_child_read = cr,
      su_parent = (w, q), su_parent_sent = ps, su_parent_read = pr\<rparr>"
    and "proc_step origin (\<not> ended (snd cc)) (drop pr cs) (w, q) n out p"
  shows "reach I (setup_step origin) \<lparr>su_child = cc, su_child_sent = cs, su_child_read = cr,
      su_parent = p, su_parent_sent = ps @ out, su_parent_read = pr + n\<rparr>"
proof -
  let ?s = "\<lparr>su_child = cc, su_child_sent = cs, su_child_read = cr,
      su_parent = (w, q), su_parent_sent = ps, su_parent_read = pr\<rparr>"
  have "child_open ?s = (\<not> ended (snd cc))"
    by (cases "snd cc") (auto simp: child_open_def ended_def)
  with assms(2) have "proc_step origin (child_open ?s) (drop (su_parent_read ?s) (su_child_sent ?s)) (su_parent ?s) n out p"
    by simp
  from reach_step [OF assms(1) parent_moves [OF this]] show ?thesis by simp
qed

lemma do_local_call: "m w = (w', Inr x) \<Longrightarrow> proc_step origin peer inbox (w, local_call ctx m k) 0 [] (w', k x)"
  unfolding local_call_def by (rule do_local) simp

lemma do_read_byte: "inbox = (b, rights) # i \<Longrightarrow> proc_step origin peer inbox (w, ReadByte label (or_fail k)) 1 [] (w, k b)"
  using do_read [OF read_next [of peer b rights i], where label = label and x = "Inr b" and w = w and k = "or_fail k"]
  by (simp add: read_control_byte_def or_fail_def)

lemma do_write_byte: "peer \<Longrightarrow> proc_step origin peer inbox (w, WriteByte label b (or_fail k)) 0 [(b, [])] (w, k ())"
  using do_write [where inbox = inbox and w = w and label = label and b = b and k = "or_fail k"] by (simp add: or_fail_def)

lemma do_send_fd: "peer \<Longrightarrow> proc_step origin peer inbox (w, SendFd d (or_fail k)) 0 [send_fd d] (w, k ())"
  using do_send [where inbox = inbox and w = w and n = d and k = "or_fail k"] by (simp add: or_fail_def)

lemma do_recv_fd: "inbox = send_fd (origin d) # i \<Longrightarrow> proc_step origin peer inbox (w, RecvFd (or_fail k)) 1 [] (w, k d)"
  using do_recv [OF recv_next [where origin = origin and nums = "[d]" and rights = "[origin d]" and b = 0 and peer = peer
      and inbox = i], where w = w and k = "or_fail k"]
  by (simp add: or_fail_def recv_fd_def send_fd_def)

lemma sample_run_child:
  "\<exists>w n. reach ((=) sample_forked) (setup_step id)
     \<lparr>su_child = (w, child_ready log_os 4 n plain_config), su_child_sent = [(0, []), send_fd n], su_child_read = 0,
      su_parent = ((0, []), parent_main sample_parent [] 77), su_parent_sent = [], su_parent_read = 0\<rparr>"
proof -
  let ?c = "plain_config" and ?p = "(0, []) :: nat \<times> (nat \<times> (ipv4 \<times> u16)) list"
  let ?S = "\<lambda>c cs cr p ps pr. \<lparr>su_child = c, su_child_sent = cs, su_child_read = cr,
      su_parent = p, su_parent_sent = ps, su_parent_read = pr\<rparr>"
  let ?r = "reach ((=) sample_forked) (setup_step id)"
  let ?w0 = "\<lparr>lw_fds = [0, 1, 2, 4], lw_temps = [], lw_trace = []\<rparr>"
  have pc: "publishes ?c = []" "bind_mounts ?c = []" "command ?c = [''sh'']" by (simp_all add: plain_config_def)
  have nf: "parent_main P specs i \<noteq> Fail e" "parent_ready d bs \<noteq> Fail e" "\<not> ended (child_ready L k d cfg)"
    for P :: "('x, 'y) parent_lib" and specs i e d and bs :: "'z bound_publish list" and L :: "'v os_lib"
      and k and cfg :: "'u app_config"
    by (simp_all add: parent_main_def parent_ready_def child_ready_def ended_def)
  have "sample_forked = ?S (?w0, child_main log_os OtherArch 4 ?c) [] 0 (?p, parent_main sample_parent [] 77) [] 0"
    by (simp add: sample_forked_def forked_def pc)
  then have r0: "?r (?S (?w0, child_main log_os OtherArch 4 ?c) [] 0 (?p, parent_main sample_parent [] 77) [] 0)"
    by (intro reach_init)
  obtain w1 where w1: "create_namespace log_os ?w0 = (w1, Inr False)" using log_create_namespace by blast
  have r1: "?r (?S (w1, child_signal log_os OtherArch 4 ?c False) [] 0 (?p, parent_main sample_parent [] 77) [] 0)"
    using reach_child [OF r0 [unfolded child_main_def] do_local_call [of "create_namespace log_os", OF w1]] by simp
  have r2: "?r (?S (w1, child_setup log_os OtherArch 4 ?c) [(0, [])] 0 (?p, parent_main sample_parent [] 77) [] 0)"
    using reach_child [OF r1 [unfolded child_signal_def] do_write_byte] by (simp add: nf)
  obtain w2 where w2: "bringup_loopback log_os w1 = (w2, Inr ())" using log_bringup_loopback by blast
  have r3: "?r (?S (w2, child_tun log_os OtherArch 4 ?c) [(0, [])] 0 (?p, parent_main sample_parent [] 77) [] 0)"
    using reach_child [OF r2 [unfolded child_setup_def] do_local_call [of "bringup_loopback log_os", OF w2]] by simp
  obtain w3 n where w3: "create_tun log_os OtherArch w2 = (w3, Inr n)" using log_create_tun by blast
  have r4: "?r (?S (w3, child_mounts log_os 4 n ?c) [(0, [])] 0 (?p, parent_main sample_parent [] 77) [] 0)"
    using reach_child [OF r3 [unfolded child_tun_def] do_local_call [of "create_tun log_os OtherArch", OF w3]] by simp
  obtain w4 where w4: "setup_mount_namespace log_os (bind_mounts ?c) w3 = (w4, Inr ())"
    using log_setup_mount pc by metis
  have r5: "?r (?S (w4, child_send log_os 4 n ?c) [(0, [])] 0 (?p, parent_main sample_parent [] 77) [] 0)"
    using reach_child [OF r4 [unfolded child_mounts_def] do_local_call [of "setup_mount_namespace log_os (bind_mounts ?c)", OF w4]] by simp
  have "?r (?S (w4, child_ready log_os 4 n ?c) [(0, []), send_fd n] 0 (?p, parent_main sample_parent [] 77) [] 0)"
    using reach_child [OF r5 [unfolded child_send_def] do_send_fd] by (simp add: nf)
  then show ?thesis by blast
qed

lemma sample_run:
  "\<exists>w pw n cs cr ps pr. reach ((=) sample_forked) (setup_step id)
     \<lparr>su_child = (w, Go [''sh'']), su_child_sent = cs, su_child_read = cr,
      su_parent = (pw, Go (n, [])), su_parent_sent = ps, su_parent_read = pr\<rparr>"
proof -
  let ?c = "plain_config" and ?p = "(0, []) :: nat \<times> (nat \<times> (ipv4 \<times> u16)) list"
  let ?S = "\<lambda>c cs cr p ps pr. \<lparr>su_child = c, su_child_sent = cs, su_child_read = cr,
      su_parent = p, su_parent_sent = ps, su_parent_read = pr\<rparr>"
  let ?r = "reach ((=) sample_forked) (setup_step id)"
  have pc: "publishes ?c = []" "bind_mounts ?c = []" "command ?c = [''sh'']" by (simp_all add: plain_config_def)
  have nf: "parent_main P specs i \<noteq> Fail e" "parent_ready d bs \<noteq> Fail e" "\<not> ended (child_ready L k d cfg)"
    for P :: "('x, 'y) parent_lib" and specs i e d and bs :: "'z bound_publish list" and L :: "'v os_lib"
      and k and cfg :: "'u app_config"
    by (simp_all add: parent_main_def parent_ready_def child_ready_def ended_def)
  obtain w4 n where
    r6: "?r (?S (w4, child_ready log_os 4 n ?c) [(0, []), send_fd n] 0 (?p, parent_main sample_parent [] 77) [] 0)"
    using sample_run_child by blast
  have r7: "?r (?S (w4, child_ready log_os 4 n ?c) [(0, []), send_fd n] 0 (?p, parent_recv sample_parent []) [] 1)"
    using reach_parent [OF r6 [unfolded parent_main_def] do_read_byte [where b = 0 and rights = "[]" and i = "[send_fd n]"]] by simp
  have r8: "?r (?S (w4, child_ready log_os 4 n ?c) [(0, []), send_fd n] 0 (?p, parent_bind sample_parent [] n) [] 2)"
    using reach_parent [OF r7 [unfolded parent_recv_def] do_recv_fd [where d = n and i = "[]"]] by (simp add: numeral_2_eq_2)
  have b: "bind_publish_specs (pm_listen sample_parent) ?p [] = (?p, Inr [])"
    by (simp add: bind_publish_specs_def)
  have r9: "?r (?S (w4, child_ready log_os 4 n ?c) [(0, []), send_fd n] 0 (?p, parent_runtime sample_parent n []) [] 2)"
    using reach_parent [OF r8 [unfolded parent_bind_def] do_local_call [of "\<lambda>w. bind_publish_specs (pm_listen sample_parent) w []", OF b]] by simp
  have rt: "build_runtime sample_parent [] ?p = (?p, Inr [])"
    by (simp add: build_runtime_def sample_parent_def register_publish_specs_def)
  have r10: "?r (?S (w4, child_ready log_os 4 n ?c) [(0, []), send_fd n] 0 (?p, parent_ready n []) [] 2)"
    using reach_parent [OF r9 [unfolded parent_runtime_def] do_local_call [of "build_runtime sample_parent []", OF rt]] by simp
  have r11: "?r (?S (w4, child_ready log_os 4 n ?c) [(0, []), send_fd n] 0 (?p, Go (n, [])) [(1, [])] 2)"
    using reach_parent [OF r10 [unfolded parent_ready_def] do_write_byte] by (simp add: nf)
  have r12: "?r (?S (w4, child_launch log_os 4 n ?c) [(0, []), send_fd n] 1 (?p, Go (n, [])) [(1, [])] 2)"
    using reach_child [OF r11 [unfolded child_ready_def] do_read_byte [where b = 1 and rights = "[]" and i = "[]"]] by simp
  have "?r (?S (sys_ignore log_os (Close n) (sys_ignore log_os (Close 4) w4), Go (command ?c)) [(0, []), send_fd n] 1
      (?p, Go (n, [])) [(1, [])] 2)"
    using reach_child [OF r12 [unfolded child_launch_def] do_local [OF refl]] by simp
  then show ?thesis unfolding pc by blast
qed

theorem command_starts_prepared_witness:
  "\<exists>s. reach ((=) sample_forked) (setup_step id) s \<and> snd (su_child s) = Go [''sh''] \<and>
     fds (log_view (fst (su_child s))) = {0, 1, 2}"
proof -
  from sample_run obtain s where s: "reach ((=) sample_forked) (setup_step id) s" "snd (su_child s) = Go [''sh'']"
    by fastforce
  from command_starts_prepared [OF log_os_spec sample_parent_spec sample_main s]
  have "fds (log_view (fst (su_child s))) = {0, 1, 2}" by (auto simp: log_view_def)
  with s show ?thesis by blast
qed

theorem setup_never_deadlocks_witness:
  "\<exists>s. reach ((=) sample_forked) (setup_step id) s \<and> ended (snd (su_child s)) \<and> ended (snd (su_parent s))"
proof -
  from sample_run obtain s x where s: "reach ((=) sample_forked) (setup_step id) s" "snd (su_child s) = Go [''sh'']"
    "snd (su_parent s) = Go x" by fastforce
  have "idle (parent_open s) (drop (su_child_read s) (su_parent_sent s)) (snd (su_child s))"
    "idle (child_open s) (drop (su_parent_read s) (su_child_sent s)) (snd (su_parent s))"
    using s(2,3) by (simp_all add: idle_def)
  from setup_never_deadlocks [OF log_os_spec sample_parent_spec sample_main s(1) this] s(1)
  show ?thesis by blast
qed

end
