(* ===== verification/Parent_Run.thy ===== *)
theory Parent_Run
  imports Event_Loop Setup_Protocol
begin

text \<open>
  The asynchronous part of \<open>parent_main\<close> (\<open>src/src/main.rs\<close>): the event loop runs as a task of its own
  beside the supervision of the child, and the two share the shutdown signal. The tasks are
  interleaved by a step relation. The sequence of the supervisor's own actions is \<open>supervise\<close> of
  Startup; here it is composed with the loop of Event_Loop.
\<close>

section \<open>The two tasks\<close>

text \<open>What the block captures: the arguments of the event loop, the child, and the libraries.\<close>

record ('s, 't, 'i, 'u, 'm, 'r, 'k, 'rs, 'c, 'l, 'a, 'w, 'v) run_env =
  re_libs :: "('s, 't, 'i, 'u, 'm, 'r, 'k, 'rs, 'c, 'l, 'a, 'w) libs"
  re_tun_fd :: int
  re_config :: "'rs app_config"
  re_registered :: "'l bound_publish list"
  re_sock :: int
  re_child :: pid
  re_proc :: "'v proc_lib"
  re_os :: "'v os_lib"

definition run_env_of ::
  "('s, 't, 'i, 'u, 'm, 'r, 'k, 'rs, 'c, 'l, 'a, 'w) libs \<Rightarrow> int \<Rightarrow> 'rs app_config \<Rightarrow> 'l bound_publish list \<Rightarrow>
   int \<Rightarrow> pid \<Rightarrow> 'v proc_lib \<Rightarrow> 'v os_lib \<Rightarrow> ('s, 't, 'i, 'u, 'm, 'r, 'k, 'rs, 'c, 'l, 'a, 'w, 'v) run_env" where
  "run_env_of P tun_fd config registered sock child_pid proc kern =
     \<lparr>re_libs = P, re_tun_fd = tun_fd, re_config = config, re_registered = registered, re_sock = sock,
      re_child = child_pid, re_proc = proc, re_os = kern\<rparr>"

lemma run_env_of_sel:
  "re_libs (run_env_of P tun_fd config registered sock child_pid proc kern) = P"
  "re_config (run_env_of P tun_fd config registered sock child_pid proc kern) = config"
  by (simp_all add: run_env_of_def)

text \<open>
  The task of the event loop; the error \<open>ElPanic\<close> stands for a task that panicked. The supervisor
  forwards signals until the child has ended, then waits for the loop, then exits. \<open>pr_pools\<close> is a
  record for the properties: the pool of fake addresses at the end of every tick so far.
\<close>

datatype 'e loop_task = LoopSpawned | LoopRunning 'e | LoopEnded "el_error + unit"

datatype sup_phase = Forwarding | Joining join_result | Exiting int

record ('e, 'v) parent_run =
  pr_loop :: "'e loop_task"
  pr_shutdown :: bool
  pr_phase :: sup_phase
  pr_world :: 'v
  pr_pools :: "fake_dns set"

definition parent_spawn :: "'v \<Rightarrow> ('e, 'v) parent_run" where
  "parent_spawn v = \<lparr>pr_loop = LoopSpawned, pr_shutdown = False, pr_phase = Forwarding, pr_world = v, pr_pools = {}\<rparr>"

text \<open>
  A round of the loop sees the shutdown signal as it is when the wait ends; before, it may have
  seen the value from before the signal was set.
\<close>

definition round_sees :: "bool \<Rightarrow> round \<Rightarrow> bool" where
  "round_sees shutdown r \<longleftrightarrow> rounds_ok [r] \<and> (rd_shutdown r \<longrightarrow> shutdown) \<and> rd_shutdown' r = shutdown"

abbreviation waits ::
  "('s, 't, 'i, 'u, 'm, 'r, 'k, 'rs, 'c, 'l, 'a, 'w) libs \<Rightarrow> round \<Rightarrow>
   ('s, 't, 'i, 'u, 'r, 'k, 'rs, 'c, 'a, 'w) event_loop \<Rightarrow>
   panic + (('s, 't, 'i, 'u, 'r, 'k, 'rs, 'c, 'a, 'w) event_loop \<times> bool option)" where
  "waits P r \<equiv> wait_for_work P (rd_now r) (rd_shutdown r) (rd_wakes r) (rd_shutdown' r)"

text \<open>
  The steps: the task builds the loop or fails; a round of the loop ticks, ends the loop, or
  panics; the supervisor passes a signal on, notices the end of the child and sets the shutdown
  signal, and exits when the loop's task has ended or the two seconds have passed.
\<close>

inductive parent_step ::
  "('s, 't, 'i, 'u, 'm, 'r, 'k, 'rs, 'c, 'l, 'a, 'w, 'v) run_env \<Rightarrow>
   (('s, 't, 'i, 'u, 'r, 'k, 'rs, 'c, 'a, 'w) event_loop, 'v) parent_run \<Rightarrow>
   (('s, 't, 'i, 'u, 'r, 'k, 'rs, 'c, 'a, 'w) event_loop, 'v) parent_run \<Rightarrow> bool"
  for E where
  loop_built: "pr_loop s = LoopSpawned \<Longrightarrow>
    el_new (re_libs E) (re_tun_fd E) (re_config E) (re_registered E) wall now rt w = Inr self \<Longrightarrow>
    parent_step E s (s\<lparr>pr_loop := LoopRunning self\<rparr>)"
| loop_refused: "pr_loop s = LoopSpawned \<Longrightarrow>
    el_new (re_libs E) (re_tun_fd E) (re_config E) (re_registered E) wall now rt w = Inl e \<Longrightarrow>
    parent_step E s (s\<lparr>pr_loop := LoopEnded (Inl e)\<rparr>)"
| loop_ticks: "pr_loop s = LoopRunning self \<Longrightarrow> round_sees (pr_shutdown s) r \<Longrightarrow>
    waits (re_libs E) r self = Inr (self1, Some True) \<Longrightarrow> tick (re_libs E) (rd_schedule r) self1 = Some (Inr self2) \<Longrightarrow>
    parent_step E s (s\<lparr>pr_loop := LoopRunning self2, pr_pools := insert (dns_pool (el_dns self2)) (pr_pools s)\<rparr>)"
| loop_ends: "pr_loop s = LoopRunning self \<Longrightarrow> round_sees (pr_shutdown s) r \<Longrightarrow>
    waits (re_libs E) r self = Inr (self1, Some False) \<Longrightarrow>
    parent_step E s (s\<lparr>pr_loop := LoopEnded (Inr ())\<rparr>)"
| wait_panics: "pr_loop s = LoopRunning self \<Longrightarrow> round_sees (pr_shutdown s) r \<Longrightarrow>
    waits (re_libs E) r self = Inl p \<Longrightarrow>
    parent_step E s (s\<lparr>pr_loop := LoopEnded (Inl ElPanic)\<rparr>)"
| tick_panics: "pr_loop s = LoopRunning self \<Longrightarrow> round_sees (pr_shutdown s) r \<Longrightarrow>
    waits (re_libs E) r self = Inr (self1, Some True) \<Longrightarrow> tick (re_libs E) (rd_schedule r) self1 = Some (Inl p) \<Longrightarrow>
    parent_step E s (s\<lparr>pr_loop := LoopEnded (Inl ElPanic)\<rparr>)"
| signal_forwarded: "pr_phase s = Forwarding \<Longrightarrow>
    parent_step E s (s\<lparr>pr_world := fst (forward_signal (re_proc E) (re_child E) sig (pr_world s))\<rparr>)"
| child_ended: "pr_phase s = Forwarding \<Longrightarrow>
    parent_step E s (s\<lparr>pr_phase := Joining status, pr_shutdown := True\<rparr>)"
| loop_joined: "pr_phase s = Joining status \<Longrightarrow> pr_loop s = LoopEnded result \<or> timed_out \<Longrightarrow>
    parent_step E s (s\<lparr>pr_phase := Exiting (exit_code status),
      pr_world := sys_ignore (re_os E) (Close (re_sock E)) (sys_ignore (re_os E) (Close (re_tun_fd E)) (pr_world s))\<rparr>)"

inductive_cases parent_stepE: "parent_step E s t"

section \<open>The invariant\<close>

definition loop_ok ::
  "('s, 't, 'i, 'u, 'm, 'r, 'k, 'rs, 'c, 'l, 'a, 'w, 'v) run_env \<Rightarrow> ('s, 't, 'k) ob_logs \<Rightarrow> fake_dns set \<Rightarrow>
   bool \<Rightarrow> ('s, 't, 'i, 'u, 'r, 'k, 'rs, 'c, 'a, 'w) event_loop loop_task \<Rightarrow> bool" where
  "loop_ok E L past shutdown task \<longleftrightarrow>
     (case task of
        LoopSpawned \<Rightarrow> True
      | LoopRunning self \<Rightarrow> el_inv (re_libs E) L past self \<and> el_config self = re_config E
      | LoopEnded (Inr u) \<Rightarrow> shutdown
      | LoopEnded (Inl e) \<Rightarrow>
          \<exists>wall now rt w. el_new (re_libs E) (re_tun_fd E) (re_config E) (re_registered E) wall now rt w = Inl e)"

definition run_ok ::
  "('s, 't, 'i, 'u, 'm, 'r, 'k, 'rs, 'c, 'l, 'a, 'w, 'v) run_env \<Rightarrow> ('s, 't, 'k) ob_logs \<Rightarrow>
   (('s, 't, 'i, 'u, 'r, 'k, 'rs, 'c, 'a, 'w) event_loop, 'v) parent_run \<Rightarrow> bool" where
  "run_ok E L s \<longleftrightarrow> loop_ok E L (pr_pools s) (pr_shutdown s) (pr_loop s) \<and> (pr_shutdown s \<longleftrightarrow> pr_phase s \<noteq> Forwarding)"

lemma loop_ok_simps [simp]:
  "loop_ok E L past shutdown LoopSpawned"
  "loop_ok E L past shutdown (LoopRunning self) \<longleftrightarrow> el_inv (re_libs E) L past self \<and> el_config self = re_config E"
  "loop_ok E L past shutdown (LoopEnded (Inr u)) \<longleftrightarrow> shutdown"
  "loop_ok E L past shutdown (LoopEnded (Inl e)) \<longleftrightarrow>
     (\<exists>wall now rt w. el_new (re_libs E) (re_tun_fd E) (re_config E) (re_registered E) wall now rt w = Inl e)"
  by (simp_all add: loop_ok_def)

lemma loop_ok_shutdown: "loop_ok E L past shutdown task \<Longrightarrow> loop_ok E L past True task"
  by (auto simp: loop_ok_def split: loop_task.splits sum.splits)

text \<open>A wait that has completed answers whether the shutdown signal is not set.\<close>

lemma waits_answer:
  assumes "round_sees shutdown r" and "waits P r self = Inr (self1, Some go)"
  shows "go \<longleftrightarrow> \<not> shutdown"
  using assms by (auto simp: round_sees_def wait_for_work_def Let_def result_bind_Inr_iff split: if_splits)

lemma waits_step:
  assumes "el_env P B L datagrams messages backlog" and "round_sees shutdown r" and "el_inv P L past self"
  shows "\<exists>self1 answer. waits P r self = Inr (self1, answer) \<and> el_inv P L past self1 \<and> el_config self1 = el_config self"
  using assms(2) by (intro wait_for_work_step [OF assms(1) _ assms(3)]) (simp add: round_sees_def rounds_ok_def)

text \<open>The rounds of a running loop neither panic nor end it early.\<close>

lemma round_outcome:
  assumes env: "el_env P B L datagrams messages backlog" and routes: "\<And>target. \<exists>p. proxy_for (regex P) (el_config self) target = Inr p"
    and inv: "el_inv P L past self" and r: "round_sees shutdown r"
  shows "waits P r self \<noteq> Inl p" "waits P r self = Inr (self1, Some False) \<Longrightarrow> shutdown"
    "waits P r self = Inr (self1, Some True) \<Longrightarrow>
       \<not> shutdown \<and> (\<exists>self2. tick P (rd_schedule r) self1 = Some (Inr self2) \<and> el_inv P L (insert (dns_pool (el_dns self2)) past) self2 \<and> el_config self2 = el_config self)"
proof -
  from waits_step [OF env r inv] obtain self' answer where
    w: "waits P r self = Inr (self', answer)" "el_inv P L past self'" "el_config self' = el_config self" by blast
  then show "waits P r self \<noteq> Inl p" by simp
  show "waits P r self = Inr (self1, Some False) \<Longrightarrow> shutdown" using waits_answer [OF r] by blast
  assume go: "waits P r self = Inr (self1, Some True)"
  with w have self1: "el_inv P L past self1" "el_config self1 = el_config self" by simp_all
  have "schedule_ok (rd_schedule r)" using r by (simp add: round_sees_def rounds_ok_def)
  moreover have "\<exists>p. proxy_for (regex P) (el_config self1) target = Inr p" for target using routes self1(2) by simp
  ultimately show "\<not> shutdown \<and> (\<exists>self2. tick P (rd_schedule r) self1 = Some (Inr self2) \<and> el_inv P L (insert (dns_pool (el_dns self2)) past) self2 \<and> el_config self2 = el_config self)"
    using tick_step [OF env _ _ self1(1)] self1(2) waits_answer [OF r go] by fastforce
qed

lemma run_ok_step:
  assumes env: "el_env (re_libs E) B L datagrams messages backlog"
    and routes: "\<And>target. \<exists>p. proxy_for (regex (re_libs E)) (re_config E) target = Inr p"
    and ok: "run_ok E L s" and step: "parent_step E s t"
  shows "run_ok E L t"
  using step
proof cases
  case (loop_built wall now rt w self)
  with ok el_new_inv [OF loop_built(3), of L "pr_pools s"] show ?thesis by (simp add: run_ok_def)
next
  case (loop_refused wall now rt w e)
  with ok show ?thesis by (auto simp: run_ok_def)
next
  case (loop_ticks self r self1 self2)
  with ok have inv: "el_inv (re_libs E) L (pr_pools s) self" "el_config self = re_config E" by (simp_all add: run_ok_def)
  have "\<exists>p. proxy_for (regex (re_libs E)) (el_config self) target = Inr p" for target using routes inv(2) by simp
  from round_outcome(3) [OF env this inv(1) loop_ticks(3,4)] loop_ticks(1,5) inv(2) ok show ?thesis
    by (auto simp: run_ok_def)
next
  case (loop_ends self r self1)
  with ok waits_answer [OF loop_ends(3,4)] show ?thesis by (simp add: run_ok_def)
next
  case (wait_panics self r p)
  with ok have inv: "el_inv (re_libs E) L (pr_pools s) self" by (simp add: run_ok_def)
  from waits_step [OF env wait_panics(3) inv] wait_panics(4) show ?thesis by simp
next
  case (tick_panics self r self1 p)
  with ok have inv: "el_inv (re_libs E) L (pr_pools s) self" "el_config self = re_config E" by (simp_all add: run_ok_def)
  have "\<exists>p. proxy_for (regex (re_libs E)) (el_config self) target = Inr p" for target using routes inv(2) by simp
  from round_outcome(3) [OF env this inv(1) tick_panics(3,4)] tick_panics(5) show ?thesis by simp
qed (use ok in \<open>auto simp: run_ok_def intro: loop_ok_shutdown\<close>)

lemma run_component:
  assumes "el_env (re_libs E) B L datagrams messages backlog"
    and "\<And>target. \<exists>p. proxy_for (regex (re_libs E)) (re_config E) target = Inr p"
  shows "component ((=) (parent_spawn v)) (parent_step E) (run_ok E L)"
proof unfold_locales
  show "run_ok E L s" if "parent_spawn v = s" for s
    using that by (auto simp: run_ok_def parent_spawn_def)
qed (rule run_ok_step [OF assms])

lemma run_serves:
  assumes "el_env (re_libs E) B L datagrams messages backlog" and "regex_set_spec (regex (re_libs E)) is_match"
    and "built_from (regex (re_libs E)) rule_list (re_config E)"
    and "reach ((=) (parent_spawn v)) (parent_step E) s"
  shows "run_ok E L s"
    and "pr_phase s = Forwarding \<Longrightarrow> \<not> pr_shutdown s \<and> pr_loop s \<noteq> LoopEnded (Inr ())"
    and "pr_loop s = LoopRunning self \<Longrightarrow> ob_states (el_outbound self) h = Some (Established ctx) \<Longrightarrow>
      \<exists>t. el_sockets self h = Some (Tcp t) \<and> tunnel (regex (re_libs E)) (re_config E) (net (re_libs E)) L (pr_pools s) ctx t"
proof -
  show ok: "run_ok E L s"
    by (rule component.reach_inv [OF run_component [OF assms(1) proxy_for_no_panic [OF assms(2,3)]] assms(4)])
  then show "pr_phase s = Forwarding \<Longrightarrow> \<not> pr_shutdown s \<and> pr_loop s \<noteq> LoopEnded (Inr ())"
    by (auto simp: run_ok_def)
  assume "pr_loop s = LoopRunning self" "ob_states (el_outbound self) h = Some (Established ctx)"
  with el_inv_tunnel [OF _ this(2)] ok
  show "\<exists>t. el_sockets self h = Some (Tcp t) \<and> tunnel (regex (re_libs E)) (re_config E) (net (re_libs E)) L (pr_pools s) ctx t"
    by (fastforce simp: run_ok_def)
qed

text \<open>When the child has ended, the next wait of a loop whose timer works ends the loop.\<close>

lemma shutdown_ends_task:
  assumes "el_env (re_libs E) B L datagrams messages backlog" and ok: "run_ok E L s" and "pr_phase s \<noteq> Forwarding"
    and loop: "pr_loop s = LoopRunning self" and r: "round_sees True r"
    and late: "\<exists>wake \<in> set (rd_wakes r). MAX_POLL_DELAY \<le> woken_after wake"
  shows "parent_step E s (s\<lparr>pr_loop := LoopEnded (Inr ())\<rparr>)"
proof -
  from ok loop assms(3) have inv: "el_inv (re_libs E) L (pr_pools s) self" "pr_shutdown s" by (simp_all add: run_ok_def)
  have "\<forall>wake \<in> set (rd_wakes r). schedule_ok (wake_schedule wake)" using r by (simp add: round_sees_def rounds_ok_def)
  from wait_for_work_completes [OF assms(1) this inv(1) late] obtain self1 where
    w: "waits (re_libs E) r self = Inr (self1, Some (\<not> rd_shutdown r \<and> \<not> rd_shutdown' r))" by blast
  from r have "rd_shutdown' r" by (simp add: round_sees_def)
  with w have "waits (re_libs E) r self = Inr (self1, Some False)" by simp
  with loop r inv(2) show ?thesis by (auto intro: loop_ends)
qed

section \<open>Properties\<close>


section \<open>Witnesses\<close>

text \<open>A loop that is built, woken by its timer and ticks while a signal is forwarded.\<close>

definition sample_run_env ::
  "(script, pipe, unit, bytes list \<times> bytes list, unit, unit, proxy_config \<times> proxy_target, string list,
    script accepted_connection list, nat, unit, bytes list, tree_world) run_env" where
  "sample_run_env = \<lparr>re_libs = sample_libs [], re_tun_fd = 3, re_config = plain_config, re_registered = [], re_sock = 4,
     re_child = 77, re_proc = tree_lib, re_os = quiet_os\<rparr>"


end
