(* ===== verification/Unit_Tests.thy ===== *)
theory Unit_Tests
  imports Parent_Run
begin

text \<open>
  The unit tests of the sources that need no runtime, stated of the model: each lemma has the name
  of the test and its assertions, on the definitions the test calls. They tie the definitions
  to what the sources' authors expect of the code; the regex crate, which some of the tests of
  the rules exercise, is a parameter of the model, so of those only the part about addresses and
  syntax is here.
\<close>

section \<open>Fake DNS\<close>

lemma resolve_and_lookup:
  "case resolve new ''example.com'' of (dns, ip) \<Rightarrow> lookup dns ip = Some ''example.com''"
  by code_simp

lemma same_domain_same_ip:
  "case resolve new ''example.com'' of (dns, ip1) \<Rightarrow> snd (resolve dns ''example.com'') = ip1"
  by code_simp

lemma different_domains_get_different_ips:
  "case resolve new ''foo.example.com'' of (dns, ip1) \<Rightarrow> snd (resolve dns ''bar.example.com'') \<noteq> ip1"
  by code_simp

lemma unknown_ip_returns_none: "lookup new (ipv4_new 1 2 3 4) = None"
  by code_simp

lemma is_fake_ip_inside_pool:
  "is_fake_ip new (ipv4_new 198 18 0 1)" "is_fake_ip new (ipv4_new 198 19 255 254)"
  "is_fake_ip new (ipv4_new 198 18 128 1)" "is_fake_ip new (ipv4_new 198 19 0 1)"
  by code_simp+

lemma is_fake_ip_outside_pool:
  "\<not> is_fake_ip new (ipv4_new 198 18 0 0)" "\<not> is_fake_ip new (ipv4_new 198 19 255 255)"
  "\<not> is_fake_ip new (ipv4_new 198 17 255 255)" "\<not> is_fake_ip new (ipv4_new 198 20 0 1)"
  "\<not> is_fake_ip new (ipv4_new 1 1 1 1)" "\<not> is_fake_ip new (ipv4_new 192 168 1 1)"
  by code_simp+

lemma first_allocation_starts_at_pool_start: "snd (resolve new ''first.test'') = POOL_START"
  by code_simp

text \<open>The test fills the pool with as many domains as it has addresses; so do any distinct ones.\<close>

definition fill_pool :: "string list \<Rightarrow> fake_dns" where
  "fill_pool domains_in = fold (\<lambda>s d. fst (resolve d s)) domains_in new"

lemma fill_pool_refines: "distinct domains_in \<Longrightarrow> refines domains_in (fill_pool domains_in)"
proof (induction domains_in rule: rev_induct)
  case (snoc s domains_in)
  then have IH: "refines domains_in (fill_pool domains_in)" and s: "s \<notin> set domains_in" by simp_all
  have "domain_to_ip (fill_pool domains_in) s \<noteq> Some ip" for ip
    using IH s by (auto simp: refines_def entry_def live_def)
  then have "domain_to_ip (fill_pool domains_in) s = None" by auto
  from refines_resolve_new(3) [OF IH this] show ?case by (simp add: fill_pool_def)
qed (simp add: fill_pool_def refines_new)

lemma wrap_around_overwrites_oldest_mapping:
  assumes "distinct domains_in" and "length domains_in = pool_size" and "s \<notin> set domains_in" and "resolve (fill_pool domains_in) s = (dns, ip)"
  shows "ip = POOL_START" and "lookup dns POOL_START = Some s" and "domain_to_ip dns (hd domains_in) = None"
proof -
  note R = fill_pool_refines [OF assms(1)]
  then have none: "domain_to_ip (fill_pool domains_in) s = None"
    using assms(3) by (cases "domain_to_ip (fill_pool domains_in) s") (auto simp: refines_def entry_def live_def)
  show ip: "ip = POOL_START"
    using refines_resolve_new(2) [OF R none] assms(2,4) by (simp add: slot_def)
  have "fake_dns_ok (fill_pool domains_in)" using R by (auto simp: fake_dns_ok_def)
  from fd.resolve_lookup [OF this, of s] assms(4) ip show "lookup dns POOL_START = Some s" by simp
  have new: "refines (domains_in @ [s]) dns" using refines_resolve_new(3) [OF R none] assms(4) by simp
  have "domains_in \<noteq> []" using assms(2) by auto
  then have first: "hd domains_in = domains_in ! 0" "0 < length domains_in" by (simp_all add: hd_conv_nth)
  have "\<not> entry (domains_in @ [s]) (hd domains_in) a" for a
  proof
    assume "entry (domains_in @ [s]) (hd domains_in) a"
    then obtain i where i: "live (domains_in @ [s]) i" "(domains_in @ [s]) ! i = domains_in ! 0" unfolding entry_def first(1) by blast
    then have "0 < i" using assms(2) by (simp add: live_def)
    moreover have "i < length domains_in" using i assms(3) first by (cases "i < length domains_in") (auto simp: live_def nth_append split: if_splits)
    ultimately show False using i(2) assms(1) first(2) by (simp add: nth_append nth_eq_iff_index_eq)
  qed
  with new show "domain_to_ip dns (hd domains_in) = None"
    by (cases "domain_to_ip dns (hd domains_in)") (auto simp: refines_def)
qed

section \<open>DNS packets\<close>

definition make_query :: "u16 \<Rightarrow> string \<Rightarrow> u16 \<Rightarrow> bytes" where
  "make_query ident domain qtype =
     encode_name (be16 ident @ be16 0x0100 @ be16 1 @ be16 0 @ be16 0 @ be16 0) domain @ be16 qtype @ be16 1"

lemma parse_query_a_record:
  "parse_query (make_query 0x1234 ''example.com'' 1) = Inr (Some (0x1234, ''example.com'', 1))"
  by code_simp

lemma parse_query_aaaa_record:
  "parse_query (make_query 0xBEEF ''ipv6.example.com'' 28) = Inr (Some (0xBEEF, ''ipv6.example.com'', 28))"
  by code_simp

lemma root_ns_query_preserves_question_wire_format:
  "let query = [0x12, 0x34, 1, 0, 0, 1, 0, 0, 0, 0, 0, 0, 0, 0, 2, 0, 1] in
   parse_query query = Inr (Some (0x1234, '''', 2)) \<and>
   drop 12 (build_empty_response 0x1234 '''' 2) = drop 12 query \<and> length (build_empty_response 0x1234 '''' 2) = 17"
  by code_simp

lemma parse_query_rejects_response: "parse_query ((make_query 1 ''example.com'' 1)[2 := 0x80]) = Inr None"
  by code_simp

lemma parse_query_rejects_too_short: "parse_query (replicate 11 0) = Inr None" "parse_query [] = Inr None"
  by code_simp+

lemma build_a_response_header_fields:
  "take 12 (build_a_response 0xABCD ''test.example.com'' (ipv4_new 198 18 0 42)) =
     be16 0xABCD @ be16 0x8180 @ be16 1 @ be16 1 @ be16 0 @ be16 0"
  by code_simp

lemma build_a_response_ip_in_rdata:
  "let ip = ipv4_new 198 18 7 255; resp = build_a_response 1 ''a.b.c'' ip in drop (length resp - 4) resp = be32 ip"
  by code_simp

lemma build_a_response_uses_name_compression:
  "take 2 (drop 29 (build_a_response 1 ''example.com'' (ipv4_new 198 18 0 1))) = be16 0xC00C"
  by code_simp

lemma build_empty_response_header_fields:
  "take 8 (build_empty_response 0x5678 ''example.com'' 28) = be16 0x5678 @ be16 0x8180 @ be16 1 @ be16 0"
  by code_simp

lemma build_empty_response_echoes_qtype:
  "take 2 (drop 25 (build_empty_response 1 ''example.com'' 28)) = be16 28"
  by code_simp

section \<open>Rules and routes\<close>

definition rule_set :: "string list \<Rightarrow> rule_error + string list rule_matcher" where
  "rule_set = from_specs literal_lib"

lemma requires_match_and_proxy:
  "is_err (rule_set [''ip:1.2.3.4''])" "is_err (rule_set [''=direct''])" "is_err (rule_set [''ip:1.2.3.4=''])"
  "is_err (rule_set [''ip:1.2.3.4=unknown''])"
  by code_simp+

lemma rejects_bad_match_specs:
  "is_err (rule_set [''foo:bar=direct''])" "is_err (rule_set [''cidr:1.2.3.4/40=direct''])"
  "is_err (rule_set [''ip:2001:db8::1=direct''])"
  by code_simp+

section \<open>The HTTP connector\<close>

lemma base64_rfc4648_vectors:
  "map (\<lambda>s. base64_encode (as_bytes s)) [[], ''f'', ''fo'', ''foo'', ''foob'', ''fooba'', ''foobar''] =
     [[], ''Zg=='', ''Zm8='', ''Zm9v'', ''Zm9vYg=='', ''Zm9vYmE='', ''Zm9vYmFy'']"
  by code_simp

lemma base64_credentials: "base64_encode (as_bytes ''Aladdin:open sesame'') = ''QWxhZGRpbjpvcGVuIHNlc2FtZQ==''"
  by code_simp

section \<open>Bind mounts\<close>

text \<open>The directory of the tests: two files, a directory, and links.\<close>

definition test_files :: file_system where
  "test_files = \<lparr>
     symlink_metadata = (\<lambda>p.
       case map_of [(''/etc/resolv.conf'', (1, Symlink)), (''/etc/nsswitch.conf'', (2, RegularFile)), (''/t'', (3, OtherFile)),
           (''/t/source'', (4, RegularFile)), (''/t/target'', (5, RegularFile)), (''/t/source-two'', (6, RegularFile)),
           (''/t/source-link'', (7, Symlink)), (''/t/target-link'', (8, Symlink))] p of
         None \<Rightarrow> Inl 2 | Some (ino, ty) \<Rightarrow> Inr \<lparr>md_dev = 1, md_ino = ino, md_type = ty\<rparr>),
     current_dir = Inr ''/t''\<rparr>"

lemma parses_absolute_and_relative_file_paths:
  "parse_bind_mounts test_files [''/t/source:/t/target''] ''/t'' = Inr [\<lparr>bm_source = ''/t/source'', bm_target = ''/t/target''\<rparr>]"
  "parse_bind_mounts test_files [''source:target''] ''/t'' = Inr [\<lparr>bm_source = ''/t/source'', bm_target = ''/t/target''\<rparr>]"
  by code_simp+

lemma rejects_invalid_bind_syntax:
  "list_all (\<lambda>spec. is_err (parse_bind_mounts test_files [spec] ''/t'')) [''source'', '':target'', ''source:'', ''a:b:c'']"
  by code_simp

lemma rejects_missing_paths_and_directories:
  "list_all (\<lambda>spec. is_err (parse_bind_mounts test_files [spec] ''/t'')) [''missing:target'', ''source:missing'', ''/t:/t/target'', ''/t/source:/t'']"
  by code_simp

lemma preserves_valid_and_dangling_symlink_objects:
  "parse_bind_mounts test_files [''source-link:target-link''] ''/t'' =
     Inr [\<lparr>bm_source = ''/t/source-link'', bm_target = ''/t/target-link''\<rparr>]"
  by code_simp

lemma rejects_duplicate_and_internal_targets:
  "is_err (parse_bind_mounts test_files [''source:target'', ''source-two:./target''] ''/t'')"
  "is_err (parse_bind_mounts test_files [''source:/etc/resolv.conf''] ''/t'')"
  by code_simp+

end
