(* ===== verification/Spec2Isabelle.thy ===== *)
theory Spec2Isabelle
  imports Parent_Run Unit_Tests Parser_Tests
begin

text \<open>
  Verification of nsproxy-rs: a program that runs a command in a network namespace of its own and
  forwards the command's traffic through proxies, by rule.

  The program. \<open>main\<close> (\<open>src/src/main.rs\<close>) parses the command line into a configuration and forks.
  The child enters new namespaces, creates a TUN device, mounts a resolver configuration that
  names a fake resolver, sends the device's descriptor to the parent (\<open>fd_passing.rs\<close>) and, when the
  parent gives the go-ahead, runs the command under a reaper (\<open>namespace.rs\<close>, \<open>process.rs\<close>). The
  parent writes the identity maps, binds the published ports (\<open>publish.rs\<close>), gives the go-ahead,
  runs the event loop and passes signals and the exit code on. The event loop (\<open>event_loop.rs\<close>)
  drives a user-space network stack on the TUN device (\<open>tun.rs\<close>): its DNS interceptor answers every
  query with an address from a pool of fake addresses (\<open>event_loop/dns.rs\<close>, \<open>fake_dns.rs\<close>), its
  outbound component accepts every connection of the command, turns a fake address back into its
  name, chooses a route by the rules (\<open>config.rs\<close>, \<open>rule.rs\<close>) and connects through the route's
  connector (\<open>proxy/\<close>), and its published component connects host clients into the namespace.

  Foundations.
  \<^item> Prelude: machine integers as words, results \<open>'e + 'a\<close> with \<open>Inl\<close> the error, a panic as an
    error value, indexing with its panic, the state-and-error monad \<open>io\<close> with rules for its
    postconditions, reachable states, and the locale \<open>component\<close> (an initial state, steps, an
    invariant).
  \<^item> Rust_Str, Rust_Net: the parts of \<open>str\<close>, integer parsing and \<open>std::net\<close> that the sources use; a
    string is its UTF-8 bytes.

  Names, rules, routes.
  \<^item> Fake_Dns (\<open>FakeDns\<close>): the two maps and the wrapping offset refine the history of allocations;
    interface \<open>fake_ip_pool\<close>.
  \<^item> Dns_Packet (\<open>parse_query\<close>, \<open>build_a_response\<close>, \<open>build_empty_response\<close>): which datagrams are
    queries, and what the responses contain.
  \<^item> Prefix_Trie, Rule_Matcher (\<open>PrefixTrie\<close>, \<open>RuleMatch\<close>, \<open>RuleMatcher\<close>): the trie is a longest-prefix
    table (locale \<open>longest_prefix_table\<close>); rules are parsed and matched as documented.
  \<^item> Proxy_Config (\<open>ProxyConfig\<close>, \<open>ProxyTarget\<close>): the accepted route URLs, and that printing one shows
    no credentials.
  \<^item> App_Config (\<open>Config\<close>, module \<open>net\<close>): the configuration, the addressing plan and the choice of a
    route.
  \<^item> Publish_Spec (\<open>publish.rs\<close>): accepted publications; binding is all or none.

  Connecting upstream.
  \<^item> Proxy_Stream (\<open>ProxyStream\<close>): bytes left over by a handshake are read before the socket.
  \<^item> Socks5, Base64, Http_Connect (\<open>proxy/socks5.rs\<close>, \<open>proxy/http.rs\<close>): the bytes exchanged in a
    handshake, success against a correct server, and what an error leaves.
  \<^item> Connector (\<open>proxy/direct.rs\<close>, \<open>ProxyConfig::connect\<close>): the locale \<open>proxy_connector\<close> is the contract of
    a route's connector; all three connectors and their dispatch interpret it. An attempt runs
    under the timer of \<open>CONNECT_TIMEOUT\<close>, so it always has a result. Every dial is appended to a log
    (\<open>dial_out\<close>) that the connectors thread through, so that a dial whose result is not used shows.

  The event loop.
  \<^item> Tun (\<open>tun.rs\<close>): the packet queue with its receive and transmit tokens, which refines a queue
    between the descriptor and the stack with every write logged with its result (\<open>packet_log\<close>), and
    the recognition of connection requests.
  \<^item> Stack: the sockets of the stack as a parameter; locale \<open>socket_owner\<close> (a component owns some
    handles and leaves the others alone) and \<open>state_table\<close> (one state per owned handle).
  \<^item> Shuttle: moving bytes between a stream and a socket of the stack; a connection keeps its local
    endpoint (\<open>conn_spec\<close>).
  \<^item> Dns_Interceptor, Outbound_Tcp, Published_Tcp (\<open>event_loop/*.rs\<close>): the three owners of sockets;
    Port_Allocator (\<open>PortAllocator\<close>): source ports, interface \<open>port_pool\<close>. A forwarded connection is a
    \<open>tunnel\<close>: its target is the local endpoint of its socket, translated by a pool of fake addresses
    that the interceptor has had (\<open>aimed\<close>).
  \<^item> Event_Loop (\<open>EventLoop\<close>): construction, waiting, ticks. The owners partition the sockets, so the
    invariant of the loop is the conjunction of theirs. The loop never waits longer than
    \<open>MAX_POLL_DELAY\<close> and ends exactly on shutdown. \<open>tick_pools\<close> records the pool at the end of every
    tick of a run.

  The processes.
  \<^item> Bind_Mounts (\<open>parse_bind_mounts\<close>, \<open>inspect_bind_path\<close>): which mounts are accepted, over a file
    system that answers \<open>symlink_metadata\<close>, described without the code's own check (\<open>names_object\<close>).
  \<^item> Namespace (the rest of \<open>namespace.rs\<close>): every system call with its arguments and error paths. The
    lemmas say which calls a function has performed when it succeeds, that it leaves no descriptor
    behind, and a temporary file only if the kernel did not remove it (\<open>stuck\<close>); the calls of
    \<open>create_tun\<close> are given a meaning as the configuration of an interface, and a mount as the object
    it covers (\<open>covers\<close>): \<open>mount\<close> follows a symbolic link at its target and \<open>move_mount\<close> as the code
    calls it does not, so that a linked \<open>/etc/resolv.conf\<close> is not protected
    (\<open>linked_resolver_covered\<close>).
  \<^item> Process_Tree (\<open>process.rs\<close>): the search for descendants, the deadline, the reaper.
  \<^item> Startup (\<open>main.rs\<close>, \<open>fd_passing.rs\<close>): the configuration, the two processes as trees of actions on
    the setup socket (one definition for each numbered step of \<open>child_main\<close> and \<open>parent_main\<close>), their
    interleaving as the step relation \<open>setup_step\<close> (\<open>origin\<close> says of which descriptor of the sender a
    received descriptor is a copy), and the supervision of the child, whose actions are one log
    (\<open>sup_action\<close>) and so have an order. That a process has ended is read off its program: the
    closing of the inherited copies of the sockets, which makes the other side see it, is part of
    the descriptors that the child holds and not of \<open>setup_step\<close>.
  \<^item> Setup_Protocol: the phases of each process (locale \<open>role\<close>, interpreted on both) fit together in
    every interleaving.
  \<^item> Parent_Run (the asynchronous block of \<open>parent_main\<close>): the task of the event loop beside the
    supervision of the child, interleaved by the step relation \<open>parent_step\<close> over the shared
    shutdown signal. \<open>pr_pools\<close> is a history variable, as \<open>tick_pools\<close> above.
  \<^item> This theory: the property that spans the command line, the setup, the supervision and the event
    loop, and what a name with a line break does.

  Unit_Tests and Parser_Tests state the unit tests of the sources that need no runtime of the model,
  under the names of the tests.

  Parameters. Code that is not in the repository is an argument, a record of the calls the sources
  make: the network library and its buffered reader (\<open>net_lib\<close>, \<open>buf_lib\<close>), the regex crate
  (\<open>regex_lib\<close>), the stack (\<open>tcp_lib\<close>, \<open>udp_lib\<close>, \<open>iface_lib\<close>), tasks and channels (\<open>task_lib\<close>, \<open>chan_lib\<close>,
  \<open>accept_lib\<close>), listeners (\<open>listen_lib\<close>), the kernel (\<open>tun_lib\<close>, \<open>os_lib\<close>, \<open>proc_lib\<close>, \<open>file_system\<close>).
  What the sources rely on is stated by predicates over logs of these calls (\<open>stream_spec\<close>,
  \<open>buf_spec\<close>, \<open>tcp_spec\<close>, \<open>conn_spec\<close>, \<open>udp_spec\<close>, \<open>task_spec\<close>, \<open>chan_spec\<close>, \<open>iface_spec\<close>, \<open>tun_spec\<close>, \<open>listen_spec\<close>,
  \<open>os_spec\<close>, \<open>stat_spec\<close>, \<open>tree_spec\<close>, \<open>wait_spec\<close>, \<open>supervisor_spec\<close>, gathered in \<open>el_env\<close> and \<open>parent_spec\<close>), which the witnesses
  satisfy with small concrete libraries. Every call may fail unless a property says otherwise.

  Choices made outside the program are arguments: iteration orders of hash maps, clock readings
  and wake-ups of the event loop with the time they come after (\<open>schedule\<close>, \<open>round\<close>), the time a
  connection attempt takes (\<open>took\<close>), what a select yields (\<open>sup_event\<close>), the interleaving of the
  processes (\<open>setup_step\<close>) and of the tasks (\<open>parent_step\<close>). A property holds for all of them.

  Loops. Loops over finite data are structural recursion; the label parser and the search for
  descendants are total by a measure (bytes left; process identifiers not seen yet). Loops that
  depend on the outside are partial functions into \<open>option\<close>, and that they return is proved:
  \<open>read_packets\<close>, \<open>dns_loop\<close> and \<open>drain_accepted\<close> when finitely much is waiting, \<open>drain_headers\<close> on a
  finite input, the reaper when the process tree becomes inactive (\<open>finite_activity\<close>). There is no
  fuel. \<open>el_run\<close> takes the list of rounds to run, \<open>supervise\<close> the list of events.

  Not modelled: the command-line parser (clap) before the record \<open>cli\<close>, log output, the internals
  of the runtime (tokio), of the stack (smoltcp) and of the regex crate, the byte layout of C
  structures beyond the fields the code sets, and the text of error messages beyond the context
  that tells the branches apart. Wakers are represented by the result of the polls.
\<close>

section \<open>From the command line to the traffic\<close>

text \<open>
  C1. The processes and the event loop together: when the command of an accepted command line starts,
  the parent holds a copy of the descriptor that the child opened for the TUN device and one
  listener for each publication of that command line; the event loop that it runs on them, beside
  the supervision of the child and in any interleaving with it, does not stop before the child has
  ended, and every connection it forwards is a tunnel through the route that the rules of the
  command line give for its target. The target is the address and port the command connected to,
  which are the local endpoint of the socket, or, for a fake address, the name that the pool had
  for it in a tick of the loop so far.
\<close>

theorem command_traffic_follows_rules:
  assumes "os_spec K V" and "parent_spec M opened" and "el_env P B L datagrams messages backlog"
    and "regex_set_spec (regex P) is_match"
    and "main (regex P) F K arch M args socks fork_result c p = Inr s0"
    and "reach ((=) s0) (setup_step origin) s" and "snd (su_child s) = Go cmd"
  shows "\<exists>cfg tun_fd registered. build_config (regex P) F args = Inr cfg \<and> cmd = cli_command args \<and>
    snd (su_parent s) = Go (tun_fd, registered) \<and> map pub_spec registered = publishes cfg \<and>
    (\<exists>needs_maps earlier es. prepared arch (bind_mounts cfg) needs_maps (origin tun_fd) es \<and>
      trace (V (fst (su_child s))) = earlier @ es) \<and>
    (\<forall>v r. reach ((=) (parent_spawn v)) (parent_step (run_env_of P tun_fd cfg registered sock child_pid proc kern)) r \<longrightarrow>
      (pr_phase r = Forwarding \<longrightarrow> pr_loop r \<noteq> LoopEnded (Inr ())) \<and>
      (\<forall>self h ctx. pr_loop r = LoopRunning self \<longrightarrow> ob_states (el_outbound self) h = Some (Established ctx) \<longrightarrow>
        (\<exists>t. el_sockets self h = Some (Tcp t) \<and> tunnel (regex P) cfg (net P) L (pr_pools r) ctx t)))"
proof -
  from assms(5) obtain cfg child_sock forked_pid c' p' where cfg: "build_config (regex P) F args = Inr cfg"
    and s0: "s0 = forked K arch child_sock M forked_pid cfg c' p'" unfolding main_Inr by blast
  from forked_starts_prepared [OF assms(1,2) assms(6) [unfolded s0] assms(7)] obtain tun_fd registered needs_maps es where
    go: "cmd = command cfg" "snd (su_parent s) = Go (tun_fd, registered)" "map pub_spec registered = publishes cfg"
    and ready: "prepared arch (bind_mounts cfg) needs_maps (origin tun_fd) es" "trace (V (fst (su_child s))) = trace (V c') @ es"
    by blast
  from build_config_built [OF cfg] obtain rules where built: "built_from (regex P) rules cfg" by blast
  let ?E = "run_env_of P tun_fd cfg registered sock child_pid proc kern"
  note run_serves [where E = ?E, unfolded run_env_of_sel, OF assms(3,4) built]
  then have "(pr_phase r = Forwarding \<longrightarrow> pr_loop r \<noteq> LoopEnded (Inr ())) \<and>
      (\<forall>self h ctx. pr_loop r = LoopRunning self \<longrightarrow> ob_states (el_outbound self) h = Some (Established ctx) \<longrightarrow>
        (\<exists>t. el_sockets self h = Some (Tcp t) \<and> tunnel (regex P) cfg (net P) L (pr_pools r) ctx t))"
    if "reach ((=) (parent_spawn v)) (parent_step ?E) r" for v r using that by blast
  moreover have "command cfg = cli_command args" using cfg by (simp add: build_config_Inr)
  ultimately show ?thesis using cfg go ready by (intro exI [of _ cfg] exI [of _ tun_fd] exI [of _ registered]) auto
qed

theorem command_traffic_follows_rules_witness:
  "\<exists>s tun_fd. reach ((=) sample_forked) (setup_step id) s \<and> snd (su_parent s) = Go (tun_fd, []) \<and>
     (\<forall>r. reach ((=) (parent_spawn tree_end))
          (parent_step (run_env_of (sample_libs []) tun_fd plain_config [] 4 77 tree_lib quiet_os)) r \<longrightarrow>
        pr_phase r = Forwarding \<longrightarrow> pr_loop r \<noteq> LoopEnded (Inr ()))"
proof -
  from sample_run obtain s n where s: "reach ((=) sample_forked) (setup_step id) s" "snd (su_child s) = Go [''sh'']"
    "snd (su_parent s) = Go (n, [])" by fastforce
  have r: "regex_set_spec (regex (sample_libs [])) literal_match" by (simp add: literal_lib_set)
  from command_traffic_follows_rules [OF log_os_spec sample_parent_spec sample_el_env r
      _ s(1,2), of sample_files OtherArch plain_cli "Inr (3, 4)" "Inr 77"
      "\<lparr>lw_fds = [0, 1, 2, 3, 4], lw_temps = [], lw_trace = []\<rparr>" "(0, [])"] sample_main sample_config s(1,3)
  show ?thesis by (intro exI [of _ s] exI [of _ n]) fastforce
qed

section \<open>Names that are not host names\<close>

text \<open>
  The query parser accepts every label that is UTF-8, the pool hands out an address for it, a
  connection to that address is routed by that name, and the HTTP connector writes the name into
  its request as it is. A query for a name with a line break therefore puts a header line of the
  command's choice into the request to the proxy.
\<close>

lemma line_break_reaches_request:
  "\<exists>data name rest pool ip. parse_query data = Inr (Some (7, name, 1)) \<and> resolve new name = (pool, ip) \<and>
     target_for \<lparr>dns_handle = 0, dns_pool = pool\<rparr> ip 80 = Domain name 80 \<and>
     http_request (Domain name 80) auth = ''CONNECT a'' @ [CR, LF] @ ''X: y:80 HTTP/1.1'' @ [CR, LF] @ rest"
proof -
  define name where "name = ''a'' @ [CR, LF] @ ''X: y''"
  have "valid_label name" by (simp add: valid_label_def ascii_valid_str is_ascii_def name_def CR_def LF_def)
  moreover have "query_header [0, 7, 1, 0, 0, 1, 0, 0, 0, 0, 0, 0]" "header_id [0, 7, 1, 0, 0, 1, 0, 0, 0, 0, 0, 0] = 7"
    by (simp_all add: query_header_def header_id_def from_be16_def)
  ultimately have "parse_query ([0, 7, 1, 0, 0, 1, 0, 0, 0, 0, 0, 0] @ wire_name [name] @ be16 1 @ be16 1 @ []) =
      Inr (Some (7, name, 1))"
    by (subst parse_query_wire) simp_all
  moreover obtain pool ip where r: "resolve new name = (pool, ip)" by fastforce
  moreover have "target_for \<lparr>dns_handle = 0, dns_pool = pool\<rparr> ip 80 = Domain name 80"
    using fd.resolve_lookup [of new name] fd.resolve_is_fake [of new name] fake_dns_ok_new r by (simp add: target_for_def)
  moreover have "\<exists>rest. http_request (Domain name 80) auth = ''CONNECT a'' @ [CR, LF] @ ''X: y:80 HTTP/1.1'' @ [CR, LF] @ rest"
  proof -
    have "show_nat 80 = ''80''" by code_simp
    then show ?thesis by (simp add: http_request_def name_def Let_def)
  qed
  ultimately show ?thesis by blast
qed

end
